(* ===== verification/Prelude.thy ===== *)
theory Prelude
  imports Complex_Main "HOL-Library.Word" "HOL-Library.Log_Nat" "HOL-Library.Monad_Syntax"
    "HOL-Library.Multiset"
begin

text \<open>
  Shared vocabulary of the development: the fixed-width integer conventions, the names of the
  C return codes, and the generic lemmas on integers, lists and options that every component
  uses.

  \<^item> A signed C integer is an \<open>int\<close> whose arithmetic results are brought back into range by
    \<open>i64\<close> or \<open>i32\<close> (two's complement) wherever the source arithmetic can leave it.
  \<^item> An unsigned C integer that is hashed, shifted or masked is a \<open>64 word\<close>, \<open>32 word\<close> or
    \<open>8 word\<close>.
  \<^item> A C function that can read or write outside an array, or loop forever, returns an
    \<open>option\<close>; \<open>None\<close> is that undefined or divergent run. Error codes are ordinary values.
  \<^item> A \<open>double\<close> is a \<open>real\<close>: rounding of floating-point arithmetic is not modelled.
\<close>

unbundle bit_operations_syntax

named_theorems c_int_simps \<open>facts that remove the fixed-width wrappers on in-range values\<close>

type_synonym byte = "8 word"
type_synonym u32 = "32 word"
type_synonym u64 = "64 word"

section \<open>Fixed-width signed integers\<close>

definition i64 :: "int \<Rightarrow> int" where
  "i64 x = signed_take_bit 63 x"

definition i32 :: "int \<Rightarrow> int" where
  "i32 x = signed_take_bit 31 x"

abbreviation (input) INT64_MAX :: int where
  "INT64_MAX \<equiv> 9223372036854775807"

abbreviation (input) INT64_MIN :: int where
  "INT64_MIN \<equiv> - 9223372036854775808"

abbreviation (input) INT32_MAX :: int where
  "INT32_MAX \<equiv> 2147483647"

abbreviation (input) INT32_MIN :: int where
  "INT32_MIN \<equiv> - 2147483648"

abbreviation (input) EINVAL :: int where
  "EINVAL \<equiv> 22"

abbreviation (input) ENOMEM :: int where
  "ENOMEM \<equiv> 12"

abbreviation (input) EIO :: int where
  "EIO \<equiv> 5"

lemma i64_id [c_int_simps]: "INT64_MIN \<le> x \<Longrightarrow> x \<le> INT64_MAX \<Longrightarrow> i64 x = x"
  by (simp add: i64_def signed_take_bit_int_eq_self)

lemma i32_id [c_int_simps]: "INT32_MIN \<le> x \<Longrightarrow> x \<le> INT32_MAX \<Longrightarrow> i32 x = x"
  by (simp add: i32_def signed_take_bit_int_eq_self)

lemma i64_nonneg_id [c_int_simps]: "0 \<le> x \<Longrightarrow> x \<le> INT64_MAX \<Longrightarrow> i64 x = x"
  by (simp add: i64_id)

lemma i32_nonneg_id [c_int_simps]: "0 \<le> x \<Longrightarrow> x \<le> INT32_MAX \<Longrightarrow> i32 x = x"
  by (simp add: i32_id)

lemma i64_range: "INT64_MIN \<le> i64 x \<and> i64 x \<le> INT64_MAX"
  using signed_take_bit_int_greater_eq_minus_exp [of 63 x] signed_take_bit_int_less_exp [of 63 x]
  by (simp add: i64_def)

lemma i64_sub_add_wrap: "i64 (i64 (x + 1) - 1) = i64 x"
proof -
  have "take_bit 64 (i64 (x + 1) - 1) = take_bit 64 x"
  proof -
    have "take_bit 64 (i64 (x + 1)) = take_bit 64 (x + 1)"
      by (simp add: i64_def take_bit_signed_take_bit)
    then have "(i64 (x + 1)) mod 2 ^ 64 = (x + 1) mod 2 ^ 64"
      by (simp add: take_bit_eq_mod)
    then have "(i64 (x + 1) - 1) mod 2 ^ 64 = (x + 1 - 1) mod 2 ^ 64"
      by (metis mod_diff_left_eq)
    then show ?thesis by (simp add: take_bit_eq_mod)
  qed
  then show ?thesis
    using signed_take_bit_eq_iff_take_bit_eq [of 63 "i64 (x + 1) - 1" x] by (simp add: i64_def)
qed

text \<open>The conversion of a \<open>double\<close> to an integer, which drops the fraction.\<close>

definition c_trunc :: "real \<Rightarrow> int" where
  "c_trunc x = (if 0 \<le> x then \<lfloor>x\<rfloor> else \<lceil>x\<rceil>)"

lemma c_trunc_nonneg [simp]: "0 \<le> x \<Longrightarrow> c_trunc x = \<lfloor>x\<rfloor>"
  by (simp add: c_trunc_def)

section \<open>Bit lengths and shifts\<close>

lemma or_less_power_iff:
  fixes a b :: int
  assumes "0 \<le> a" "0 \<le> b"
  shows "a OR b < 2 ^ n \<longleftrightarrow> a < 2 ^ n \<and> b < 2 ^ n"
proof
  assume less: "a OR b < 2 ^ n"
  have "a \<le> a OR b" "b \<le> a OR b"
    using assms or_greater_eq [of b a] or_greater_eq [of a b] by (simp_all add: or.commute)
  with less show "a < 2 ^ n \<and> b < 2 ^ n" by simp
next
  assume "a < 2 ^ n \<and> b < 2 ^ n"
  then show "a OR b < 2 ^ n"
    using assms by (simp add: OR_upper)
qed

lemma bitlen_or:
  assumes "0 \<le> a" "0 \<le> b"
  shows "bitlen (a OR b) = max (bitlen a) (bitlen b)"
proof -
  have le_iff: "bitlen (a OR b) \<le> w \<longleftrightarrow> max (bitlen a) (bitlen b) \<le> w" for w
    using assms by (auto simp: bitlen_le_iff_power or_less_power_iff)
  show ?thesis
    using le_iff by (metis order.antisym order.refl)
qed

lemma bitlen_mask: "bitlen (((2::int) ^ k - 1) * 2 ^ n) = (if k = 0 then 0 else int (k + n))"
proof (cases "k = 0")
  case False
  have pos: "0 < (2::int) ^ k - 1"
    using False by simp
  have "bitlen ((2::int) ^ k - 1) = int k"
  proof -
    have le_iff: "bitlen ((2::int) ^ k - 1) \<le> w \<longleftrightarrow> int k \<le> w" for w
    proof
      assume le: "bitlen ((2::int) ^ k - 1) \<le> w"
      then have w: "0 \<le> w" "(2::int) ^ k - 1 < 2 ^ nat w"
        by (simp_all add: bitlen_le_iff_power)
      then have "(2::int) ^ k \<le> 2 ^ nat w" by linarith
      then have "k \<le> nat w" by (simp add: power_increasing_iff)
      with w show "int k \<le> w" by simp
    next
      assume le: "int k \<le> w"
      then have "(2::int) ^ k \<le> 2 ^ nat w" by (simp add: power_increasing_iff)
      then have "(2::int) ^ k - 1 < 2 ^ nat w" by linarith
      with le show "bitlen ((2::int) ^ k - 1) \<le> w" by (simp add: bitlen_le_iff_power)
    qed
    show ?thesis
      using le_iff [of "int k"] le_iff [of "bitlen ((2::int) ^ k - 1)"] by simp
  qed
  then show ?thesis
    using False bitlen_pow2 [OF pos, of n] by simp
qed simp

lemma int_le_div_iff:
  fixes a b c :: int
  assumes "0 < c"
  shows "b \<le> a div c \<longleftrightarrow> b * c \<le> a"
proof
  assume "b \<le> a div c"
  then have "b * c \<le> a div c * c"
    using assms by (simp add: mult_right_mono)
  also have "\<dots> \<le> a"
    using assms by (metis add_increasing2 div_mult_mod_eq order_refl pos_mod_sign)
  finally show "b * c \<le> a" .
next
  assume "b * c \<le> a"
  then have "b * c div c \<le> a div c"
    using assms by (rule zdiv_mono1)
  with assms show "b \<le> a div c" by simp
qed

lemma int_div_less_iff:
  fixes a b c :: int
  assumes "0 < c"
  shows "a div c < b \<longleftrightarrow> a < b * c"
  using int_le_div_iff [OF assms, of b a] by linarith

section \<open>Lists\<close>

lemma sum_list_update_int:
  "i < length xs \<Longrightarrow> sum_list (xs[i := v]) = sum_list xs - xs ! i + (v :: int)"
  by (induction xs arbitrary: i) (auto split: nat.splits)

lemma nth_le_sum_list:
  "(\<And>x. x \<in> set xs \<Longrightarrow> 0 \<le> (x :: int)) \<Longrightarrow> i < length xs \<Longrightarrow> xs ! i \<le> sum_list xs"
proof (induction xs arbitrary: i)
  case (Cons x xs)
  have rest: "0 \<le> sum_list xs"
    using Cons.prems(1) by (simp add: sum_list_nonneg)
  show ?case
  proof (cases i)
    case 0
    with rest show ?thesis by simp
  next
    case (Suc j)
    with Cons.prems have "xs ! j \<le> sum_list xs" by (intro Cons.IH) auto
    with Suc Cons.prems(1) [of x] show ?thesis by simp
  qed
qed simp

end
