(* ===== verification/Hdr_Histogram.thy ===== *)
theory Hdr_Histogram
  imports Prelude
begin

text \<open>
  The histogram structure of \<^verbatim>\<open>hdr_histogram.c\<close>: the struct and its configuration, the
  arithmetic that maps a value to a slot of the counts array and back, initialisation and reset,
  in the order of the source file. A \<open>double\<close> logarithm is modelled by the exact integer
  logarithm; on the machine the two agree for every \<open>lowest_discernible_value\<close> below \<open>2 ^ 47\<close>
  and for every power of two.
\<close>

section \<open>Data\<close>

record hdr_histogram =
  lowest_discernible_value :: int
  highest_trackable_value :: int
  unit_magnitude :: int
  significant_figures :: int
  sub_bucket_half_count_magnitude :: int
  sub_bucket_half_count :: int
  sub_bucket_mask :: int
  sub_bucket_count :: int
  bucket_count :: int
  min_value :: int
  max_value :: int
  normalizing_index_offset :: int
  conversion_ratio :: real
  counts_len :: int
  total_count :: int
  counts :: "int list"

record hdr_histogram_bucket_config =
  cfg_lowest_discernible_value :: int
  cfg_highest_trackable_value :: int
  cfg_unit_magnitude :: int
  cfg_significant_figures :: int
  cfg_sub_bucket_half_count_magnitude :: int
  cfg_sub_bucket_half_count :: int
  cfg_sub_bucket_mask :: int
  cfg_sub_bucket_count :: int
  cfg_bucket_count :: int
  cfg_counts_len :: int

section \<open>Counts\<close>

definition normalize_index :: "hdr_histogram \<Rightarrow> int \<Rightarrow> int" where
  "normalize_index h index =
     (if normalizing_index_offset h = 0 then index
      else
        let normalized_index = i32 (index - normalizing_index_offset h);
            adjustment =
              (if normalized_index < 0 then counts_len h
               else if normalized_index \<ge> counts_len h then - counts_len h
               else 0)
        in i32 (normalized_index + adjustment))"

text \<open>Reading or writing outside the allocated array is \<open>None\<close>.\<close>

definition counts_get_direct :: "hdr_histogram \<Rightarrow> int \<Rightarrow> int option" where
  "counts_get_direct h index =
     (if 0 \<le> index \<and> index < int (length (counts h)) then Some (counts h ! nat index) else None)"

definition counts_get_normalised :: "hdr_histogram \<Rightarrow> int \<Rightarrow> int option" where
  "counts_get_normalised h index = counts_get_direct h (normalize_index h index)"

definition counts_inc_normalised :: "hdr_histogram \<Rightarrow> int \<Rightarrow> int \<Rightarrow> hdr_histogram option" where
  "counts_inc_normalised h index value =
     (let normalised_index = normalize_index h index in
      case counts_get_direct h normalised_index of
        None \<Rightarrow> None
      | Some c \<Rightarrow>
          Some (h\<lparr>counts := (counts h)[nat normalised_index := i64 (c + value)],
                  total_count := i64 (total_count h + value)\<rparr>))"

definition update_min_max :: "hdr_histogram \<Rightarrow> int \<Rightarrow> hdr_histogram" where
  "update_min_max h value =
     (let h1 = h\<lparr>min_value := (if value < min_value h \<and> value \<noteq> 0 then value else min_value h)\<rparr>
      in h1\<lparr>max_value := (if value > max_value h1 then value else max_value h1)\<rparr>)"

section \<open>Utility\<close>

primrec hdr_power :: "int \<Rightarrow> nat \<Rightarrow> int" where
  "hdr_power base 0 = 1"
| "hdr_power base (Suc n) = i64 (hdr_power base n * base)"

text \<open>The number of leading zeros of the 64-bit pattern of a signed value.\<close>

definition count_leading_zeros_64 :: "int \<Rightarrow> int" where
  "count_leading_zeros_64 value = 64 - bitlen (take_bit 64 value)"

definition get_bucket_index :: "hdr_histogram \<Rightarrow> int \<Rightarrow> int" where
  "get_bucket_index h value =
     (let pow2ceiling = 64 - count_leading_zeros_64 (value OR sub_bucket_mask h)
      in pow2ceiling - unit_magnitude h - (sub_bucket_half_count_magnitude h + 1))"

definition get_sub_bucket_index :: "int \<Rightarrow> int \<Rightarrow> int \<Rightarrow> int" where
  "get_sub_bucket_index value bucket_index um = i32 (drop_bit (nat (bucket_index + um)) value)"

definition counts_index :: "hdr_histogram \<Rightarrow> int \<Rightarrow> int \<Rightarrow> int" where
  "counts_index h bucket_index sub_bucket_index =
     (let bucket_base_index =
            i32 (push_bit (nat (sub_bucket_half_count_magnitude h)) (bucket_index + 1));
          offset_in_bucket = sub_bucket_index - sub_bucket_half_count h
      in i32 (bucket_base_index + offset_in_bucket))"

definition value_from_index :: "int \<Rightarrow> int \<Rightarrow> int \<Rightarrow> int" where
  "value_from_index bucket_index sub_bucket_index um =
     i64 (push_bit (nat (bucket_index + um)) sub_bucket_index)"

definition counts_index_for :: "hdr_histogram \<Rightarrow> int \<Rightarrow> int" where
  "counts_index_for h value =
     (let bucket_index = get_bucket_index h value;
          sub_bucket_index = get_sub_bucket_index value bucket_index (unit_magnitude h)
      in counts_index h bucket_index sub_bucket_index)"

definition hdr_value_at_index :: "hdr_histogram \<Rightarrow> int \<Rightarrow> int" where
  "hdr_value_at_index h index =
     (let bucket_index = drop_bit (nat (sub_bucket_half_count_magnitude h)) index - 1;
          sub_bucket_index =
            (index AND (sub_bucket_half_count h - 1)) + sub_bucket_half_count h
      in if bucket_index < 0
         then value_from_index 0 (sub_bucket_index - sub_bucket_half_count h) (unit_magnitude h)
         else value_from_index bucket_index sub_bucket_index (unit_magnitude h))"

definition size_of_equivalent_value_range_given_bucket_indices ::
    "hdr_histogram \<Rightarrow> int \<Rightarrow> int \<Rightarrow> int" where
  "size_of_equivalent_value_range_given_bucket_indices h bucket_index sub_bucket_index =
     (let adjusted_bucket =
            (if sub_bucket_index \<ge> sub_bucket_count h then bucket_index + 1 else bucket_index)
      in i64 (push_bit (nat (unit_magnitude h + adjusted_bucket)) 1))"

definition hdr_size_of_equivalent_value_range :: "hdr_histogram \<Rightarrow> int \<Rightarrow> int" where
  "hdr_size_of_equivalent_value_range h value =
     (let bucket_index = get_bucket_index h value;
          sub_bucket_index = get_sub_bucket_index value bucket_index (unit_magnitude h);
          adjusted_bucket =
            (if sub_bucket_index \<ge> sub_bucket_count h then bucket_index + 1 else bucket_index)
      in i64 (push_bit (nat (unit_magnitude h + adjusted_bucket)) 1))"

definition lowest_equivalent_value :: "hdr_histogram \<Rightarrow> int \<Rightarrow> int" where
  "lowest_equivalent_value h value =
     (let bucket_index = get_bucket_index h value;
          sub_bucket_index = get_sub_bucket_index value bucket_index (unit_magnitude h)
      in value_from_index bucket_index sub_bucket_index (unit_magnitude h))"

definition lowest_equivalent_value_given_bucket_indices ::
    "hdr_histogram \<Rightarrow> int \<Rightarrow> int \<Rightarrow> int" where
  "lowest_equivalent_value_given_bucket_indices h bucket_index sub_bucket_index =
     value_from_index bucket_index sub_bucket_index (unit_magnitude h)"

definition hdr_next_non_equivalent_value :: "hdr_histogram \<Rightarrow> int \<Rightarrow> int" where
  "hdr_next_non_equivalent_value h value =
     i64 (lowest_equivalent_value h value + hdr_size_of_equivalent_value_range h value)"

definition highest_equivalent_value :: "hdr_histogram \<Rightarrow> int \<Rightarrow> int" where
  "highest_equivalent_value h value = i64 (hdr_next_non_equivalent_value h value - 1)"

definition hdr_median_equivalent_value :: "hdr_histogram \<Rightarrow> int \<Rightarrow> int" where
  "hdr_median_equivalent_value h value =
     i64 (lowest_equivalent_value h value + drop_bit 1 (hdr_size_of_equivalent_value_range h value))"

definition non_zero_min :: "hdr_histogram \<Rightarrow> int" where
  "non_zero_min h =
     (if INT64_MAX = min_value h then INT64_MAX else lowest_equivalent_value h (min_value h))"

text \<open>
  The scan of \<open>hdr_reset_internal_counters\<close>: the smallest non-zero index (ignoring slot 0),
  the largest index and the total of the positive counts.
\<close>

function reset_counters_scan ::
    "hdr_histogram \<Rightarrow> int \<Rightarrow> int \<Rightarrow> int \<Rightarrow> int \<Rightarrow> (int \<times> int \<times> int) option" where
  "reset_counters_scan h i min_non_zero_index max_index observed_total_count =
     (if i < counts_len h then
        (case counts_get_direct h i of
           None \<Rightarrow> None
         | Some count_at_index \<Rightarrow>
             if count_at_index > 0
             then reset_counters_scan h (i + 1)
                    (if min_non_zero_index = - 1 \<and> i \<noteq> 0 then i else min_non_zero_index)
                    i (i64 (observed_total_count + count_at_index))
             else reset_counters_scan h (i + 1) min_non_zero_index max_index observed_total_count)
      else Some (min_non_zero_index, max_index, observed_total_count))"
  by pat_completeness auto
termination
  by (relation "measure (\<lambda>(h, i, _). nat (counts_len h - i))") auto

declare reset_counters_scan.simps [simp del]

definition hdr_reset_internal_counters :: "hdr_histogram \<Rightarrow> hdr_histogram option" where
  "hdr_reset_internal_counters h =
     (case reset_counters_scan h 0 (- 1) (- 1) 0 of
        None \<Rightarrow> None
      | Some (min_non_zero_index, max_index, observed_total_count) \<Rightarrow>
          let h1 = (if max_index = - 1 then h\<lparr>max_value := 0\<rparr>
                    else h\<lparr>max_value := highest_equivalent_value h (hdr_value_at_index h max_index)\<rparr>);
              h2 = (if min_non_zero_index = - 1 then h1\<lparr>min_value := INT64_MAX\<rparr>
                    else h1\<lparr>min_value := hdr_value_at_index h1 min_non_zero_index\<rparr>)
          in Some (h2\<lparr>total_count := observed_total_count\<rparr>))"

partial_function (option) buckets_needed_loop :: "int \<Rightarrow> int \<Rightarrow> int \<Rightarrow> int option" where
  "buckets_needed_loop smallest_untrackable_value value buckets_needed =
     (if smallest_untrackable_value \<le> value then
        if smallest_untrackable_value > INT64_MAX div 2 then Some (buckets_needed + 1)
        else buckets_needed_loop (push_bit 1 smallest_untrackable_value) value (buckets_needed + 1)
      else Some buckets_needed)"

declare buckets_needed_loop.simps [code]

definition buckets_needed_to_cover_value :: "int \<Rightarrow> int \<Rightarrow> int \<Rightarrow> int option" where
  "buckets_needed_to_cover_value value sbc um =
     buckets_needed_loop (i64 (push_bit (nat um) sbc)) value 1"

section \<open>Memory\<close>

text \<open>\<open>ceil (log x / log 2)\<close> and \<open>(int32_t) (log x / log 2)\<close> for positive \<open>x\<close>.\<close>

definition ceil_log2 :: "int \<Rightarrow> int" where
  "ceil_log2 x = bitlen (x - 1)"

definition floor_log2 :: "int \<Rightarrow> int" where
  "floor_log2 x = bitlen x - 1"

definition hdr_calculate_bucket_config ::
    "int \<Rightarrow> int \<Rightarrow> int \<Rightarrow> (int + hdr_histogram_bucket_config) option" where
  "hdr_calculate_bucket_config lowest highest sf =
     (if lowest < 1 \<or> sf < 1 \<or> 5 < sf \<or> i64 (lowest * 2) > highest then Some (Inl EINVAL)
      else
        let largest_value_with_single_unit_resolution = 2 * hdr_power 10 (nat sf);
            sub_bucket_count_magnitude = ceil_log2 largest_value_with_single_unit_resolution;
            half_magnitude =
              (if sub_bucket_count_magnitude > 1 then sub_bucket_count_magnitude else 1) - 1;
            um = floor_log2 lowest
        in if INT32_MAX < um then Some (Inl EINVAL)
           else
             let sbc = 2 ^ nat (half_magnitude + 1);
                 half_count = sbc div 2;
                 mask = i64 (push_bit (nat um) (sbc - 1))
             in if um + half_magnitude > 61 then Some (Inl EINVAL)
                else
                  (case buckets_needed_to_cover_value highest sbc um of
                     None \<Rightarrow> None
                   | Some bc \<Rightarrow>
                       Some (Inr \<lparr>cfg_lowest_discernible_value = lowest,
                                  cfg_highest_trackable_value = highest,
                                  cfg_unit_magnitude = um,
                                  cfg_significant_figures = sf,
                                  cfg_sub_bucket_half_count_magnitude = half_magnitude,
                                  cfg_sub_bucket_half_count = half_count,
                                  cfg_sub_bucket_mask = mask,
                                  cfg_sub_bucket_count = sbc,
                                  cfg_bucket_count = bc,
                                  cfg_counts_len = i32 ((bc + 1) * (sbc div 2))\<rparr>)))"

definition hdr_init_preallocated ::
    "hdr_histogram \<Rightarrow> hdr_histogram_bucket_config \<Rightarrow> hdr_histogram" where
  "hdr_init_preallocated h cfg =
     h\<lparr>lowest_discernible_value := cfg_lowest_discernible_value cfg,
       highest_trackable_value := cfg_highest_trackable_value cfg,
       unit_magnitude := cfg_unit_magnitude cfg,
       significant_figures := cfg_significant_figures cfg,
       sub_bucket_half_count_magnitude := cfg_sub_bucket_half_count_magnitude cfg,
       sub_bucket_half_count := cfg_sub_bucket_half_count cfg,
       sub_bucket_mask := cfg_sub_bucket_mask cfg,
       sub_bucket_count := cfg_sub_bucket_count cfg,
       min_value := INT64_MAX,
       max_value := 0,
       normalizing_index_offset := 0,
       conversion_ratio := 1,
       bucket_count := cfg_bucket_count cfg,
       counts_len := cfg_counts_len cfg,
       total_count := 0\<rparr>"

text \<open>The struct as \<open>hdr_calloc\<close> returns it, with its \<open>counts\<close> pointer set.\<close>

definition calloc_histogram :: "int list \<Rightarrow> hdr_histogram" where
  "calloc_histogram cs =
     \<lparr>lowest_discernible_value = 0, highest_trackable_value = 0, unit_magnitude = 0,
      significant_figures = 0, sub_bucket_half_count_magnitude = 0, sub_bucket_half_count = 0,
      sub_bucket_mask = 0, sub_bucket_count = 0, bucket_count = 0, min_value = 0, max_value = 0,
      normalizing_index_offset = 0, conversion_ratio = 0, counts_len = 0, total_count = 0,
      counts = cs\<rparr>"

text \<open>
  \<open>calloc n\<close> says whether an allocation of \<open>n\<close> bytes succeeds; the struct takes 104 bytes.
\<close>

definition hdr_init ::
    "(int \<Rightarrow> bool) \<Rightarrow> int \<Rightarrow> int \<Rightarrow> int \<Rightarrow> (int + hdr_histogram) option" where
  "hdr_init calloc lowest highest sf =
     (case hdr_calculate_bucket_config lowest highest sf of
        None \<Rightarrow> None
      | Some (Inl r) \<Rightarrow> Some (Inl r)
      | Some (Inr cfg) \<Rightarrow>
          if \<not> calloc (cfg_counts_len cfg * 8) then Some (Inl ENOMEM)
          else if \<not> calloc 104 then Some (Inl ENOMEM)
          else Some (Inr (hdr_init_preallocated
                            (calloc_histogram (replicate (nat (cfg_counts_len cfg)) 0)) cfg)))"

definition hdr_alloc :: "(int \<Rightarrow> bool) \<Rightarrow> int \<Rightarrow> int \<Rightarrow> (int + hdr_histogram) option" where
  "hdr_alloc calloc highest sf = hdr_init calloc 1 highest sf"

definition hdr_reset :: "hdr_histogram \<Rightarrow> hdr_histogram" where
  "hdr_reset h =
     h\<lparr>total_count := 0, min_value := INT64_MAX, max_value := 0,
       counts := replicate (nat (counts_len h)) 0 @ drop (nat (counts_len h)) (counts h)\<rparr>"

definition hdr_get_memory_size :: "hdr_histogram \<Rightarrow> int" where
  "hdr_get_memory_size h = 104 + counts_len h * 8"

end
