(* ===== verification/Slots.thy ===== *)
theory Slots
  imports Prelude
begin

text \<open>
  The contract between the bucket arithmetic and its clients. For a histogram \<open>h\<close> that meets the
  invariant \<open>wf\<close>, \<open>idx h\<close> sends a value below \<open>top\<close> to a slot number and \<open>val h\<close> sends each of
  the \<open>slots h\<close> slots to the least value it holds. The clients (recording, percentiles, iteration,
  merging) use these laws only, never the bit arithmetic.
\<close>

locale slot_map =
  fixes wf :: "'h \<Rightarrow> bool" and idx :: "'h \<Rightarrow> int \<Rightarrow> int" and val :: "'h \<Rightarrow> int \<Rightarrow> int"
    and slots :: "'h \<Rightarrow> int" and top :: int
  assumes idx_nonneg: "wf h \<Longrightarrow> 0 \<le> v \<Longrightarrow> v < top \<Longrightarrow> 0 \<le> idx h v"
    and idx_mono: "wf h \<Longrightarrow> 0 \<le> v \<Longrightarrow> v \<le> w \<Longrightarrow> w < top \<Longrightarrow> idx h v \<le> idx h w"
    and val_range: "wf h \<Longrightarrow> 0 \<le> i \<Longrightarrow> i < slots h \<Longrightarrow> 0 \<le> val h i \<and> val h i < top"
    and idx_val: "wf h \<Longrightarrow> 0 \<le> i \<Longrightarrow> i < slots h \<Longrightarrow> idx h (val h i) = i"
    and val_idx: "wf h \<Longrightarrow> 0 \<le> v \<Longrightarrow> v < top \<Longrightarrow> idx h v < slots h \<Longrightarrow> val h (idx h v) \<le> v"
begin

lemma val_le_iff:
  assumes "wf h" "0 \<le> i" "i < slots h" "0 \<le> v" "v < top" "idx h v < slots h"
  shows "val h i \<le> v \<longleftrightarrow> i \<le> idx h v"
proof
  assume "val h i \<le> v"
  then have "idx h (val h i) \<le> idx h v"
    using assms val_range by (intro idx_mono) auto
  with assms show "i \<le> idx h v" by (simp add: idx_val)
next
  assume le: "i \<le> idx h v"
  show "val h i \<le> v"
  proof (rule ccontr)
    assume not: "\<not> val h i \<le> v"
    then have "idx h v \<le> idx h (val h i)"
      using assms val_range by (intro idx_mono) auto
    then have "idx h v = i"
      using le assms by (simp add: idx_val)
    with val_idx [OF assms(1,4,5,6)] not show False by simp
  qed
qed

lemma val_strict_mono:
  assumes "wf h" "0 \<le> i" "i < j" "j < slots h"
  shows "val h i < val h j"
proof (rule ccontr)
  assume "\<not> val h i < val h j"
  then have "idx h (val h j) \<le> idx h (val h i)"
    using assms val_range by (intro idx_mono) auto
  with assms show False by (simp add: idx_val)
qed

lemma val_mono: "wf h \<Longrightarrow> 0 \<le> i \<Longrightarrow> i \<le> j \<Longrightarrow> j < slots h \<Longrightarrow> val h i \<le> val h j"
  using val_strict_mono [of h i j] by (cases "i = j") auto

lemma idx_less_below:
  assumes "wf h" "0 \<le> w" "w \<le> v" "v < top" "idx h v < slots h"
  shows "idx h w < slots h"
  using idx_mono [OF assms(1,2,3,4)] assms(5) by linarith

lemma less_val_iff:
  assumes "wf h" "0 \<le> i" "i < slots h" "0 \<le> v" "v < top" "idx h v < slots h"
  shows "v < val h i \<longleftrightarrow> idx h v < i"
  using val_le_iff [OF assms] by linarith

end

end
