(* ===== verification/Hdr_Buckets.thy ===== *)
theory Hdr_Buckets
  imports Hdr_Histogram Slots
begin

text \<open>
  The laws of the slot arithmetic of \<^verbatim>\<open>hdr_histogram.c\<close>: closed forms for the bucket and
  sub-bucket of a value, the contract \<open>slot_map\<close> for \<open>counts_index_for\<close> and
  \<open>hdr_value_at_index\<close>, the range of equivalent values, the precision guarantee, and that
  \<open>hdr_init\<close> builds a well-formed configuration.
\<close>

section \<open>Well-formed configurations\<close>

definition hdr_config_wf :: "hdr_histogram \<Rightarrow> bool" where
  "hdr_config_wf h \<longleftrightarrow>
     0 \<le> unit_magnitude h \<and> 0 \<le> sub_bucket_half_count_magnitude h \<and>
     sub_bucket_half_count_magnitude h \<le> 17 \<and>
     unit_magnitude h + sub_bucket_half_count_magnitude h \<le> 61 \<and>
     sub_bucket_half_count h = 2 ^ nat (sub_bucket_half_count_magnitude h) \<and>
     sub_bucket_count h = 2 * 2 ^ nat (sub_bucket_half_count_magnitude h) \<and>
     sub_bucket_mask h = (sub_bucket_count h - 1) * 2 ^ nat (unit_magnitude h) \<and>
     1 \<le> bucket_count h \<and>
     unit_magnitude h + sub_bucket_half_count_magnitude h + bucket_count h \<le> 63 \<and>
     counts_len h = (bucket_count h + 1) * sub_bucket_half_count h \<and>
     int (length (counts h)) = counts_len h \<and>
     1 \<le> significant_figures h \<and> 10 ^ nat (significant_figures h) \<le> sub_bucket_half_count h \<and>
     highest_trackable_value h
       < 2 ^ nat (unit_magnitude h + sub_bucket_half_count_magnitude h + bucket_count h)"

text \<open>The two magnitudes as natural numbers, the bucket of a value and the width of its slot.\<close>

definition half_bits :: "hdr_histogram \<Rightarrow> nat" where
  "half_bits h = nat (sub_bucket_half_count_magnitude h)"

definition unit_bits :: "hdr_histogram \<Rightarrow> nat" where
  "unit_bits h = nat (unit_magnitude h)"

definition bucket_of :: "hdr_histogram \<Rightarrow> int \<Rightarrow> nat" where
  "bucket_of h v = nat (bitlen v - int (Suc (half_bits h) + unit_bits h))"

abbreviation width_of :: "hdr_histogram \<Rightarrow> int \<Rightarrow> nat" where
  "width_of h v \<equiv> bucket_of h v + unit_bits h"

abbreviation (input) value_limit :: int where
  "value_limit \<equiv> 9223372036854775808"

lemma hdr_config_wfD:
  assumes "hdr_config_wf h"
  shows "unit_magnitude h = int (unit_bits h)"
    and "sub_bucket_half_count_magnitude h = int (half_bits h)"
    and "half_bits h \<le> 17" and "unit_bits h + half_bits h \<le> 61"
    and "sub_bucket_half_count h = 2 ^ half_bits h"
    and "sub_bucket_count h = 2 * 2 ^ half_bits h"
    and "sub_bucket_mask h = (2 ^ Suc (half_bits h) - 1) * 2 ^ unit_bits h"
    and "1 \<le> bucket_count h"
    and "int (unit_bits h) + int (half_bits h) + bucket_count h \<le> 63"
    and "counts_len h = (bucket_count h + 1) * 2 ^ half_bits h"
    and "int (length (counts h)) = counts_len h"
  using assms
  by (auto simp: hdr_config_wf_def half_bits_def unit_bits_def nat_add_distrib [symmetric] nat_le_iff)

section \<open>Frame\<close>

text \<open>The slot arithmetic reads the configuration only, which recording never changes.\<close>

lemmas slot_arithmetic_defs =
  get_bucket_index_def counts_index_def counts_index_for_def hdr_value_at_index_def
  hdr_size_of_equivalent_value_range_def size_of_equivalent_value_range_given_bucket_indices_def
  lowest_equivalent_value_def lowest_equivalent_value_given_bucket_indices_def
  hdr_next_non_equivalent_value_def highest_equivalent_value_def hdr_median_equivalent_value_def
  half_bits_def unit_bits_def

lemma slot_arithmetic_counts [simp]:
  "get_bucket_index (h\<lparr>counts := x\<rparr>) = get_bucket_index h"
  "counts_index (h\<lparr>counts := x\<rparr>) = counts_index h"
  "counts_index_for (h\<lparr>counts := x\<rparr>) = counts_index_for h"
  "hdr_value_at_index (h\<lparr>counts := x\<rparr>) = hdr_value_at_index h"
  "hdr_size_of_equivalent_value_range (h\<lparr>counts := x\<rparr>) = hdr_size_of_equivalent_value_range h"
  "size_of_equivalent_value_range_given_bucket_indices (h\<lparr>counts := x\<rparr>) = size_of_equivalent_value_range_given_bucket_indices h"
  "lowest_equivalent_value (h\<lparr>counts := x\<rparr>) = lowest_equivalent_value h"
  "lowest_equivalent_value_given_bucket_indices (h\<lparr>counts := x\<rparr>) = lowest_equivalent_value_given_bucket_indices h"
  "hdr_next_non_equivalent_value (h\<lparr>counts := x\<rparr>) = hdr_next_non_equivalent_value h"
  "highest_equivalent_value (h\<lparr>counts := x\<rparr>) = highest_equivalent_value h"
  "hdr_median_equivalent_value (h\<lparr>counts := x\<rparr>) = hdr_median_equivalent_value h"
  "half_bits (h\<lparr>counts := x\<rparr>) = half_bits h"
  "unit_bits (h\<lparr>counts := x\<rparr>) = unit_bits h"
  by (simp_all add: slot_arithmetic_defs fun_eq_iff Let_def)

lemma slot_arithmetic_total_count [simp]:
  "get_bucket_index (h\<lparr>total_count := x\<rparr>) = get_bucket_index h"
  "counts_index (h\<lparr>total_count := x\<rparr>) = counts_index h"
  "counts_index_for (h\<lparr>total_count := x\<rparr>) = counts_index_for h"
  "hdr_value_at_index (h\<lparr>total_count := x\<rparr>) = hdr_value_at_index h"
  "hdr_size_of_equivalent_value_range (h\<lparr>total_count := x\<rparr>) = hdr_size_of_equivalent_value_range h"
  "size_of_equivalent_value_range_given_bucket_indices (h\<lparr>total_count := x\<rparr>) = size_of_equivalent_value_range_given_bucket_indices h"
  "lowest_equivalent_value (h\<lparr>total_count := x\<rparr>) = lowest_equivalent_value h"
  "lowest_equivalent_value_given_bucket_indices (h\<lparr>total_count := x\<rparr>) = lowest_equivalent_value_given_bucket_indices h"
  "hdr_next_non_equivalent_value (h\<lparr>total_count := x\<rparr>) = hdr_next_non_equivalent_value h"
  "highest_equivalent_value (h\<lparr>total_count := x\<rparr>) = highest_equivalent_value h"
  "hdr_median_equivalent_value (h\<lparr>total_count := x\<rparr>) = hdr_median_equivalent_value h"
  "half_bits (h\<lparr>total_count := x\<rparr>) = half_bits h"
  "unit_bits (h\<lparr>total_count := x\<rparr>) = unit_bits h"
  by (simp_all add: slot_arithmetic_defs fun_eq_iff Let_def)

lemma slot_arithmetic_min_value [simp]:
  "get_bucket_index (h\<lparr>min_value := x\<rparr>) = get_bucket_index h"
  "counts_index (h\<lparr>min_value := x\<rparr>) = counts_index h"
  "counts_index_for (h\<lparr>min_value := x\<rparr>) = counts_index_for h"
  "hdr_value_at_index (h\<lparr>min_value := x\<rparr>) = hdr_value_at_index h"
  "hdr_size_of_equivalent_value_range (h\<lparr>min_value := x\<rparr>) = hdr_size_of_equivalent_value_range h"
  "size_of_equivalent_value_range_given_bucket_indices (h\<lparr>min_value := x\<rparr>) = size_of_equivalent_value_range_given_bucket_indices h"
  "lowest_equivalent_value (h\<lparr>min_value := x\<rparr>) = lowest_equivalent_value h"
  "lowest_equivalent_value_given_bucket_indices (h\<lparr>min_value := x\<rparr>) = lowest_equivalent_value_given_bucket_indices h"
  "hdr_next_non_equivalent_value (h\<lparr>min_value := x\<rparr>) = hdr_next_non_equivalent_value h"
  "highest_equivalent_value (h\<lparr>min_value := x\<rparr>) = highest_equivalent_value h"
  "hdr_median_equivalent_value (h\<lparr>min_value := x\<rparr>) = hdr_median_equivalent_value h"
  "half_bits (h\<lparr>min_value := x\<rparr>) = half_bits h"
  "unit_bits (h\<lparr>min_value := x\<rparr>) = unit_bits h"
  by (simp_all add: slot_arithmetic_defs fun_eq_iff Let_def)

lemma slot_arithmetic_max_value [simp]:
  "get_bucket_index (h\<lparr>max_value := x\<rparr>) = get_bucket_index h"
  "counts_index (h\<lparr>max_value := x\<rparr>) = counts_index h"
  "counts_index_for (h\<lparr>max_value := x\<rparr>) = counts_index_for h"
  "hdr_value_at_index (h\<lparr>max_value := x\<rparr>) = hdr_value_at_index h"
  "hdr_size_of_equivalent_value_range (h\<lparr>max_value := x\<rparr>) = hdr_size_of_equivalent_value_range h"
  "size_of_equivalent_value_range_given_bucket_indices (h\<lparr>max_value := x\<rparr>) = size_of_equivalent_value_range_given_bucket_indices h"
  "lowest_equivalent_value (h\<lparr>max_value := x\<rparr>) = lowest_equivalent_value h"
  "lowest_equivalent_value_given_bucket_indices (h\<lparr>max_value := x\<rparr>) = lowest_equivalent_value_given_bucket_indices h"
  "hdr_next_non_equivalent_value (h\<lparr>max_value := x\<rparr>) = hdr_next_non_equivalent_value h"
  "highest_equivalent_value (h\<lparr>max_value := x\<rparr>) = highest_equivalent_value h"
  "hdr_median_equivalent_value (h\<lparr>max_value := x\<rparr>) = hdr_median_equivalent_value h"
  "half_bits (h\<lparr>max_value := x\<rparr>) = half_bits h"
  "unit_bits (h\<lparr>max_value := x\<rparr>) = unit_bits h"
  by (simp_all add: slot_arithmetic_defs fun_eq_iff Let_def)

lemma slot_arithmetic_normalizing_index_offset [simp]:
  "get_bucket_index (h\<lparr>normalizing_index_offset := x\<rparr>) = get_bucket_index h"
  "counts_index (h\<lparr>normalizing_index_offset := x\<rparr>) = counts_index h"
  "counts_index_for (h\<lparr>normalizing_index_offset := x\<rparr>) = counts_index_for h"
  "hdr_value_at_index (h\<lparr>normalizing_index_offset := x\<rparr>) = hdr_value_at_index h"
  "hdr_size_of_equivalent_value_range (h\<lparr>normalizing_index_offset := x\<rparr>) = hdr_size_of_equivalent_value_range h"
  "size_of_equivalent_value_range_given_bucket_indices (h\<lparr>normalizing_index_offset := x\<rparr>) = size_of_equivalent_value_range_given_bucket_indices h"
  "lowest_equivalent_value (h\<lparr>normalizing_index_offset := x\<rparr>) = lowest_equivalent_value h"
  "lowest_equivalent_value_given_bucket_indices (h\<lparr>normalizing_index_offset := x\<rparr>) = lowest_equivalent_value_given_bucket_indices h"
  "hdr_next_non_equivalent_value (h\<lparr>normalizing_index_offset := x\<rparr>) = hdr_next_non_equivalent_value h"
  "highest_equivalent_value (h\<lparr>normalizing_index_offset := x\<rparr>) = highest_equivalent_value h"
  "hdr_median_equivalent_value (h\<lparr>normalizing_index_offset := x\<rparr>) = hdr_median_equivalent_value h"
  "half_bits (h\<lparr>normalizing_index_offset := x\<rparr>) = half_bits h"
  "unit_bits (h\<lparr>normalizing_index_offset := x\<rparr>) = unit_bits h"
  by (simp_all add: slot_arithmetic_defs fun_eq_iff Let_def)

lemma slot_arithmetic_conversion_ratio [simp]:
  "get_bucket_index (h\<lparr>conversion_ratio := x\<rparr>) = get_bucket_index h"
  "counts_index (h\<lparr>conversion_ratio := x\<rparr>) = counts_index h"
  "counts_index_for (h\<lparr>conversion_ratio := x\<rparr>) = counts_index_for h"
  "hdr_value_at_index (h\<lparr>conversion_ratio := x\<rparr>) = hdr_value_at_index h"
  "hdr_size_of_equivalent_value_range (h\<lparr>conversion_ratio := x\<rparr>) = hdr_size_of_equivalent_value_range h"
  "size_of_equivalent_value_range_given_bucket_indices (h\<lparr>conversion_ratio := x\<rparr>) = size_of_equivalent_value_range_given_bucket_indices h"
  "lowest_equivalent_value (h\<lparr>conversion_ratio := x\<rparr>) = lowest_equivalent_value h"
  "lowest_equivalent_value_given_bucket_indices (h\<lparr>conversion_ratio := x\<rparr>) = lowest_equivalent_value_given_bucket_indices h"
  "hdr_next_non_equivalent_value (h\<lparr>conversion_ratio := x\<rparr>) = hdr_next_non_equivalent_value h"
  "highest_equivalent_value (h\<lparr>conversion_ratio := x\<rparr>) = highest_equivalent_value h"
  "hdr_median_equivalent_value (h\<lparr>conversion_ratio := x\<rparr>) = hdr_median_equivalent_value h"
  "half_bits (h\<lparr>conversion_ratio := x\<rparr>) = half_bits h"
  "unit_bits (h\<lparr>conversion_ratio := x\<rparr>) = unit_bits h"
  by (simp_all add: slot_arithmetic_defs fun_eq_iff Let_def)

lemma normalize_index_frame [simp]:
  "normalize_index (h\<lparr>counts := cs\<rparr>) = normalize_index h"
  "normalize_index (h\<lparr>total_count := x\<rparr>) = normalize_index h"
  "normalize_index (h\<lparr>min_value := x\<rparr>) = normalize_index h"
  "normalize_index (h\<lparr>max_value := x\<rparr>) = normalize_index h"
  by (simp_all add: normalize_index_def fun_eq_iff Let_def)

lemma counts_get_frame [simp]:
  "counts_get_normalised (h\<lparr>total_count := x\<rparr>) = counts_get_normalised h"
  "counts_get_normalised (h\<lparr>min_value := x\<rparr>) = counts_get_normalised h"
  "counts_get_normalised (h\<lparr>max_value := x\<rparr>) = counts_get_normalised h"
  by (simp_all add: counts_get_normalised_def counts_get_direct_def fun_eq_iff)

lemma hdr_config_wf_frame [simp]:
  "hdr_config_wf (h\<lparr>total_count := x\<rparr>) = hdr_config_wf h"
  "hdr_config_wf (h\<lparr>min_value := x\<rparr>) = hdr_config_wf h"
  "hdr_config_wf (h\<lparr>max_value := x\<rparr>) = hdr_config_wf h"
  "hdr_config_wf (h\<lparr>normalizing_index_offset := x\<rparr>) = hdr_config_wf h"
  "hdr_config_wf (h\<lparr>conversion_ratio := r\<rparr>) = hdr_config_wf h"
  by (simp_all add: hdr_config_wf_def)

lemma hdr_config_wf_counts [simp]:
  "length cs = length (counts h) \<Longrightarrow> hdr_config_wf (h\<lparr>counts := cs\<rparr>) = hdr_config_wf h"
  by (simp add: hdr_config_wf_def)

section \<open>Closed forms\<close>

lemma bitlen_le_63: "v < value_limit \<Longrightarrow> bitlen v \<le> 63"
  by (simp add: bitlen_le_iff_power)

lemma get_bucket_index_eq:
  assumes wf: "hdr_config_wf h" and v: "0 \<le> v" "v < value_limit"
  shows "get_bucket_index h v = int (bucket_of h v)"
proof -
  note wfs = hdr_config_wfD [OF wf]
  have mask: "bitlen (sub_bucket_mask h) = int (Suc (half_bits h) + unit_bits h)"
    using bitlen_mask [of "Suc (half_bits h)" "unit_bits h"] by (simp add: wfs(7))
  have mask_nonneg: "0 \<le> sub_bucket_mask h"
    by (simp add: wfs(7))
  have len: "bitlen (v OR sub_bucket_mask h) = max (bitlen v) (int (Suc (half_bits h) + unit_bits h))"
    using bitlen_or [OF v(1) mask_nonneg] mask by simp
  then have "bitlen (v OR sub_bucket_mask h) \<le> 64"
    using bitlen_le_63 [OF v(2)] wfs(4) by simp
  then have less: "v OR sub_bucket_mask h < 2 ^ 64"
    by (simp add: bitlen_le_iff_power)
  have "0 \<le> v OR sub_bucket_mask h"
    using v(1) mask_nonneg by simp
  then have "take_bit 64 (v OR sub_bucket_mask h) = v OR sub_bucket_mask h"
    using less by (rule take_bit_int_eq_self)
  then show ?thesis
    using len
    by (simp add: get_bucket_index_def count_leading_zeros_64_def bucket_of_def Let_def wfs(1,2))
qed

lemma bucket_of_upper: "v < 2 ^ (Suc (half_bits h) + width_of h v)"
proof -
  have "bitlen v \<le> int (Suc (half_bits h) + width_of h v)"
    by (simp add: bucket_of_def)
  then show ?thesis
    by (simp add: bitlen_le_iff_power nat_add_distrib)
qed

lemma bucket_of_lower:
  assumes "0 < bucket_of h v"
  shows "2 ^ (half_bits h + width_of h v) \<le> v"
proof -
  have "int (Suc (half_bits h + width_of h v)) \<le> bitlen v"
    using assms by (simp add: bucket_of_def)
  then show ?thesis
    by (simp only: bitlen_ge_iff_power nat_int) simp
qed

lemma width_of_bound:
  assumes "hdr_config_wf h" "v < value_limit"
  shows "half_bits h + width_of h v \<le> 62"
  using hdr_config_wfD(4) [OF assms(1)] bitlen_le_63 [OF assms(2)]
  by (simp add: bucket_of_def)

lemma div_width_less: "v div 2 ^ width_of h v < 2 ^ Suc (half_bits h)"
  using bucket_of_upper [of v h]
  by (simp add: int_div_less_iff power_add mult_ac)


lemma div_width_ge: "0 < bucket_of h v \<Longrightarrow> 2 ^ half_bits h \<le> v div 2 ^ width_of h v"
  using bucket_of_lower [of h v]
  by (simp add: int_le_div_iff power_add mult_ac)

lemma half_power_bound: "hdr_config_wf h \<Longrightarrow> (2::int) ^ half_bits h \<le> 131072"
  using power_increasing [OF hdr_config_wfD(3), of h "2 :: int"] by simp

lemma get_sub_bucket_index_eq:
  assumes wf: "hdr_config_wf h" and v: "0 \<le> v" "v < value_limit"
  shows "get_sub_bucket_index v (int (bucket_of h v)) (int (unit_bits h)) = v div 2 ^ width_of h v"
proof -
  have "v div 2 ^ width_of h v < 2 * 131072"
    using div_width_less [of v h] half_power_bound [OF wf] by simp
  moreover have "0 \<le> v div 2 ^ width_of h v"
    using v by (simp add: pos_imp_zdiv_nonneg_iff)
  ultimately show ?thesis
    by (simp add: get_sub_bucket_index_def nat_add_distrib drop_bit_eq_div i32_nonneg_id)
qed

lemma counts_index_for_eq:
  assumes wf: "hdr_config_wf h" and v: "0 \<le> v" "v < value_limit"
  shows "counts_index_for h v = int (bucket_of h v) * 2 ^ half_bits h + v div 2 ^ width_of h v"
proof -
  let ?H = "(2::int) ^ half_bits h"
  have b: "int (bucket_of h v) \<le> 62"
    using width_of_bound [OF wf v(2)] by simp
  have H: "1 \<le> ?H" "?H \<le> 131072"
    using half_power_bound [OF wf] by simp_all
  have base: "0 \<le> (int (bucket_of h v) + 1) * ?H" "(int (bucket_of h v) + 1) * ?H \<le> 63 * 131072"
    using b H mult_mono [of "int (bucket_of h v) + 1" 63 ?H 131072] by simp_all
  have s: "0 \<le> v div 2 ^ width_of h v" "v div 2 ^ width_of h v < 2 * 131072"
    using div_width_less [of v h] H v by (simp_all add: pos_imp_zdiv_nonneg_iff)
  have "i32 (push_bit (half_bits h) (int (bucket_of h v) + 1)) = (int (bucket_of h v) + 1) * ?H"
    using base by (simp add: push_bit_eq_mult i32_nonneg_id)
  moreover have "i32 (int (bucket_of h v) * ?H + v div 2 ^ width_of h v)
      = int (bucket_of h v) * ?H + v div 2 ^ width_of h v"
  proof (rule i32_nonneg_id)
    show "0 \<le> int (bucket_of h v) * ?H + v div 2 ^ width_of h v"
      using s by simp
    have "int (bucket_of h v) * ?H \<le> 63 * 131072"
      using base(2) H(1) unfolding distrib_right by linarith
    then show "int (bucket_of h v) * ?H + v div 2 ^ width_of h v \<le> INT32_MAX"
      using s by simp
  qed
  ultimately show ?thesis
    by (simp add: counts_index_for_def counts_index_def get_sub_bucket_index_eq [OF assms]
        get_bucket_index_eq [OF assms] hdr_config_wfD [OF wf] Let_def distrib_right)
qed

lemma lowest_equivalent_value_eq:
  assumes wf: "hdr_config_wf h" and v: "0 \<le> v" "v < value_limit"
  shows "lowest_equivalent_value h v = v div 2 ^ width_of h v * 2 ^ width_of h v"
proof -
  let ?w = "(2::int) ^ width_of h v"
  have "0 \<le> v div ?w * ?w"
    using v by (simp add: pos_imp_zdiv_nonneg_iff)
  moreover have "v div ?w * ?w \<le> v"
    using int_le_div_iff [of ?w "v div ?w" v] by simp
  ultimately show ?thesis
    using v
    by (simp add: lowest_equivalent_value_def value_from_index_def get_bucket_index_eq [OF assms]
        get_sub_bucket_index_eq [OF assms] hdr_config_wfD [OF wf] Let_def nat_add_distrib
        push_bit_eq_mult i64_nonneg_id)
qed

lemma hdr_size_of_equivalent_value_range_eq:
  assumes wf: "hdr_config_wf h" and v: "0 \<le> v" "v < value_limit"
  shows "hdr_size_of_equivalent_value_range h v = 2 ^ width_of h v"
proof -
  have "width_of h v \<le> 62"
    using width_of_bound [OF wf v(2)] by simp
  then have "(2::int) ^ width_of h v \<le> 2 ^ 62"
    by (rule power_increasing) simp
  moreover have "\<not> sub_bucket_count h \<le> v div 2 ^ width_of h v"
    using div_width_less [of v h] by (simp add: hdr_config_wfD [OF wf])
  ultimately show ?thesis
    by (simp add: hdr_size_of_equivalent_value_range_def get_bucket_index_eq [OF assms]
        get_sub_bucket_index_eq [OF assms] hdr_config_wfD(1) [OF wf] Let_def nat_add_distrib
        push_bit_eq_mult i64_nonneg_id add.commute [of "unit_bits h"])
qed

lemmas equivalence_range_eqs =
  counts_index_for_eq lowest_equivalent_value_eq hdr_size_of_equivalent_value_range_eq

section \<open>Slots\<close>

lemma bucket_of_mono: "v \<le> w \<Longrightarrow> bucket_of h v \<le> bucket_of h w"
proof -
  assume "v \<le> w"
  then have "bitlen v \<le> bitlen w"
    using bitlen_le_iff_power [of v "bitlen w"] bitlen_le_iff_power [of w "bitlen w"]
      bitlen_nonneg [of w] by simp
  then show ?thesis
    by (simp add: bucket_of_def)
qed

lemma counts_index_for_mono:
  assumes wf: "hdr_config_wf h" and "0 \<le> v" "v \<le> w" "w < value_limit"
  shows "counts_index_for h v \<le> counts_index_for h w"
proof (cases "bucket_of h v = bucket_of h w")
  case True
  have "v div 2 ^ width_of h w \<le> w div 2 ^ width_of h w"
    using assms by (intro zdiv_mono1) auto
  with True assms show ?thesis
    by (simp add: counts_index_for_eq)
next
  case False
  let ?H = "(2::int) ^ half_bits h"
  have less: "bucket_of h v < bucket_of h w"
    using bucket_of_mono [OF assms(3), of h] False by simp
  then have "(int (bucket_of h v) + 1) * ?H \<le> int (bucket_of h w) * ?H"
    by (intro mult_right_mono) auto
  moreover have "v div 2 ^ width_of h v < 2 * ?H" "?H \<le> w div 2 ^ width_of h w"
    using div_width_less [of v h] div_width_ge [of h w] less by simp_all
  ultimately show ?thesis
    using assms by (simp add: counts_index_for_eq algebra_simps)
qed


text \<open>The least value of slot \<open>i\<close>: the first two half-buckets share the width of one unit.\<close>

lemma hdr_value_at_index_low:
  assumes wf: "hdr_config_wf h" and i: "0 \<le> i" "i < 2 * 2 ^ half_bits h"
  shows "hdr_value_at_index h i = i * 2 ^ unit_bits h"
proof -
  let ?H = "(2::int) ^ half_bits h"
  have "i * 2 ^ unit_bits h \<le> (2 * ?H) * 2 ^ unit_bits h"
    using i by (intro mult_right_mono) auto
  also have "\<dots> = 2 ^ (Suc (half_bits h) + unit_bits h)"
    by (simp add: power_add)
  also have "\<dots> \<le> 2 ^ 62"
    using hdr_config_wfD(4) [OF wf] by (intro power_increasing) auto
  finally have bound: "i * 2 ^ unit_bits h \<le> 2 ^ 62" .
  have mask: "i AND (?H - 1) = i mod ?H"
    by (simp add: mask_eq_exp_minus_1 [symmetric] take_bit_eq_mask [symmetric] take_bit_eq_mod)
  show ?thesis
  proof (cases "i < ?H")
    case True
    then show ?thesis
      using bound i mask
      by (simp add: hdr_value_at_index_def value_from_index_def hdr_config_wfD [OF wf] Let_def
          drop_bit_eq_div push_bit_eq_mult i64_nonneg_id)
  next
    case False
    have q: "i div ?H = 1"
      using False i by (intro int_div_pos_eq [where r = "i - ?H"]) auto
    then have "i mod ?H + ?H = i"
      using div_mult_mod_eq [of i ?H] by simp
    with q show ?thesis
      using bound i mask
      by (simp add: hdr_value_at_index_def value_from_index_def hdr_config_wfD [OF wf] Let_def
          drop_bit_eq_div push_bit_eq_mult i64_nonneg_id)
  qed
qed

text \<open>A slot of the upper buckets is given by its bucket \<open>k\<close> and its offset \<open>r\<close> in the half bucket.\<close>

lemma hdr_value_at_index_high:
  assumes wf: "hdr_config_wf h" and k: "int k < bucket_count h"
    and r: "0 \<le> r" "r < 2 ^ half_bits h"
  defines "i \<equiv> (int k + 1) * 2 ^ half_bits h + r"
  shows "hdr_value_at_index h i = (2 ^ half_bits h + r) * 2 ^ (k + unit_bits h)"
    and "(2 ^ half_bits h + r) * 2 ^ (k + unit_bits h) < 2 ^ (half_bits h + unit_bits h + Suc k)"
    and "half_bits h + unit_bits h + Suc k \<le> 63"
proof -
  let ?H = "(2::int) ^ half_bits h" and ?W = "(2::int) ^ (k + unit_bits h)"
  show k63: "half_bits h + unit_bits h + Suc k \<le> 63"
    using hdr_config_wfD(9) [OF wf] k by linarith
  have "(?H + r) * ?W < (2 * ?H) * ?W"
    using r by (intro mult_strict_right_mono) auto
  then show less: "(?H + r) * ?W < 2 ^ (half_bits h + unit_bits h + Suc k)"
    by (simp add: power_add mult_ac)
  have "(2::int) ^ (half_bits h + unit_bits h + Suc k) \<le> 2 ^ 63"
    using k63 by (intro power_increasing) auto
  with less have le: "(?H + r) * ?W \<le> INT64_MAX"
    by simp
  have q: "i div ?H = int k + 1" "i mod ?H = r"
    using r by (simp_all add: i_def)
  have "i AND (?H - 1) = r"
    using q(2)
    by (simp add: mask_eq_exp_minus_1 [symmetric] take_bit_eq_mask [symmetric] take_bit_eq_mod)
  then show "hdr_value_at_index h i = (?H + r) * ?W"
    using q(1) le r
    by (simp add: hdr_value_at_index_def value_from_index_def hdr_config_wfD [OF wf] Let_def
        drop_bit_eq_div push_bit_eq_mult i64_nonneg_id nat_add_distrib add.commute)
qed

lemma slot_cases:
  assumes wf: "hdr_config_wf h" and i: "0 \<le> i" "i < counts_len h"
  obtains (low) "i < 2 * 2 ^ half_bits h"
    | (high) k r where "0 < k" "int k < bucket_count h" "0 \<le> r" "r < 2 ^ half_bits h"
        "i = (int k + 1) * 2 ^ half_bits h + r"
proof (cases "i < 2 * 2 ^ half_bits h")
  case False
  let ?H = "(2::int) ^ half_bits h"
  have ge: "2 \<le> i div ?H"
    using False by (simp add: int_le_div_iff)
  have "i div ?H < bucket_count h + 1"
    using int_div_less_iff [of ?H i "bucket_count h + 1"] i hdr_config_wfD(10) [OF wf] by simp
  moreover have "i = (int (nat (i div ?H - 1)) + 1) * ?H + i mod ?H"
    using ge div_mult_mod_eq [of i ?H] by simp
  ultimately show thesis
    using ge by (intro high [of "nat (i div ?H - 1)" "i mod ?H"]) auto
qed (rule low)


lemma bucket_of_zero: "v < 2 ^ (Suc (half_bits h) + unit_bits h) \<Longrightarrow> bucket_of h v = 0"
  using bitlen_le_iff_power [of v "int (Suc (half_bits h) + unit_bits h)"]
  by (simp add: bucket_of_def nat_add_distrib)

lemma bucket_of_unique:
  assumes "2 ^ (half_bits h + unit_bits h + k) \<le> v" "v < 2 ^ (half_bits h + unit_bits h + Suc k)"
  shows "bucket_of h v = k"
proof -
  let ?e = "half_bits h + unit_bits h + Suc k"
  have "bitlen v \<le> int ?e"
    using assms(2) by (simp only: bitlen_le_iff_power nat_int) simp
  moreover have "int ?e \<le> bitlen v"
    using assms(1) by (simp only: bitlen_ge_iff_power nat_int) simp
  ultimately show ?thesis
    by (simp add: bucket_of_def)
qed

lemma hdr_value_at_index_range:
  assumes "hdr_config_wf h" "0 \<le> i" "i < counts_len h"
  shows "0 \<le> hdr_value_at_index h i \<and> hdr_value_at_index h i < value_limit"
  using assms
proof (cases rule: slot_cases)
  case low
  have "i * 2 ^ unit_bits h \<le> (2 * 2 ^ half_bits h) * 2 ^ unit_bits h"
    using low by (intro mult_right_mono) auto
  also have "\<dots> = 2 ^ (Suc (half_bits h) + unit_bits h)"
    by (simp add: power_add)
  also have "\<dots> \<le> 2 ^ 62"
    using hdr_config_wfD(4) [OF assms(1)] by (intro power_increasing) auto
  finally show ?thesis
    using low assms by (simp add: hdr_value_at_index_low)
next
  case (high k r)
  have "(2::int) ^ (half_bits h + unit_bits h + Suc k) \<le> 2 ^ 63"
    using hdr_value_at_index_high(3) [OF assms(1) high(2-4)] by (intro power_increasing) auto
  then show ?thesis
    using hdr_value_at_index_high(1,2) [OF assms(1) high(2-4)] high(3,5) by simp
qed

lemma counts_index_for_value_at_index:
  assumes "hdr_config_wf h" "0 \<le> i" "i < counts_len h"
  shows "counts_index_for h (hdr_value_at_index h i) = i"
proof -
  let ?v = "hdr_value_at_index h i"
  have eq: "counts_index_for h ?v = int (bucket_of h ?v) * 2 ^ half_bits h + ?v div 2 ^ width_of h ?v"
    using hdr_value_at_index_range [OF assms] assms(1) by (simp add: counts_index_for_eq)
  from assms show ?thesis
  proof (cases rule: slot_cases)
    case low
    then have v: "?v = i * 2 ^ unit_bits h"
      using assms by (simp add: hdr_value_at_index_low)
    have "i * 2 ^ unit_bits h < (2 * 2 ^ half_bits h) * 2 ^ unit_bits h"
      using low by (intro mult_strict_right_mono) auto
    then have "bucket_of h ?v = 0"
      by (intro bucket_of_zero) (simp add: v power_add)
    with eq show ?thesis by (simp add: v)
  next
    case (high k r)
    let ?H = "(2::int) ^ half_bits h" and ?W = "(2::int) ^ (k + unit_bits h)"
    note val = hdr_value_at_index_high [OF assms(1) high(2-4), folded high(5)]
    have "?H * ?W \<le> (?H + r) * ?W"
      using high(3) by (intro mult_right_mono) auto
    then have "bucket_of h ?v = k"
      using val(1,2) by (intro bucket_of_unique) (simp_all add: power_add mult_ac)
    with eq val(1) show ?thesis
      by (simp add: high(5) distrib_right)
  qed
qed

lemma value_at_counts_index_for:
  assumes "hdr_config_wf h" "0 \<le> v" "v < value_limit" "counts_index_for h v < counts_len h"
  shows "hdr_value_at_index h (counts_index_for h v) = lowest_equivalent_value h v"
proof (cases "bucket_of h v = 0")
  case True
  have "0 \<le> v div 2 ^ unit_bits h"
    using assms by (simp add: pos_imp_zdiv_nonneg_iff)
  then show ?thesis
    using True div_width_less [of v h] assms
    by (simp add: counts_index_for_eq lowest_equivalent_value_eq hdr_value_at_index_low)
next
  case False
  let ?H = "(2::int) ^ half_bits h"
  define k r where "k = bucket_of h v" and "r = v div 2 ^ width_of h v - ?H"
  have r: "0 \<le> r" "r < ?H"
    using div_width_ge [of h v] div_width_less [of v h] False by (simp_all add: r_def)
  have idx: "counts_index_for h v = (int k + 1) * ?H + r"
    using assms by (simp add: counts_index_for_eq k_def r_def distrib_right)
  have "int k < bucket_count h"
  proof (rule ccontr)
    assume "\<not> int k < bucket_count h"
    then have "(bucket_count h + 1) * ?H \<le> (int k + 1) * ?H"
      by (intro mult_right_mono) auto
    with assms(4) idx r(1) show False
      by (simp add: hdr_config_wfD(10) [OF assms(1)])
  qed
  then show ?thesis
    using hdr_value_at_index_high(1) [OF assms(1) _ r, of k] idx assms
    by (simp add: lowest_equivalent_value_eq r_def k_def)
qed

text \<open>The slot arithmetic of the histograms meets the contract.\<close>

interpretation hdr: slot_map hdr_config_wf counts_index_for hdr_value_at_index counts_len value_limit
proof
  fix h and v :: int
  assume wf: "hdr_config_wf h" and v: "0 \<le> v" "v < value_limit"
  then show "0 \<le> counts_index_for h v"
    by (simp add: counts_index_for_eq pos_imp_zdiv_nonneg_iff)
  assume "counts_index_for h v < counts_len h"
  then show "hdr_value_at_index h (counts_index_for h v) \<le> v"
    using wf v int_le_div_iff [of "2 ^ width_of h v" "v div 2 ^ width_of h v" v]
    by (simp add: value_at_counts_index_for lowest_equivalent_value_eq)
qed (simp_all add: counts_index_for_mono hdr_value_at_index_range counts_index_for_value_at_index)

section \<open>Ranges of equivalent values\<close>

lemma lowest_equivalent_value_bounds:
  assumes "hdr_config_wf h" "0 \<le> v" "v < value_limit"
  shows "0 \<le> lowest_equivalent_value h v" "lowest_equivalent_value h v \<le> v"
    and "v < lowest_equivalent_value h v + hdr_size_of_equivalent_value_range h v"
    and "lowest_equivalent_value h v + hdr_size_of_equivalent_value_range h v \<le> value_limit"
proof -
  let ?w = "(2::int) ^ width_of h v"
  show "0 \<le> lowest_equivalent_value h v"
    using assms by (simp add: lowest_equivalent_value_eq pos_imp_zdiv_nonneg_iff)
  show "lowest_equivalent_value h v \<le> v"
    using assms int_le_div_iff [of ?w "v div ?w" v] by (simp add: lowest_equivalent_value_eq)
  show "v < lowest_equivalent_value h v + hdr_size_of_equivalent_value_range h v"
    using assms int_div_less_iff [of ?w v "v div ?w + 1"]
    by (simp add: lowest_equivalent_value_eq hdr_size_of_equivalent_value_range_eq distrib_right)
  have "(v div ?w + 1) * ?w \<le> 2 ^ Suc (half_bits h) * ?w"
    using div_width_less [of v h] by (intro mult_right_mono) auto
  also have "\<dots> = 2 ^ (Suc (half_bits h) + width_of h v)"
    by (simp add: power_add)
  also have "\<dots> \<le> 2 ^ 63"
    using width_of_bound [OF assms(1,3)] by (intro power_increasing) auto
  finally show "lowest_equivalent_value h v + hdr_size_of_equivalent_value_range h v \<le> value_limit"
    using assms
    by (simp add: lowest_equivalent_value_eq hdr_size_of_equivalent_value_range_eq distrib_right)
qed

lemma highest_equivalent_value_eq:
  assumes "hdr_config_wf h" "0 \<le> v" "v < value_limit"
  shows "highest_equivalent_value h v
           = lowest_equivalent_value h v + hdr_size_of_equivalent_value_range h v - 1"
proof -
  define e where "e = lowest_equivalent_value h v + hdr_size_of_equivalent_value_range h v - 1"
  have "0 \<le> e" "e \<le> INT64_MAX"
    using lowest_equivalent_value_bounds [OF assms] assms by (simp_all add: e_def)
  then have "i64 (i64 (e + 1) - 1) = e"
    by (simp add: i64_sub_add_wrap i64_nonneg_id)
  then show ?thesis
    by (simp add: highest_equivalent_value_def hdr_next_non_equivalent_value_def e_def)
qed

lemma highest_equivalent_value_ge:
  assumes "hdr_config_wf h" "0 \<le> v" "v < value_limit"
  shows "v \<le> highest_equivalent_value h v" "highest_equivalent_value h v < value_limit"
  using lowest_equivalent_value_bounds [OF assms] highest_equivalent_value_eq [OF assms]
  by simp_all

lemma same_range_bucket:
  assumes "v div 2 ^ width_of h v = w div 2 ^ width_of h v" "0 \<le> w"
  shows "bucket_of h w = bucket_of h v"
proof -
  let ?e = "width_of h v"
  have up: "w < 2 ^ (Suc (half_bits h) + ?e)"
    using div_width_less [of v h] int_div_less_iff [of "2 ^ ?e" w "2 ^ Suc (half_bits h)"] assms
    by (simp add: power_add)
  show ?thesis
  proof (cases "bucket_of h v = 0")
    case True
    with up show ?thesis by (simp add: bucket_of_zero)
  next
    case False
    then have "2 ^ (half_bits h + ?e) \<le> w"
      using div_width_ge [of h v] int_le_div_iff [of "2 ^ ?e" "2 ^ half_bits h" w] assms
      by (simp add: power_add)
    with up show ?thesis
      by (intro bucket_of_unique) (simp_all add: ac_simps)
  qed
qed

text \<open>The range of values equivalent to \<open>v\<close> is the set of values with the lowest equivalent value of \<open>v\<close>.\<close>

lemma equivalent_range_iff:
  assumes wf: "hdr_config_wf h" and v: "0 \<le> v" "v < value_limit" and w: "0 \<le> w" "w < value_limit"
  shows "lowest_equivalent_value h v \<le> w \<and> w \<le> highest_equivalent_value h v
           \<longleftrightarrow> lowest_equivalent_value h w = lowest_equivalent_value h v"
proof
  let ?e = "(2::int) ^ width_of h v"
  assume "lowest_equivalent_value h v \<le> w \<and> w \<le> highest_equivalent_value h v"
  then have "v div ?e * ?e \<le> w" "w < (v div ?e + 1) * ?e"
    using wf v by (simp_all add: highest_equivalent_value_eq lowest_equivalent_value_eq
        hdr_size_of_equivalent_value_range_eq distrib_right)
  then have q: "v div ?e = w div ?e"
    using int_le_div_iff [of ?e "v div ?e" w] int_div_less_iff [of ?e w "v div ?e + 1"] by simp
  then have "bucket_of h w = bucket_of h v"
    using w by (intro same_range_bucket) simp_all
  with q show "lowest_equivalent_value h w = lowest_equivalent_value h v"
    using wf v w by (simp add: lowest_equivalent_value_eq)
next
  assume eq: "lowest_equivalent_value h w = lowest_equivalent_value h v"
  show "lowest_equivalent_value h v \<le> w \<and> w \<le> highest_equivalent_value h v"
  proof (cases "v \<le> w")
    case True
    then have "width_of h v \<le> width_of h w" by (simp add: bucket_of_mono)
    show ?thesis
    proof (cases "bucket_of h v = bucket_of h w")
      case True
      with eq show ?thesis
        using lowest_equivalent_value_bounds [OF wf w] highest_equivalent_value_eq [OF wf v]
          hdr_size_of_equivalent_value_range_eq [OF wf v] hdr_size_of_equivalent_value_range_eq [OF wf w]
        by simp
    next
      case False
      have bw: "0 < bucket_of h w" "bucket_of h v < bucket_of h w"
        using False bucket_of_mono [OF \<open>v \<le> w\<close>, of h] by simp_all
      have "2 ^ half_bits h * 2 ^ width_of h w \<le> lowest_equivalent_value h w"
        using div_width_ge [OF bw(1)] wf w
        by (simp add: lowest_equivalent_value_eq mult_right_mono)
      moreover have "v < 2 ^ (Suc (half_bits h) + width_of h v)"
        by (rule bucket_of_upper)
      moreover have "(2::int) ^ (Suc (half_bits h) + width_of h v) \<le> 2 ^ (half_bits h + width_of h w)"
        using bw(2) by (intro power_increasing) auto
      ultimately have False
        using eq lowest_equivalent_value_bounds(2) [OF wf v]
        unfolding power_add [of 2 "half_bits h" "width_of h w"] by linarith
      then show ?thesis ..
    qed
  next
    case False
    then show ?thesis
      using lowest_equivalent_value_bounds(2) [OF wf w] highest_equivalent_value_ge(1) [OF wf v] eq
      by simp
  qed
qed

lemma equivalent_range_precision:
  assumes wf: "hdr_config_wf h" and v: "0 \<le> v" "v < value_limit"
  shows "hdr_size_of_equivalent_value_range h v = 2 ^ unit_bits h
    \<or> hdr_size_of_equivalent_value_range h v * 2 ^ half_bits h \<le> v"
proof (cases "bucket_of h v = 0")
  case True
  with assms show ?thesis by (simp add: hdr_size_of_equivalent_value_range_eq)
next
  case False
  with assms show ?thesis
    using bucket_of_lower [of h v] by (simp add: hdr_size_of_equivalent_value_range_eq power_add mult_ac)
qed

lemma hdr_config_wf_precision:
  assumes "hdr_config_wf h"
  shows "10 ^ nat (significant_figures h) \<le> (2::int) ^ half_bits h"
    and "highest_trackable_value h < 2 ^ nat (int (unit_bits h + half_bits h) + bucket_count h)"
  using assms by (auto simp: hdr_config_wf_def half_bits_def unit_bits_def)

lemma counts_index_for_less_iff:
  assumes wf: "hdr_config_wf h" and v: "0 \<le> v" "v < value_limit"
  shows "counts_index_for h v < counts_len h
           \<longleftrightarrow> v < 2 ^ nat (int (unit_bits h + half_bits h) + bucket_count h)"
proof -
  let ?H = "(2::int) ^ half_bits h" and ?e = "int (unit_bits h + half_bits h) + bucket_count h"
  note wfs = hdr_config_wfD [OF wf]
  have e: "0 \<le> ?e" using wfs(8) by simp
  show ?thesis
  proof (cases "v < 2 ^ nat ?e")
    case True
    then have "bitlen v \<le> ?e"
      using e by (simp add: bitlen_le_iff_power)
    then have "int (bucket_of h v) + 2 \<le> bucket_count h + 1"
      using wfs(8) by (simp add: bucket_of_def)
    then have "(int (bucket_of h v) + 2) * ?H \<le> (bucket_count h + 1) * ?H"
      by (intro mult_right_mono) auto
    then show ?thesis
      using div_width_less [of v h] True wf v
      by (simp add: counts_index_for_eq wfs(10) algebra_simps)
  next
    case False
    then have "?e < bitlen v"
      using e bitlen_le_iff_power [of v ?e] by auto
    then have b: "bucket_count h \<le> int (bucket_of h v)"
      by (simp add: bucket_of_def)
    then have "bucket_count h * ?H \<le> int (bucket_of h v) * ?H"
      by (intro mult_right_mono) auto
    moreover have "?H \<le> v div 2 ^ width_of h v"
      using b wfs(8) by (intro div_width_ge) simp
    ultimately have "counts_len h \<le> counts_index_for h v"
      unfolding counts_index_for_eq [OF wf v] wfs(10) distrib_right by linarith
    with False show ?thesis by simp
  qed
qed

section \<open>Initialisation\<close>

lemma buckets_needed_loop_power:
  assumes "e \<le> 62" "v \<le> INT64_MAX"
  shows "\<exists>k. buckets_needed_loop (2 ^ e) v n = Some (n + int k) \<and> v < 2 ^ (e + k) \<and> e + k \<le> 63
           \<and> (0 < k \<longrightarrow> 2 ^ (e + k - 1) \<le> v)"
  using assms(1)
proof (induction "62 - e" arbitrary: e n)
  case 0
  then have e: "e = 62" by simp
  show ?case
  proof (cases "2 ^ e \<le> v")
    case True
    then show ?thesis
      using e assms(2) by (intro exI [of _ 1]) (simp add: buckets_needed_loop.simps)
  next
    case False
    then show ?thesis
      using e by (intro exI [of _ 0]) (simp add: buckets_needed_loop.simps)
  qed
next
  case (Suc d)
  show ?case
  proof (cases "2 ^ e \<le> v")
    case True
    from Suc.hyps(2) have e: "e \<le> 61" and d: "d = 62 - Suc e"
      by simp_all
    have "(2::int) ^ e \<le> 2 ^ 61"
      using e by (intro power_increasing) auto
    with True have step: "buckets_needed_loop (2 ^ e) v n = buckets_needed_loop (2 ^ Suc e) v (n + 1)"
      by (subst buckets_needed_loop.simps) (simp add: mult.commute)
    have "Suc e \<le> 62" using e by simp
    from Suc.hyps(1) [OF d this, of "n + 1"] obtain k where "buckets_needed_loop (2 ^ Suc e) v (n + 1) = Some (n + 1 + int k)"
        "v < 2 ^ (Suc e + k)" "Suc e + k \<le> 63" "0 < k \<longrightarrow> 2 ^ (Suc e + k - 1) \<le> v"
      by blast
    with step True show ?thesis
      by (intro exI [of _ "Suc k"]) (cases k; simp)
  next
    case False
    then show ?thesis
      using Suc.prems by (intro exI [of _ 0]) (subst buckets_needed_loop.simps, simp)
  qed
qed

lemma half_magnitude_values:
  "ceil_log2 (2 * hdr_power 10 1) = 5" "ceil_log2 (2 * hdr_power 10 2) = 8"
  "ceil_log2 (2 * hdr_power 10 3) = 11" "ceil_log2 (2 * hdr_power 10 4) = 15"
  "ceil_log2 (2 * hdr_power 10 5) = 18"
  by code_simp+


lemma ceil_log2_correct:
  assumes "1 < x"
  shows "ceil_log2 x = \<lceil>log 2 (real_of_int x)\<rceil>"
proof -
  have le_iff: "bitlen (x - 1) \<le> w \<longleftrightarrow> \<lceil>log 2 (real_of_int x)\<rceil> \<le> w" for w
  proof (cases "0 \<le> w")
    case True
    then have "\<lceil>log 2 (real_of_int x)\<rceil> \<le> w \<longleftrightarrow> real_of_int x \<le> 2 powr real_of_int w"
      using assms by (simp add: ceiling_le_iff log_le_iff)
    also have "\<dots> \<longleftrightarrow> real_of_int x \<le> real_of_int (2 ^ nat w)"
      using True by (simp add: powr_real_of_int)
    also have "\<dots> \<longleftrightarrow> x - 1 < 2 ^ nat w"
      unfolding of_int_le_iff by linarith
    finally show ?thesis
      using True by (simp add: bitlen_le_iff_power)
  next
    case False
    have "0 < log 2 (real_of_int x)"
      using assms by (simp add: zero_less_log_cancel_iff)
    then have "0 < \<lceil>log 2 (real_of_int x)\<rceil>" by simp
    then show ?thesis
      using False bitlen_nonneg [of "x - 1"] by linarith
  qed
  show ?thesis
    unfolding ceil_log2_def using le_iff by (metis order.antisym order.refl)
qed

lemma floor_log2_correct: "0 < x \<Longrightarrow> floor_log2 x = \<lfloor>log 2 (real_of_int x)\<rfloor>"
  by (simp add: floor_log2_def bitlen_alt_def)

text \<open>The magnitude of half a bucket, by the number of significant figures.\<close>

lemma half_magnitude_cases:
  assumes "1 \<le> sf" "sf \<le> 5"
  obtains m where "ceil_log2 (2 * hdr_power 10 (nat sf)) = int m + 1" "1 \<le> m" "m \<le> 17"
    "10 ^ nat sf \<le> (2::int) ^ m"
proof -
  from assms have "sf = 1 \<or> sf = 2 \<or> sf = 3 \<or> sf = 4 \<or> sf = 5" by auto
  then show thesis
    using half_magnitude_values that [of 4] that [of 7] that [of 10] that [of 14] that [of 17]
    by auto
qed

lemma config_no_overflow:
  assumes "m \<le> 17" "m + u \<le> 61" "Suc m + u + k \<le> 63"
  shows "i64 (2 ^ (Suc m + u)) = 2 ^ (Suc m + u)" "i64 ((2 ^ Suc m - 1) * 2 ^ u) = (2 ^ Suc m - 1) * 2 ^ u"
    "i32 ((int k + 2) * 2 ^ m) = (int k + 2) * 2 ^ m"
proof -
  have p: "(2::int) ^ (Suc m + u) \<le> 2 ^ 62" using assms(2) by (intro power_increasing) auto
  then show "i64 (2 ^ (Suc m + u)) = 2 ^ (Suc m + u)" by (simp add: i64_nonneg_id)
  have "(2 ^ Suc m - 1) * (2::int) ^ u \<le> 2 ^ (Suc m + u)" by (simp add: power_add left_diff_distrib)
  with p show "i64 ((2 ^ Suc m - 1) * 2 ^ u) = (2 ^ Suc m - 1) * 2 ^ u" by (intro i64_nonneg_id) auto
  have "(int k + 2) * 2 ^ m \<le> 65 * 2 ^ 17"
    using assms(3) power_increasing [OF assms(1), of "2::int"] by (intro mult_mono) auto
  then show "i32 ((int k + 2) * 2 ^ m) = (int k + 2) * 2 ^ m" by (simp add: i32_nonneg_id)
qed

lemma hdr_calculate_bucket_config_cases:
  assumes "lo \<le> INT64_MAX" "hi \<le> INT64_MAX"
  obtains (invalid) "hdr_calculate_bucket_config lo hi sf = Some (Inl EINVAL)"
  | (valid) cfg m u k where "hdr_calculate_bucket_config lo hi sf = Some (Inr cfg)"
      "1 \<le> lo" "1 \<le> sf" "sf \<le> 5" "1 \<le> m" "m \<le> 17" "m + u \<le> 61" "10 ^ nat sf \<le> (2::int) ^ m"
      "(2::int) ^ u \<le> lo" "lo < 2 ^ Suc u" "hi < 2 ^ (m + u + Suc k)" "m + u + Suc k \<le> 63"
      "cfg = \<lparr>cfg_lowest_discernible_value = lo, cfg_highest_trackable_value = hi,
              cfg_unit_magnitude = int u, cfg_significant_figures = sf,
              cfg_sub_bucket_half_count_magnitude = int m, cfg_sub_bucket_half_count = 2 ^ m,
              cfg_sub_bucket_mask = (2 ^ Suc m - 1) * 2 ^ u, cfg_sub_bucket_count = 2 * 2 ^ m,
              cfg_bucket_count = int k + 1, cfg_counts_len = (int k + 2) * 2 ^ m\<rparr>"
proof (cases "lo < 1 \<or> sf < 1 \<or> 5 < sf \<or> i64 (lo * 2) > hi")
  case True
  then show thesis
    by (intro invalid) (auto simp: hdr_calculate_bucket_config_def)
next
  case ok: False
  then have sf: "1 \<le> sf" "sf \<le> 5" by auto
  then obtain m where m: "ceil_log2 (2 * hdr_power 10 (nat sf)) = int m + 1" "1 \<le> m" "m \<le> 17"
      "10 ^ nat sf \<le> (2::int) ^ m"
    by (rule half_magnitude_cases)
  define u where "u = nat (bitlen lo - 1)"
  have len: "1 \<le> bitlen lo" "bitlen lo \<le> 63"
    using ok assms(1) bitlen_le_63 [of lo] bitlen_ge_iff_power [of 1 lo] by auto
  then have u: "floor_log2 lo = int u" "u \<le> 62" "nat (bitlen lo) = Suc u"
    by (simp_all add: floor_log2_def u_def)
  have lo: "(2::int) ^ u \<le> lo" "lo < 2 ^ Suc u"
    using bitlen_bounds [of lo] ok u by (simp_all add: u_def)
  show thesis
  proof (cases "m + u \<le> 61")
    case False
    then show thesis
      using ok m u by (intro invalid) (auto simp: hdr_calculate_bucket_config_def Let_def)
  next
    case True
    obtain k where k: "buckets_needed_loop (2 ^ (Suc m + u)) hi 1 = Some (1 + int k)"
        "hi < 2 ^ (Suc m + u + k)" "Suc m + u + k \<le> 63"
      using buckets_needed_loop_power [of "Suc m + u" hi 1] True assms(2) by auto
    show thesis
    proof (rule valid)
      show "hdr_calculate_bucket_config lo hi sf = Some (Inr
          \<lparr>cfg_lowest_discernible_value = lo, cfg_highest_trackable_value = hi,
           cfg_unit_magnitude = int u, cfg_significant_figures = sf,
           cfg_sub_bucket_half_count_magnitude = int m, cfg_sub_bucket_half_count = 2 ^ m,
           cfg_sub_bucket_mask = (2 ^ Suc m - 1) * 2 ^ u, cfg_sub_bucket_count = 2 * 2 ^ m,
           cfg_bucket_count = int k + 1, cfg_counts_len = (int k + 2) * 2 ^ m\<rparr>)"
        using ok m(1,2) u True k(1) config_no_overflow [OF m(3) True k(3)]
        by (simp add: hdr_calculate_bucket_config_def buckets_needed_to_cover_value_def Let_def
            push_bit_eq_mult power_add nat_add_distrib algebra_simps)
    qed (use ok sf m lo True k in \<open>simp_all add: algebra_simps\<close>)
  qed
qed


lemma hdr_init_cases:
  assumes "lo \<le> INT64_MAX" "hi \<le> INT64_MAX"
  obtains (error) e where "hdr_init calloc lo hi sf = Some (Inl e)"
  | (success) h where "hdr_init calloc lo hi sf = Some (Inr h)" "hdr_config_wf h"
      "counts h = replicate (nat (counts_len h)) 0" "total_count h = 0" "min_value h = INT64_MAX"
      "max_value h = 0" "normalizing_index_offset h = 0" "highest_trackable_value h = hi"
      "lowest_discernible_value h = lo" "significant_figures h = sf" "conversion_ratio h = 1"
      "2 ^ unit_bits h \<le> lo"
proof (cases rule: hdr_calculate_bucket_config_cases [OF assms, of sf])
  case 1
  then show thesis
    by (intro error) (simp add: hdr_init_def)
next
  case (2 cfg m u k)
  show thesis
  proof (cases "calloc (cfg_counts_len cfg * 8) \<and> calloc 104")
    case False
    with 2(1) show thesis
      by (intro error [of ENOMEM]) (auto simp: hdr_init_def)
  next
    case True
    let ?h = "hdr_init_preallocated
      (calloc_histogram (replicate (nat (cfg_counts_len cfg)) 0)) cfg"
    have "hi < 2 ^ nat (int u + int m + (int k + 1))"
      using 2(11) by (simp add: nat_add_distrib add.commute add.left_commute)
    then have "hdr_config_wf ?h"
      using 2(2-12) by (simp add: hdr_config_wf_def hdr_init_preallocated_def 2(13) calloc_histogram_def)
    then show thesis
      using 2(1,9) True
      by (intro success [of ?h])
        (simp_all add: hdr_init_def hdr_init_preallocated_def 2(13) calloc_histogram_def unit_bits_def)
  qed
qed

lemma hdr_init_success:
  assumes "lo \<le> INT64_MAX" "hi \<le> INT64_MAX" "hdr_init calloc lo hi sf = Some (Inr h)"
  shows "hdr_config_wf h" "counts h = replicate (nat (counts_len h)) 0" "total_count h = 0"
    "min_value h = INT64_MAX" "max_value h = 0" "normalizing_index_offset h = 0"
    "highest_trackable_value h = hi" "lowest_discernible_value h = lo" "significant_figures h = sf"
    "2 ^ unit_bits h \<le> lo"
  using assms(3) by (cases rule: hdr_init_cases [OF assms(1,2), of calloc sf]; simp)+

end
