(* ===== verification/Hdr_Record.thy ===== *)
theory Hdr_Record
  imports Hdr_Buckets
begin

text \<open>
  Recording values (the \<^verbatim>\<open>Updates\<close> section of \<^verbatim>\<open>hdr_histogram.c\<close>) and the queries that read one
  slot or the two extremes. The abstract view of a histogram is the multiset of the values recorded
  since it was last empty: \<open>hdr_abs h M\<close> says that every slot, the total and the two extremes are
  what \<open>M\<close> determines. Each operation refines an operation on multisets.
\<close>

section \<open>Updates\<close>

definition hdr_record_values :: "hdr_histogram \<Rightarrow> int \<Rightarrow> int \<Rightarrow> (bool \<times> hdr_histogram) option" where
  "hdr_record_values h value cnt =
     (if value < 0 then Some (False, h)
      else
        let index = counts_index_for h value in
        if index < 0 \<or> counts_len h \<le> index then Some (False, h)
        else
          (case counts_inc_normalised h index cnt of
             None \<Rightarrow> None
           | Some h1 \<Rightarrow> Some (True, update_min_max h1 value)))"

definition hdr_record_value :: "hdr_histogram \<Rightarrow> int \<Rightarrow> (bool \<times> hdr_histogram) option" where
  "hdr_record_value h value = hdr_record_values h value 1"

partial_function (option) record_missing_values ::
    "hdr_histogram \<Rightarrow> int \<Rightarrow> int \<Rightarrow> int \<Rightarrow> (bool \<times> hdr_histogram) option" where
  "record_missing_values h missing_value cnt expected_interval =
     (if missing_value \<ge> expected_interval then
        do {
          (ok, h1) \<leftarrow> hdr_record_values h missing_value cnt;
          if \<not> ok then Some (False, h1)
          else record_missing_values h1 (missing_value - expected_interval) cnt expected_interval
        }
      else Some (True, h))"

declare record_missing_values.simps [code]

definition hdr_record_corrected_values ::
    "hdr_histogram \<Rightarrow> int \<Rightarrow> int \<Rightarrow> int \<Rightarrow> (bool \<times> hdr_histogram) option" where
  "hdr_record_corrected_values h value cnt expected_interval =
     (case hdr_record_values h value cnt of
        None \<Rightarrow> None
      | Some (ok, h1) \<Rightarrow>
          if \<not> ok then Some (False, h1)
          else if expected_interval \<le> 0 \<or> value \<le> expected_interval then Some (True, h1)
          else record_missing_values h1 (value - expected_interval) cnt expected_interval)"

definition hdr_record_corrected_value ::
    "hdr_histogram \<Rightarrow> int \<Rightarrow> int \<Rightarrow> (bool \<times> hdr_histogram) option" where
  "hdr_record_corrected_value h value expected_interval =
     hdr_record_corrected_values h value 1 expected_interval"

section \<open>Reading slots and extremes\<close>

definition hdr_count_at_index :: "hdr_histogram \<Rightarrow> int \<Rightarrow> int option" where
  "hdr_count_at_index h index = counts_get_normalised h index"

definition hdr_count_at_value :: "hdr_histogram \<Rightarrow> int \<Rightarrow> int option" where
  "hdr_count_at_value h value = counts_get_normalised h (counts_index_for h value)"

definition hdr_values_are_equivalent :: "hdr_histogram \<Rightarrow> int \<Rightarrow> int \<Rightarrow> bool" where
  "hdr_values_are_equivalent h a b \<longleftrightarrow> lowest_equivalent_value h a = lowest_equivalent_value h b"

definition hdr_lowest_equivalent_value :: "hdr_histogram \<Rightarrow> int \<Rightarrow> int" where
  "hdr_lowest_equivalent_value h value = lowest_equivalent_value h value"

definition hdr_max :: "hdr_histogram \<Rightarrow> int" where
  "hdr_max h = (if 0 = max_value h then 0 else highest_equivalent_value h (max_value h))"

definition hdr_min :: "hdr_histogram \<Rightarrow> int option" where
  "hdr_min h =
     (case hdr_count_at_index h 0 of
        None \<Rightarrow> None
      | Some c \<Rightarrow> Some (if 0 < c then 0 else non_zero_min h))"

section \<open>The abstract view\<close>

definition offset_ok :: "hdr_histogram \<Rightarrow> bool" where
  "offset_ok h \<longleftrightarrow> \<bar>normalizing_index_offset h\<bar> < counts_len h"

definition trackable :: "hdr_histogram \<Rightarrow> int \<Rightarrow> bool" where
  "trackable h v \<longleftrightarrow> 0 \<le> v \<and> v < value_limit \<and> counts_index_for h v < counts_len h"

definition hdr_abs :: "hdr_histogram \<Rightarrow> int multiset \<Rightarrow> bool" where
  "hdr_abs h M \<longleftrightarrow>
     hdr_config_wf h \<and> offset_ok h \<and> (\<forall>v \<in># M. trackable h v) \<and>
     (\<forall>i. 0 \<le> i \<and> i < counts_len h \<longrightarrow>
        counts_get_normalised h i = Some (int (size {#v \<in># M. counts_index_for h v = i#}))) \<and>
     total_count h = int (size M) \<and> int (size M) \<le> INT64_MAX \<and>
     min_value h = Min (insert INT64_MAX {v \<in> set_mset M. v \<noteq> 0}) \<and>
     max_value h = Max (insert 0 (set_mset M))"

section \<open>Normalised indices\<close>

lemma counts_len_bound:
  assumes "hdr_config_wf h"
  shows "0 < counts_len h" "counts_len h \<le> 8388608"
proof -
  note wfs = hdr_config_wfD [OF assms]
  show "0 < counts_len h"
    using wfs(8) by (simp add: wfs(10))
  have "(bucket_count h + 1) * 2 ^ half_bits h \<le> 64 * 131072"
    using wfs(8,9) half_power_bound [OF assms] by (intro mult_mono) auto
  then show "counts_len h \<le> 8388608"
    by (simp add: wfs(10))
qed

lemma normalize_index_eq:
  assumes "hdr_config_wf h" "offset_ok h" "0 \<le> i" "i < counts_len h"
  shows "normalize_index h i = (i - normalizing_index_offset h) mod counts_len h"
proof -
  let ?o = "normalizing_index_offset h" and ?n = "counts_len h"
  have n: "0 < ?n" "?n \<le> 8388608" and o: "- ?n < ?o" "?o < ?n"
    using counts_len_bound [OF assms(1)] assms(2) by (auto simp: offset_ok_def)
  then have "i32 (i - ?o) = i - ?o"
    using assms by (intro i32_id) auto
  moreover have "i32 (i - ?o + ?n) = i - ?o + ?n" if "i - ?o < 0"
    using that n o assms by (intro i32_id) auto
  moreover have "i32 (i - ?o - ?n) = i - ?o - ?n"
    using n o assms by (intro i32_id) auto
  moreover have "(i - ?o) mod ?n = i - ?o + ?n" if "i - ?o < 0"
    using that n o assms
    by (intro int_mod_pos_eq [where q = "- 1"]) auto
  moreover have "(i - ?o) mod ?n = i - ?o - ?n" if "?n \<le> i - ?o"
    using that n o assms
    by (intro int_mod_pos_eq [where q = 1]) auto
  ultimately show ?thesis
    using assms by (auto simp: normalize_index_def Let_def)
qed

lemma normalize_index_range:
  assumes "hdr_config_wf h" "offset_ok h" "0 \<le> i" "i < counts_len h"
  shows "0 \<le> normalize_index h i" "normalize_index h i < counts_len h"
  using normalize_index_eq [OF assms] counts_len_bound(1) [OF assms(1)] by simp_all

lemma normalize_index_inj:
  assumes "hdr_config_wf h" "offset_ok h" "0 \<le> i" "i < counts_len h" "0 \<le> j" "j < counts_len h"
  shows "normalize_index h i = normalize_index h j \<longleftrightarrow> i = j"
proof
  assume "normalize_index h i = normalize_index h j"
  then have "(i - normalizing_index_offset h) mod counts_len h
      = (j - normalizing_index_offset h) mod counts_len h"
    using assms by (simp add: normalize_index_eq)
  then have "i mod counts_len h = j mod counts_len h"
    by (metis add.commute diff_add_cancel mod_add_left_eq)
  with assms show "i = j" by simp
qed simp

lemma counts_get_normalised_eq:
  assumes "hdr_config_wf h" "offset_ok h" "0 \<le> i" "i < counts_len h"
  shows "counts_get_normalised h i = Some (counts h ! nat (normalize_index h i))"
  using normalize_index_range [OF assms] hdr_config_wfD(11) [OF assms(1)]
  by (simp add: counts_get_normalised_def counts_get_direct_def)


section \<open>Recording refines adding to the multiset\<close>

lemma trackable_frame [simp]:
  "trackable (h\<lparr>counts := cs\<rparr>) v = trackable h v"
  "trackable (h\<lparr>total_count := x\<rparr>) v = trackable h v"
  "trackable (h\<lparr>min_value := x\<rparr>) v = trackable h v"
  "trackable (h\<lparr>max_value := x\<rparr>) v = trackable h v"
  by (simp_all add: trackable_def)

lemma offset_ok_frame [simp]:
  "offset_ok (h\<lparr>counts := cs\<rparr>) = offset_ok h"
  "offset_ok (h\<lparr>total_count := x\<rparr>) = offset_ok h"
  "offset_ok (h\<lparr>min_value := x\<rparr>) = offset_ok h"
  "offset_ok (h\<lparr>max_value := x\<rparr>) = offset_ok h"
  by (simp_all add: offset_ok_def)

lemma update_min_max_eq:
  "update_min_max h v = h\<lparr>min_value := (if v = 0 then min_value h else min v (min_value h)),
                          max_value := max v (max_value h)\<rparr>"
  by (auto simp: update_min_max_def Let_def min_def max_def)

lemma trackableD:
  assumes "hdr_config_wf h" "trackable h v"
  shows "0 \<le> v" "v < value_limit" "0 \<le> counts_index_for h v" "counts_index_for h v < counts_len h"
  using assms hdr.idx_nonneg [of h v] by (simp_all add: trackable_def)

lemma hdr_record_values_trackable:
  assumes wf: "hdr_config_wf h" "offset_ok h" and v: "trackable h v"
  shows "hdr_record_values h v n =
     Some (True, update_min_max
       (h\<lparr>counts := (counts h)[nat (normalize_index h (counts_index_for h v)) :=
             i64 (counts h ! nat (normalize_index h (counts_index_for h v)) + n)],
          total_count := i64 (total_count h + n)\<rparr>) v)"
  using trackableD [OF wf(1) v] counts_get_normalised_eq [OF wf trackableD(3,4) [OF wf(1) v]]
  by (simp add: hdr_record_values_def counts_inc_normalised_def Let_def
      counts_get_normalised_def not_le [symmetric])

lemma hdr_record_values_untrackable:
  assumes "hdr_config_wf h" "\<not> trackable h v" "v < value_limit"
  shows "hdr_record_values h v n = Some (False, h)"
  using assms by (auto simp: hdr_record_values_def trackable_def Let_def)

lemma size_filter_replicate [simp]:
  "size {#x \<in># replicate_mset n v. P x#} = (if P v then n else 0)"
  by (induction n) auto

lemma size_filter_le: "size {#x \<in># M. P x#} \<le> size M"
  by (simp add: size_filter_mset_lesseq)

lemma hdr_absD:
  assumes "hdr_abs h M"
  shows "hdr_config_wf h" "offset_ok h" "v \<in># M \<Longrightarrow> trackable h v"
    "0 \<le> i \<Longrightarrow> i < counts_len h \<Longrightarrow>
       counts_get_normalised h i = Some (int (size {#v \<in># M. counts_index_for h v = i#}))"
    "total_count h = int (size M)" "int (size M) \<le> INT64_MAX"
    "min_value h = Min (insert INT64_MAX {v \<in> set_mset M. v \<noteq> 0})"
    "max_value h = Max (insert 0 (set_mset M))"
  using assms by (auto simp: hdr_abs_def)

text \<open>The state after \<open>n\<close> recordings of \<open>v\<close>: its slots and its extremes.\<close>

definition after_record :: "hdr_histogram \<Rightarrow> int \<Rightarrow> nat \<Rightarrow> hdr_histogram" where
  "after_record h v n =
     (let j = nat (normalize_index h (counts_index_for h v)) in
      update_min_max (h\<lparr>counts := (counts h)[j := i64 (counts h ! j + int n)], total_count := i64 (total_count h + int n)\<rparr>) v)"

lemma after_record_slot:
  assumes abs: "hdr_abs h M" and v: "trackable h v" and room: "int (size M + n) \<le> INT64_MAX"
    and i: "0 \<le> i" "i < counts_len h"
  shows "counts_get_normalised (after_record h v n) i
    = Some (int (size {#x \<in># M + replicate_mset n v. counts_index_for h x = i#}))"
proof -
  note wf = hdr_absD(1,2) [OF abs] and vs = trackableD [OF hdr_absD(1) [OF abs] v]
  define j where "j = nat (normalize_index h (counts_index_for h v))"
  define cs where "cs = (counts h)[j := i64 (counts h ! j + int n)]"
  have j: "j < length (counts h)" "int (length cs) = counts_len h"
    using normalize_index_range [OF wf vs(3,4)] hdr_config_wfD(11) [OF wf(1)] by (simp_all add: j_def cs_def)
  have get: "counts_get_normalised (after_record h v n) i = Some (cs ! nat (normalize_index h i))"
    using normalize_index_range [OF wf i] j(2)
    by (simp add: after_record_def j_def [symmetric] cs_def [symmetric] update_min_max_eq counts_get_normalised_def counts_get_direct_def Let_def)
  show ?thesis
  proof (cases "i = counts_index_for h v")
    case True
    have "counts h ! j = int (size {#x \<in># M. counts_index_for h x = i#})"
      using counts_get_normalised_eq [OF wf vs(3,4)] hdr_absD(4) [OF abs vs(3,4)] True by (simp add: j_def)
    moreover have "int (size {#x \<in># M. counts_index_for h x = i#}) + int n \<le> INT64_MAX"
      using room size_filter_le [of "\<lambda>x. counts_index_for h x = i" M] by linarith
    ultimately have "cs ! j = int (size {#x \<in># M. counts_index_for h x = i#}) + int n"
      using j(1) by (simp add: cs_def i64_nonneg_id)
    with True get show ?thesis by (simp add: j_def)
  next
    case False
    then have "nat (normalize_index h i) \<noteq> j"
      using normalize_index_inj [OF wf i vs(3,4)] normalize_index_range [OF wf i]
        normalize_index_range [OF wf vs(3,4)] by (simp add: j_def)
    then have "cs ! nat (normalize_index h i) = counts h ! nat (normalize_index h i)" by (simp add: cs_def)
    with False get show ?thesis using counts_get_normalised_eq [OF wf i] hdr_absD(4) [OF abs i] by simp
  qed
qed

lemma after_record_extremes:
  assumes abs: "hdr_abs h M"
  shows "min_value (after_record h v n) = Min (insert INT64_MAX {x \<in> insert v (set_mset M). x \<noteq> 0})"
    "max_value (after_record h v n) = Max (insert 0 (insert v (set_mset M)))"
proof -
  show "min_value (after_record h v n) = Min (insert INT64_MAX {x \<in> insert v (set_mset M). x \<noteq> 0})"
  proof (cases "v = 0")
    case False
    have eq: "insert INT64_MAX {x \<in> insert v (set_mset M). x \<noteq> 0}
        = insert v (insert INT64_MAX {x \<in> set_mset M. x \<noteq> 0})"
      using False by auto
    show ?thesis
      unfolding eq using False hdr_absD(7) [OF abs]
      by (subst Min_insert) (auto simp: after_record_def Let_def update_min_max_eq)
  next
    case True
    then have "{x \<in> insert v (set_mset M). x \<noteq> 0} = {x \<in> set_mset M. x \<noteq> 0}" by auto
    with True show ?thesis using hdr_absD(7) [OF abs] by (simp add: after_record_def Let_def update_min_max_eq)
  qed
  show "max_value (after_record h v n) = Max (insert 0 (insert v (set_mset M)))"
    unfolding insert_commute [of 0 v] using hdr_absD(8) [OF abs]
    by (subst Max_insert) (auto simp: after_record_def Let_def update_min_max_eq)
qed

lemma hdr_record_values_abs:
  assumes abs: "hdr_abs h M" and v: "trackable h v" and n: "0 < n"
    and room: "int (size M + n) \<le> INT64_MAX"
  shows "\<exists>h'. hdr_record_values h v (int n) = Some (True, h') \<and> hdr_abs h' (M + replicate_mset n v)"
proof -
  note wf = hdr_absD(1,2) [OF abs]
  have rec: "hdr_record_values h v (int n) = Some (True, after_record h v n)"
    using hdr_record_values_trackable [OF wf v] by (simp add: after_record_def Let_def)
  have set: "set_mset (M + replicate_mset n v) = insert v (set_mset M)" using n by simp
  have "hdr_abs (after_record h v n) (M + replicate_mset n v)"
    unfolding hdr_abs_def
    using wf after_record_slot [OF abs v room] after_record_extremes [OF abs, of v n] room v hdr_absD(3,5) [OF abs] n set
    by (auto simp: after_record_def Let_def update_min_max_eq i64_nonneg_id)
  with rec show ?thesis by blast
qed

section \<open>Empty histograms\<close>

lemma counts_zero_abs:
  assumes "hdr_config_wf h" "offset_ok h" "counts h = replicate (nat (counts_len h)) 0"
    "total_count h = 0" "min_value h = INT64_MAX" "max_value h = 0"
  shows "hdr_abs h {#}"
  using assms normalize_index_range [OF assms(1,2)]
  by (auto simp: hdr_abs_def counts_get_normalised_def counts_get_direct_def nat_less_iff)

lemma hdr_init_abs:
  assumes "lo \<le> INT64_MAX" "hi \<le> INT64_MAX" "hdr_init calloc lo hi sf = Some (Inr h)"
  shows "hdr_abs h {#}"
  using hdr_init_success [OF assms] counts_len_bound(1)
  by (intro counts_zero_abs) (auto simp: offset_ok_def)

lemma hdr_reset_abs:
  assumes "hdr_config_wf h" "offset_ok h"
  shows "hdr_abs (hdr_reset h) {#}"
proof (rule counts_zero_abs)
  have len: "length (counts h) = nat (counts_len h)"
    using hdr_config_wfD(11) [OF assms(1)] by simp
  then show "hdr_config_wf (hdr_reset h)" "counts (hdr_reset h) = replicate (nat (counts_len (hdr_reset h))) 0"
    using assms by (simp_all add: hdr_reset_def)
  show "offset_ok (hdr_reset h)"
    using assms by (simp add: hdr_reset_def)
qed (simp_all add: hdr_reset_def)

section \<open>Equivalent values\<close>

lemma lowest_equivalent_eq_iff:
  assumes wf: "hdr_config_wf h" and a: "trackable h a" and b: "trackable h b"
  shows "lowest_equivalent_value h a = lowest_equivalent_value h b
           \<longleftrightarrow> counts_index_for h a = counts_index_for h b"
  using value_at_counts_index_for [OF wf, of a] value_at_counts_index_for [OF wf, of b]
    hdr.idx_val [OF wf, of "counts_index_for h a"] hdr.idx_val [OF wf, of "counts_index_for h b"]
    trackableD [OF wf a] trackableD [OF wf b]
  by metis

lemma trackable_below:
  "hdr_config_wf h \<Longrightarrow> trackable h v \<Longrightarrow> 0 \<le> w \<Longrightarrow> w \<le> v \<Longrightarrow> trackable h w"
  using hdr.idx_less_below [of h w v] by (simp add: trackable_def)

section \<open>Extremes\<close>

lemma hdr_abs_max:
  assumes abs: "hdr_abs h M" and ne: "M \<noteq> {#}"
  shows "max_value h = Max_mset M" "Max_mset M \<in># M"
proof -
  show mem: "Max_mset M \<in># M"
    using ne by simp
  then have "0 \<le> Max_mset M"
    using trackableD(1) [OF hdr_absD(1) [OF abs] hdr_absD(3) [OF abs]] by blast
  then show "max_value h = Max_mset M"
    using hdr_absD(8) [OF abs] ne by (simp add: Max_insert)
qed

lemma lowest_equivalent_zero:
  assumes "hdr_config_wf h"
  shows "lowest_equivalent_value h 0 = 0" "counts_index_for h 0 = 0"
proof -
  note wfs = hdr_config_wfD [OF assms]
  show "lowest_equivalent_value h 0 = 0"
    using assms by (simp add: lowest_equivalent_value_eq)
  have "bucket_of h 0 = 0"
    by (simp add: bucket_of_def)
  then show "counts_index_for h 0 = 0"
    using assms by (simp add: counts_index_for_eq)
qed

lemma hdr_min_eq:
  assumes abs: "hdr_abs h M" and ne: "M \<noteq> {#}" and lim: "Min_mset M < INT64_MAX"
  shows "hdr_min h = Some (lowest_equivalent_value h (Min_mset M))"
proof -
  let ?m = "Min_mset M"
  note wf = hdr_absD(1) [OF abs]
  have mem: "?m \<in># M" using ne by simp
  note tm = hdr_absD(3) [OF abs mem]
  have z: "trackable h 0"
    using trackable_below [OF wf tm] trackableD(1) [OF wf tm] by simp
  let ?Z = "{#v \<in># M. counts_index_for h v = 0#}"
  have read: "hdr_count_at_index h 0 = Some (int (size ?Z))"
    using hdr_absD(4) [OF abs, of 0] counts_len_bound(1) [OF wf] by (simp add: hdr_count_at_index_def)
  show ?thesis
  proof (cases "counts_index_for h ?m = 0")
    case True
    then have "?m \<in># ?Z" using mem by simp
    then have "0 < size ?Z"
      by (metis empty_not_add_mset multi_member_split nonempty_has_size)
    moreover have "lowest_equivalent_value h ?m = 0"
      using lowest_equivalent_eq_iff [OF wf tm z] True lowest_equivalent_zero [OF wf] by simp
    ultimately show ?thesis
      using read by (simp add: hdr_min_def)
  next
    case False
    have pos: "counts_index_for h v \<noteq> 0 \<and> v \<noteq> 0" if "v \<in># M" for v
    proof -
      have "?m \<le> v" using that by simp
      then have "counts_index_for h ?m \<le> counts_index_for h v"
        using trackableD [OF wf tm] trackableD [OF wf hdr_absD(3) [OF abs that]]
        by (intro hdr.idx_mono [OF wf]) auto
      then show ?thesis
        using False trackableD(3) [OF wf tm] lowest_equivalent_zero(2) [OF wf] by auto
    qed
    then have "?Z = {#}" by (auto simp: filter_mset_eq_conv)
    with read have read0: "hdr_count_at_index h 0 = Some 0"
      by (simp only: size_empty) simp
    have "{v \<in> set_mset M. v \<noteq> 0} = set_mset M" using pos by auto
    then have "min_value h = ?m"
      using hdr_absD(7) [OF abs] ne lim by (simp add: Min_insert min.absorb2 del: Min_le_iff)
    then show ?thesis
      using read0 lim by (simp add: hdr_min_def non_zero_min_def)
  qed
qed

section \<open>Recording with an expected interval\<close>

text \<open>The values the correction for coordinated omission adds below a recorded \<open>v\<close>.\<close>

function missing_values :: "int \<Rightarrow> int \<Rightarrow> int list" where
  "missing_values v e = (if 0 < e \<and> e \<le> v then v # missing_values (v - e) e else [])"
  by pat_completeness auto
termination by (relation "measure (\<lambda>(v, e). nat v)") auto

declare missing_values.simps [simp del]

definition corrected_mset :: "int \<Rightarrow> nat \<Rightarrow> int \<Rightarrow> int multiset" where
  "corrected_mset v n e = repeat_mset n (mset (v # missing_values (v - e) e))"

lemma repeat_mset_Cons: "repeat_mset n (mset (x # xs)) = replicate_mset n x + repeat_mset n (mset xs)"
  by (simp add: repeat_mset_distrib2 [symmetric] multiset_eq_iff)

lemma record_missing_values_abs:
  assumes "hdr_abs h M" "trackable h v" "0 < n" "0 < e"
    "int (size M + n * length (missing_values v e)) \<le> INT64_MAX"
  shows "\<exists>h'. record_missing_values h v (int n) e = Some (True, h')
           \<and> hdr_abs h' (M + repeat_mset n (mset (missing_values v e)))"
  using assms
proof (induction v e arbitrary: h M rule: missing_values.induct)
  case (1 v e)
  show ?case
  proof (cases "e \<le> v")
    case False
    then have "missing_values v e = []" by (simp add: missing_values.simps)
    with False "1.prems"(1) show ?thesis
      by (simp add: record_missing_values.simps)
  next
    case True
    then have mv: "missing_values v e = v # missing_values (v - e) e"
      using "1.prems"(4) by (subst missing_values.simps) simp
    have "size M + n \<le> size M + n * length (missing_values v e)"
      by (simp add: mv)
    with "1.prems"(5) have room: "int (size M + n) \<le> INT64_MAX" by linarith
    have room': "int (size (M + replicate_mset n v) + n * length (missing_values (v - e) e)) \<le> INT64_MAX"
      using "1.prems"(5) by (simp add: mv add.assoc)
    obtain h1 where h1: "hdr_record_values h v (int n) = Some (True, h1)"
        "hdr_abs h1 (M + replicate_mset n v)"
      using hdr_record_values_abs [OF "1.prems"(1,2,3) room] by blast
    have "trackable h1 (v - e)"
      using trackable_below [OF hdr_absD(1) [OF h1(2)], of v] hdr_absD(3) [OF h1(2), of v]
        True "1.prems"(3,4) by simp
    then obtain h' where "record_missing_values h1 (v - e) (int n) e = Some (True, h')"
        "hdr_abs h' (M + replicate_mset n v + repeat_mset n (mset (missing_values (v - e) e)))"
      using "1.IH" [OF _ h1(2)] "1.prems"(3,4) True room' by blast
    then show ?thesis
      using True h1(1) unfolding mv repeat_mset_Cons
      by (simp add: record_missing_values.simps [of h v] add.assoc)
  qed
qed

lemma hdr_record_corrected_values_abs:
  assumes abs: "hdr_abs h M" and v: "trackable h v" and n: "0 < n"
    and room: "int (size (M + corrected_mset v n e)) \<le> INT64_MAX"
  shows "\<exists>h'. hdr_record_corrected_values h v (int n) e = Some (True, h')
           \<and> hdr_abs h' (M + corrected_mset v n e)"
proof -
  let ?ms = "missing_values (v - e) e"
  have room': "int (size (M + replicate_mset n v) + n * length ?ms) \<le> INT64_MAX"
    using room by (simp add: corrected_mset_def add.assoc)
  moreover have "size M + n \<le> size (M + replicate_mset n v) + n * length ?ms" by simp
  ultimately have "int (size M + n) \<le> INT64_MAX" by linarith
  then obtain h1 where h1: "hdr_record_values h v (int n) = Some (True, h1)"
      "hdr_abs h1 (M + replicate_mset n v)"
    using hdr_record_values_abs [OF abs v n] by blast
  show ?thesis
  proof (cases "e \<le> 0 \<or> v \<le> e")
    case True
    then have "?ms = []" by (auto simp: missing_values.simps)
    with True h1 show ?thesis
      by (auto simp: hdr_record_corrected_values_def corrected_mset_def)
  next
    case False
    have "trackable h1 (v - e)"
      using trackable_below [OF hdr_absD(1) [OF h1(2)], of v] hdr_absD(3) [OF h1(2), of v] n False
      by simp
    then show ?thesis
      using record_missing_values_abs [OF h1(2) _ n _ room'] False h1(1)
      unfolding corrected_mset_def repeat_mset_Cons
      by (simp add: hdr_record_corrected_values_def add.assoc)
  qed
qed

section \<open>A small histogram\<close>

text \<open>One significant figure up to 100: three buckets, 64 slots.\<close>

definition small_histogram :: hdr_histogram where
  "small_histogram =
     \<lparr>lowest_discernible_value = 1, highest_trackable_value = 100, unit_magnitude = 0,
      significant_figures = 1, sub_bucket_half_count_magnitude = 4, sub_bucket_half_count = 16,
      sub_bucket_mask = 31, sub_bucket_count = 32, bucket_count = 3, min_value = INT64_MAX,
      max_value = 0, normalizing_index_offset = 0, conversion_ratio = 1, counts_len = 64,
      total_count = 0, counts = replicate 64 0\<rparr>"

lemma small_histogram_init: "hdr_init (\<lambda>_. True) 1 100 1 = Some (Inr small_histogram)"
  by code_simp

lemma small_histogram_abs: "hdr_abs small_histogram {#}"
  by (rule hdr_init_abs [OF _ _ small_histogram_init]) simp_all

lemma small_histogram_wf: "hdr_config_wf small_histogram" "offset_ok small_histogram"
  using hdr_absD(1,2) [OF small_histogram_abs] by simp_all

lemma small_histogram_trackable: "0 \<le> v \<Longrightarrow> v \<le> 127 \<Longrightarrow> trackable small_histogram v"
  using counts_index_for_less_iff [OF small_histogram_wf(1), of v]
  by (simp add: trackable_def small_histogram_def unit_bits_def half_bits_def)

text \<open>The same histogram after the values 5 and 99 were recorded.\<close>

definition sample_histogram :: hdr_histogram where
  "sample_histogram =
     small_histogram\<lparr>counts := (replicate 64 0)[5 := 1, 56 := 2], total_count := 3, min_value := 5,
                      max_value := 99\<rparr>"

lemma sample_histogram_record:
  "(do { (_, h1) \<leftarrow> hdr_record_values small_histogram 5 (int 1); hdr_record_values h1 99 (int 2) })
     = Some (True, sample_histogram)"
  by code_simp

lemma sample_histogram_abs: "hdr_abs sample_histogram {#5, 99, 99#}"
proof -
  obtain h1 where h1: "hdr_record_values small_histogram 5 (int 1) = Some (True, h1)"
      "hdr_abs h1 ({#} + replicate_mset 1 5)"
    using hdr_record_values_abs [OF small_histogram_abs, of 5 1] by (auto simp: small_histogram_trackable)
  have "h1 = small_histogram\<lparr>counts := (replicate 64 0)[5 := 1], total_count := 1, min_value := 5,
                      max_value := 5\<rparr>"
  proof -
    have "hdr_record_values small_histogram 5 (int 1)
        = Some (True, small_histogram\<lparr>counts := (replicate 64 0)[5 := 1], total_count := 1,
                         min_value := 5, max_value := 5\<rparr>)"
      by code_simp
    with h1(1) show ?thesis by simp
  qed
  then have "trackable h1 99" by (simp add: small_histogram_trackable)
  then obtain h2 where "hdr_record_values h1 99 (int 2) = Some (True, h2)"
      "hdr_abs h2 ({#} + replicate_mset 1 5 + replicate_mset 2 99)"
    using hdr_record_values_abs [OF h1(2), of 99 2] by auto
  then show ?thesis
    using sample_histogram_record h1(1) by (simp add: numeral_eq_Suc add_mset_commute)
qed

section \<open>Properties\<close>

text \<open>C35: \<open>hdr_init\<close> always returns. It reports \<open>EINVAL\<close> or \<open>ENOMEM\<close>, or it builds a well-formed
  histogram that holds no value, keeps the requested bounds, and in which every value from 0 to
  the requested highest trackable value has a slot.\<close>

theorem hdr_init_correct:
  assumes "lo \<le> INT64_MAX" "hi \<le> INT64_MAX"
  shows "\<exists>r. hdr_init calloc lo hi sf = Some r \<and>
    (case r of
       Inl e \<Rightarrow> e = EINVAL \<or> e = ENOMEM
     | Inr h \<Rightarrow> hdr_abs h {#} \<and> lowest_discernible_value h = lo \<and>
         highest_trackable_value h = hi \<and> significant_figures h = sf \<and>
         (\<forall>v. 0 \<le> v \<and> v \<le> hi \<longrightarrow> trackable h v))"
proof (cases rule: hdr_init_cases [OF assms, of calloc sf])
  case (1 e)
  then have "e = EINVAL \<or> e = ENOMEM"
    by (auto simp: hdr_init_def hdr_calculate_bucket_config_def Let_def
        split: option.splits sum.splits if_splits)
  with 1 show ?thesis by simp
next
  case (2 h)
  have "trackable h v" if "0 \<le> v" "v \<le> hi" for v
    using that assms(2) hdr_config_wf_precision(2) [OF 2(2)] 2(8)
      counts_index_for_less_iff [OF 2(2), of v]
    by (simp add: trackable_def)
  with 2 show ?thesis
    using hdr_init_abs [OF assms 2(1)] by simp
qed

theorem hdr_init_correct_witness:
  "hdr_abs small_histogram {#} \<and> trackable small_histogram 100"
  using hdr_init_correct [of 1 100 "\<lambda>_. True" 1] by (simp add: small_histogram_init)

text \<open>\<open>hdr_init\<close> accepts every request with one to five significant figures, a lowest value from
  1 to \<open>2 ^ 45 - 1\<close> and a highest value at least twice as large, when the two allocations succeed.\<close>

theorem hdr_init_accepts:
  assumes "1 \<le> lo" "lo < 2 ^ 45" "2 * lo \<le> hi" "hi \<le> INT64_MAX" "1 \<le> sf" "sf \<le> 5"
    and "\<And>n. calloc n"
  shows "\<exists>h. hdr_init calloc lo hi sf = Some (Inr h)"
proof -
  have lo: "lo \<le> INT64_MAX" "i64 (lo * 2) = lo * 2"
    using assms by (auto intro!: i64_nonneg_id)
  obtain m where m: "ceil_log2 (2 * hdr_power 10 (nat sf)) = int m + 1" "1 \<le> m" "m \<le> 17"
    using half_magnitude_cases [OF assms(5,6)] by metis
  have "bitlen lo \<le> 45"
    using assms(2) by (simp add: bitlen_le_iff_power)
  then have "floor_log2 lo + int m \<le> 61"
    using m(3) by (simp add: floor_log2_def)
  then have "hdr_calculate_bucket_config lo hi sf \<noteq> Some (Inl EINVAL)"
    using assms lo m
    by (auto simp: hdr_calculate_bucket_config_def Let_def split: option.splits)
  then show ?thesis
    using assms(7)
    by (cases rule: hdr_calculate_bucket_config_cases [OF lo(1) assms(4), of sf])
      (auto simp: hdr_init_def)
qed

theorem hdr_init_accepts_witness:
  "\<exists>h. hdr_init (\<lambda>_. True) 1 3600000000 3 = Some (Inr h)"
  by (rule hdr_init_accepts) simp_all

text \<open>C39: In a well-formed histogram the slot numbers and the slot values are inverse to each other:
  the value of a slot lies in that slot, and the value of the slot of \<open>v\<close> is the lowest value
  equivalent to \<open>v\<close>, which is at most \<open>v\<close>; slot values increase strictly.\<close>

theorem slot_round_trip:
  assumes "hdr_config_wf h"
  shows "(\<forall>i. 0 \<le> i \<and> i < counts_len h \<longrightarrow> counts_index_for h (hdr_value_at_index h i) = i)
    \<and> (\<forall>v. trackable h v \<longrightarrow> hdr_value_at_index h (counts_index_for h v) = lowest_equivalent_value h v
             \<and> lowest_equivalent_value h v \<le> v)
    \<and> (\<forall>i j. 0 \<le> i \<and> i < j \<and> j < counts_len h \<longrightarrow> hdr_value_at_index h i < hdr_value_at_index h j)"
  using hdr.idx_val [OF assms] value_at_counts_index_for [OF assms]
    lowest_equivalent_value_bounds(2) [OF assms] hdr.val_strict_mono [OF assms]
  by (simp add: trackable_def)

theorem slot_round_trip_witness:
  "counts_index_for small_histogram (hdr_value_at_index small_histogram 40) = 40 \<and>
   hdr_value_at_index small_histogram 40 < hdr_value_at_index small_histogram 41"
  using slot_round_trip [OF small_histogram_wf(1)] by (simp add: small_histogram_def)

text \<open>Two recordable values are equivalent (\<open>hdr_values_are_equivalent\<close>) exactly when they share a
  slot, and exactly when the second lies between the lowest and the highest equivalent value of the
  first.\<close>

theorem hdr_values_are_equivalent_iff:
  assumes "hdr_config_wf h" "trackable h a" "trackable h b"
  shows "(hdr_values_are_equivalent h a b \<longleftrightarrow> counts_index_for h a = counts_index_for h b)
    \<and> (hdr_values_are_equivalent h a b
         \<longleftrightarrow> hdr_lowest_equivalent_value h a \<le> b \<and> b \<le> highest_equivalent_value h a)"
  using lowest_equivalent_eq_iff [OF assms] trackableD [OF assms(1,2)] trackableD [OF assms(1,3)]
    equivalent_range_iff [OF assms(1), of a b]
  by (auto simp: hdr_values_are_equivalent_def hdr_lowest_equivalent_value_def)

theorem hdr_values_are_equivalent_iff_witness:
  "hdr_values_are_equivalent small_histogram 64 67 \<and> \<not> hdr_values_are_equivalent small_histogram 64 68
    \<and> counts_index_for small_histogram 64 = counts_index_for small_histogram 67"
proof -
  have t: "trackable small_histogram 64" "trackable small_histogram 67" "trackable small_histogram 68"
    by (simp_all add: small_histogram_trackable)
  have "counts_index_for small_histogram 64 = counts_index_for small_histogram 67"
    "counts_index_for small_histogram 64 \<noteq> counts_index_for small_histogram 68"
    by code_simp+
  then show ?thesis
    using hdr_values_are_equivalent_iff [OF small_histogram_wf(1) t(1,2)]
      hdr_values_are_equivalent_iff [OF small_histogram_wf(1) t(1,3)] by blast
qed

text \<open>The precision a histogram promises: a value lies in its range of equivalent values, and that
  range is as narrow as the unit of the histogram or its width times \<open>10 ^ significant_figures\<close> is at
  most the value.\<close>

theorem hdr_precision:
  assumes "hdr_config_wf h" "0 \<le> v" "v \<le> INT64_MAX"
  shows "lowest_equivalent_value h v \<le> v \<and> v \<le> highest_equivalent_value h v
    \<and> highest_equivalent_value h v - lowest_equivalent_value h v
        = hdr_size_of_equivalent_value_range h v - 1
    \<and> (hdr_size_of_equivalent_value_range h v = 2 ^ nat (unit_magnitude h)
        \<or> hdr_size_of_equivalent_value_range h v * 10 ^ nat (significant_figures h) \<le> v)"
proof -
  have v: "v < value_limit" using assms by simp
  have "0 \<le> hdr_size_of_equivalent_value_range h v"
    using assms v by (simp add: hdr_size_of_equivalent_value_range_eq)
  then have le: "hdr_size_of_equivalent_value_range h v * 10 ^ nat (significant_figures h)
      \<le> hdr_size_of_equivalent_value_range h v * 2 ^ half_bits h"
    using hdr_config_wf_precision(1) [OF assms(1)] by (intro mult_left_mono) auto
  then show ?thesis
    using equivalent_range_precision [OF assms(1,2) v] lowest_equivalent_value_bounds [OF assms(1,2) v]
      highest_equivalent_value_eq [OF assms(1,2) v]
    by (auto simp: unit_bits_def intro: order_trans [OF le])
qed

theorem hdr_precision_witness:
  "lowest_equivalent_value small_histogram 99 \<le> 99 \<and> 99 \<le> highest_equivalent_value small_histogram 99"
  using hdr_precision [OF small_histogram_wf(1), of 99] by simp

text \<open>C34: Recording refines adding to the multiset of recorded values. For every 64-bit value,
  \<open>hdr_record_values\<close> stays inside the counts array; a recordable value is accepted and counted
  \<open>n\<close> times in its slot, the total and the extremes, while any other value is rejected and the
  histogram is unchanged.\<close>

theorem hdr_record_values_refines:
  assumes "hdr_abs h M" "v \<le> INT64_MAX" "0 < n" "int (size M + n) \<le> INT64_MAX"
  shows "\<exists>h'. hdr_record_values h v (int n) = Some (trackable h v, h')
    \<and> (if trackable h v then hdr_abs h' (M + replicate_mset n v) else h' = h)"
  using hdr_record_values_abs [OF assms(1) _ assms(3,4)] assms(2)
    hdr_record_values_untrackable [OF hdr_absD(1) [OF assms(1)]]
  by (cases "trackable h v") auto

theorem hdr_record_values_refines_witness:
  "\<exists>h'. hdr_record_values small_histogram 99 3 = Some (True, h') \<and> hdr_abs h' {#99, 99, 99#}"
  using hdr_record_values_refines [OF small_histogram_abs, of 99 3]
  by (simp add: small_histogram_trackable numeral_eq_Suc)

text \<open>Recording with an expected interval returns for every recordable value, and adds the value
  and the values \<open>v - e\<close>, \<open>v - 2 * e\<close>, and so on down to the interval \<open>e\<close>, each \<open>n\<close> times; with a
  non-positive interval it adds the value only.\<close>

theorem hdr_record_corrected_values_refines:
  assumes "hdr_abs h M" "trackable h v" "0 < n" "int (size (M + corrected_mset v n e)) \<le> INT64_MAX"
  shows "\<exists>h'. hdr_record_corrected_values h v (int n) e = Some (True, h')
           \<and> hdr_abs h' (M + corrected_mset v n e)"
  by (rule hdr_record_corrected_values_abs [OF assms])

theorem hdr_record_corrected_values_refines_witness:
  "\<exists>h'. hdr_record_corrected_values small_histogram 100 2 30 = Some (True, h')
     \<and> hdr_abs h' {#100, 100, 70, 70, 40, 40#}"
proof -
  have c: "corrected_mset 100 2 30 = {#100, 100, 70, 70, 40, 40#}"
    by (simp add: corrected_mset_def missing_values.simps numeral_eq_Suc)
  show ?thesis
    using hdr_record_corrected_values_refines [OF small_histogram_abs, of 100 2 30]
    by (simp add: small_histogram_trackable c)
qed

text \<open>\<open>hdr_count_at_value\<close> of a recordable value is the number of recorded values that are
  equivalent to it.\<close>

theorem hdr_count_at_value_correct:
  assumes "hdr_abs h M" "trackable h v"
  shows "hdr_count_at_value h v = Some (int (size {#x \<in># M. hdr_values_are_equivalent h x v#}))"
proof -
  have "{#x \<in># M. counts_index_for h x = counts_index_for h v#}
      = {#x \<in># M. hdr_values_are_equivalent h x v#}"
    using lowest_equivalent_eq_iff [OF hdr_absD(1) [OF assms(1)] hdr_absD(3) [OF assms(1)] assms(2)]
    by (intro filter_mset_cong) (auto simp: hdr_values_are_equivalent_def)
  then show ?thesis
    using hdr_absD(4) [OF assms(1)] trackableD [OF hdr_absD(1) [OF assms(1)] assms(2)]
    by (simp add: hdr_count_at_value_def)
qed

theorem hdr_count_at_value_correct_witness:
  "hdr_count_at_value small_histogram 99 = Some 0"
  using hdr_count_at_value_correct [OF small_histogram_abs, of 99] by (simp add: small_histogram_trackable)

text \<open>The extremes of a histogram that holds the values \<open>M\<close>: \<open>hdr_max\<close> is the highest value
  equivalent to the greatest recorded value (0 when that is 0), \<open>hdr_min\<close> the lowest value
  equivalent to the least one, so every recorded value lies between them.\<close>

theorem hdr_extremes_correct:
  assumes "hdr_abs h M" "M \<noteq> {#}" "Min_mset M < INT64_MAX"
  shows "hdr_max h = (if Max_mset M = 0 then 0 else highest_equivalent_value h (Max_mset M))
    \<and> hdr_min h = Some (lowest_equivalent_value h (Min_mset M))
    \<and> (\<forall>v \<in># M. lowest_equivalent_value h (Min_mset M) \<le> v \<and> v \<le> hdr_max h)"
proof -
  note wf = hdr_absD(1) [OF assms(1)] and mx = hdr_abs_max [OF assms(1,2)]
  have max: "hdr_max h = (if Max_mset M = 0 then 0 else highest_equivalent_value h (Max_mset M))"
    using mx(1) by (auto simp: hdr_max_def)
  have "v \<le> hdr_max h \<and> lowest_equivalent_value h (Min_mset M) \<le> v" if "v \<in># M" for v
  proof
    have "v \<le> Max_mset M" using that by simp
    also have "\<dots> \<le> hdr_max h"
      using highest_equivalent_value_ge(1) [OF wf trackableD(1,2) [OF wf hdr_absD(3) [OF assms(1) mx(2)]]]
      by (simp add: max)
    finally show "v \<le> hdr_max h" .
    have "Min_mset M \<in># M" using assms(2) by simp
    then have "lowest_equivalent_value h (Min_mset M) \<le> Min_mset M"
      using lowest_equivalent_value_bounds(2) [OF wf]
        trackableD(1,2) [OF wf hdr_absD(3) [OF assms(1)]] by blast
    also have "\<dots> \<le> v" using that by simp
    finally show "lowest_equivalent_value h (Min_mset M) \<le> v" .
  qed
  then show ?thesis
    using max hdr_min_eq [OF assms] by blast
qed

theorem hdr_extremes_correct_witness:
  "\<exists>h'. hdr_record_values small_histogram 99 1 = Some (True, h')
     \<and> hdr_min h' = Some 96 \<and> hdr_max h' = 99"
proof -
  obtain h' where h': "hdr_record_values small_histogram 99 (int 1) = Some (True, h')"
      "hdr_abs h' ({#} + replicate_mset 1 99)"
    using hdr_record_values_abs [OF small_histogram_abs, of 99 1]
    by (auto simp: small_histogram_trackable)
  have ev: "map_option (\<lambda>(b, h). (lowest_equivalent_value h 99, highest_equivalent_value h 99))
      (hdr_record_values small_histogram 99 (int 1)) = Some (96, 99)"
    by code_simp
  then have "lowest_equivalent_value h' 99 = 96" "highest_equivalent_value h' 99 = 99"
    using h'(1) by simp_all
  then show ?thesis
    using hdr_extremes_correct [OF h'(2)] h'(1) by simp
qed

text \<open>\<open>hdr_reset\<close> of a histogram that holds values is the histogram with the same configuration
  that holds none.\<close>

theorem hdr_reset_empties:
  assumes "hdr_abs h M"
  shows "hdr_abs (hdr_reset h) {#} \<and> counts_len (hdr_reset h) = counts_len h
    \<and> (\<forall>v. trackable (hdr_reset h) v = trackable h v)"
  using hdr_reset_abs [OF hdr_absD(1,2) [OF assms]] by (simp add: hdr_reset_def)

theorem hdr_reset_empties_witness: "hdr_abs (hdr_reset small_histogram) {#}"
  using hdr_reset_empties [OF small_histogram_abs] by simp

end
