(* ===== verification/Walkers.thy ===== *)
theory Walkers
  imports Prelude
begin

text \<open>
  Loops of the form \<^verbatim>\<open>while (next(&it) && cond)\<close>. The clients of an iterator are written with the
  combinator \<open>while_next\<close>, which may diverge; the contract \<open>walker\<close> says that an iterator delivers
  a finite list of views, one per step, and from it the loop equals a fold over that list.
\<close>

partial_function (option) while_next ::
    "('s \<Rightarrow> (bool \<times> 's) option) \<Rightarrow> ('b \<Rightarrow> bool) \<Rightarrow> ('s \<Rightarrow> 'b \<Rightarrow> 'b option) \<Rightarrow> 's \<Rightarrow> 'b \<Rightarrow> 'b option"
where
  "while_next nxt cond body s acc =
     do {
       (more, s') \<leftarrow> nxt s;
       if \<not> more \<or> \<not> cond acc then Some acc
       else do {
         acc' \<leftarrow> body s' acc;
         while_next nxt cond body s' acc'
       }
     }"

declare while_next.simps [code]

fun fold_while :: "('b \<Rightarrow> bool) \<Rightarrow> ('a \<Rightarrow> 'b \<Rightarrow> 'b option) \<Rightarrow> 'a list \<Rightarrow> 'b \<Rightarrow> 'b option" where
  "fold_while cond g [] acc = Some acc"
| "fold_while cond g (x # xs) acc =
     (if cond acc then
        (case g x acc of
           None \<Rightarrow> None
         | Some acc' \<Rightarrow> fold_while cond g xs acc')
      else Some acc)"

lemma fold_while_pure:
  "fold_while (\<lambda>_. True) (\<lambda>x acc. Some (f x acc)) xs acc = Some (fold f xs acc)"
  by (induction xs arbitrary: acc) auto

lemma fold_while_total:
  assumes "\<And>x acc. \<exists>r. g x acc = Some r"
  shows "\<exists>r. fold_while cond g xs acc = Some r"
proof (induction xs arbitrary: acc)
  case (Cons x xs)
  obtain r where "g x acc = Some r" using assms by blast
  then show ?case using Cons.IH by simp
qed simp

text \<open>Loops that a step may leave: the result tells whether one did.\<close>

partial_function (option) while_break ::
    "('s \<Rightarrow> (bool \<times> 's) option) \<Rightarrow> ('s \<Rightarrow> 'b \<Rightarrow> (bool \<times> 'b) option) \<Rightarrow> 's \<Rightarrow> 'b \<Rightarrow> (bool \<times> 'b) option"
where
  "while_break nxt body s acc =
     do {
       (more, s') \<leftarrow> nxt s;
       if \<not> more then Some (False, acc)
       else do {
         (stop, acc') \<leftarrow> body s' acc;
         if stop then Some (True, acc') else while_break nxt body s' acc'
       }
     }"

declare while_break.simps [code]

fun fold_break :: "('a \<Rightarrow> 'b \<Rightarrow> (bool \<times> 'b) option) \<Rightarrow> 'a list \<Rightarrow> 'b \<Rightarrow> (bool \<times> 'b) option" where
  "fold_break g [] acc = Some (False, acc)"
| "fold_break g (x # xs) acc =
     do {
       (stop, acc') \<leftarrow> g x acc;
       if stop then Some (True, acc') else fold_break g xs acc'
     }"

locale walker =
  fixes nxt :: "'s \<Rightarrow> (bool \<times> 's) option" and inv :: "'s \<Rightarrow> bool"
    and view :: "'s \<Rightarrow> 'a" and todo :: "'s \<Rightarrow> 'a list"
  assumes next_nil: "inv s \<Longrightarrow> todo s = [] \<Longrightarrow> \<exists>s'. nxt s = Some (False, s')"
    and next_cons: "inv s \<Longrightarrow> todo s = x # xs \<Longrightarrow>
      \<exists>s'. nxt s = Some (True, s') \<and> inv s' \<and> view s' = x \<and> todo s' = xs"
begin

lemma while_next_fold:
  assumes "inv s" and body: "\<And>s acc. inv s \<Longrightarrow> body s acc = g (view s) acc"
  shows "while_next nxt cond body s acc = fold_while cond g (todo s) acc"
  using assms(1)
proof (induction "todo s" arbitrary: s acc)
  case Nil
  then obtain s' where "nxt s = Some (False, s')"
    using next_nil by metis
  then show ?case
    by (simp add: while_next.simps Nil.hyps [symmetric])
next
  case (Cons x xs)
  obtain s' where s': "nxt s = Some (True, s')" "inv s'" "view s' = x" "todo s' = xs"
    using next_cons [OF Cons.prems Cons.hyps(2) [symmetric]] by blast
  show ?case
  proof (cases "cond acc")
    case True
    then show ?thesis
      using s' Cons.hyps(1) [of s'] body [OF s'(2)]
      by (simp add: while_next.simps [of nxt cond body s] Cons.hyps(2) [symmetric]
          split: option.split)
  next
    case False
    then show ?thesis
      using s'(1) by (simp add: while_next.simps [of nxt cond body s] Cons.hyps(2) [symmetric])
  qed
qed

lemma while_break_fold:
  assumes "inv s" and body: "\<And>s acc. inv s \<Longrightarrow> body s acc = g (view s) acc"
  shows "while_break nxt body s acc = fold_break g (todo s) acc"
  using assms(1)
proof (induction "todo s" arbitrary: s acc)
  case Nil
  then obtain s' where "nxt s = Some (False, s')"
    using next_nil by metis
  then show ?case
    by (simp add: while_break.simps Nil.hyps [symmetric])
next
  case (Cons x xs)
  obtain s' where s': "nxt s = Some (True, s')" "inv s'" "view s' = x" "todo s' = xs"
    using next_cons [OF Cons.prems Cons.hyps(2) [symmetric]] by blast
  show ?case
    using s' Cons.hyps(1) [of s'] body [OF s'(2)]
    by (simp add: while_break.simps [of nxt body s] Cons.hyps(2) [symmetric] split: Option.bind_split)
qed

end

end
