(* ===== verification/Hdr_Iter.thy ===== *)
theory Hdr_Iter
  imports Hdr_Record Walkers
begin

text \<open>
  The iterators of \<^verbatim>\<open>hdr_histogram.c\<close>. An iterator is a record that holds the histogram it walks,
  the position in the counts array and the running totals; the union of the source is a datatype
  with one constructor per kind of iteration, and the function pointer \<^verbatim>\<open>_next_fp\<close> is an
  enumeration. A step returns \<open>None\<close> when it reads outside the counts array or reads a union member
  that its initialiser did not set.
\<close>

section \<open>Data\<close>

record hdr_iter_percentiles =
  seen_last_value :: bool
  ticks_per_half_distance :: int
  percentile_to_iterate_to :: real
  percentile :: real

record hdr_iter_recorded =
  recorded_count_added :: int

record hdr_iter_linear =
  value_units_per_bucket :: int
  linear_count_added :: int
  linear_next_level :: int
  linear_next_level_lowest :: int

record hdr_iter_log =
  log_base :: real
  log_count_added :: int
  log_next_level :: int
  log_next_level_lowest :: int

datatype iter_specifics =
    No_Specifics
  | Percentiles hdr_iter_percentiles
  | Recorded hdr_iter_recorded
  | Linear hdr_iter_linear
  | Logarithmic hdr_iter_log

datatype next_fp = All_Values_Next | Percentile_Next | Recorded_Next | Linear_Next | Log_Next

record hdr_iter =
  iter_h :: hdr_histogram
  iter_counts_index :: int
  iter_total_count :: int
  iter_count :: int
  iter_cumulative_count :: int
  iter_value :: int
  iter_highest_equivalent_value :: int
  iter_lowest_equivalent_value :: int
  iter_median_equivalent_value :: int
  value_iterated_from :: int
  value_iterated_to :: int
  specifics :: iter_specifics
  iter_next_fp :: next_fp

section \<open>The basic iterator\<close>

definition has_buckets :: "hdr_iter \<Rightarrow> bool" where
  "has_buckets iter \<longleftrightarrow> iter_counts_index iter < counts_len (iter_h iter)"

definition has_next :: "hdr_iter \<Rightarrow> bool" where
  "has_next iter \<longleftrightarrow> iter_cumulative_count iter < iter_total_count iter"

definition move_next :: "hdr_iter \<Rightarrow> (bool \<times> hdr_iter) option" where
  "move_next iter =
     (let it = iter\<lparr>iter_counts_index := iter_counts_index iter + 1\<rparr>; h = iter_h it in
      if \<not> has_buckets it then Some (False, it)
      else
        (case counts_get_normalised h (iter_counts_index it) of
           None \<Rightarrow> None
         | Some c \<Rightarrow>
             let value = hdr_value_at_index h (iter_counts_index it);
                 bucket_index = get_bucket_index h value;
                 sub_bucket_index = get_sub_bucket_index value bucket_index (unit_magnitude h);
                 leq = lowest_equivalent_value_given_bucket_indices h bucket_index sub_bucket_index;
                 size = size_of_equivalent_value_range_given_bucket_indices h bucket_index
                          sub_bucket_index
             in Some (True,
                  it\<lparr>iter_count := c,
                     iter_cumulative_count := i64 (iter_cumulative_count it + c),
                     iter_lowest_equivalent_value := leq,
                     iter_value := value,
                     iter_highest_equivalent_value := i64 (leq + size - 1),
                     iter_median_equivalent_value := i64 (leq + drop_bit 1 size)\<rparr>)))"

definition peek_next_value_from_index :: "hdr_iter \<Rightarrow> int" where
  "peek_next_value_from_index iter = hdr_value_at_index (iter_h iter) (iter_counts_index iter + 1)"

definition next_value_greater_than_reporting_level_upper_bound :: "hdr_iter \<Rightarrow> int \<Rightarrow> bool" where
  "next_value_greater_than_reporting_level_upper_bound iter reporting_level_upper_bound =
     (if iter_counts_index iter \<ge> counts_len (iter_h iter) then False
      else peek_next_value_from_index iter > reporting_level_upper_bound)"

definition basic_iter_next :: "hdr_iter \<Rightarrow> (bool \<times> hdr_iter) option" where
  "basic_iter_next iter =
     (if \<not> has_next iter \<or> iter_counts_index iter \<ge> counts_len (iter_h iter)
      then Some (False, iter)
      else
        (case move_next iter of
           None \<Rightarrow> None
         | Some (_, it) \<Rightarrow> Some (True, it)))"

definition update_iterated_values :: "hdr_iter \<Rightarrow> int \<Rightarrow> hdr_iter" where
  "update_iterated_values iter new_value_iterated_to =
     iter\<lparr>value_iterated_from := value_iterated_to iter,
          value_iterated_to := new_value_iterated_to\<rparr>"

definition all_values_iter_next :: "hdr_iter \<Rightarrow> (bool \<times> hdr_iter) option" where
  "all_values_iter_next iter =
     (case move_next iter of
        None \<Rightarrow> None
      | Some (result, it) \<Rightarrow>
          Some (result, if result then update_iterated_values it (iter_value it) else it))"

definition hdr_iter_init :: "hdr_iter \<Rightarrow> hdr_histogram \<Rightarrow> hdr_iter" where
  "hdr_iter_init iter h =
     iter\<lparr>iter_h := h, iter_counts_index := - 1, iter_total_count := total_count h,
          iter_count := 0, iter_cumulative_count := 0, iter_value := 0,
          iter_highest_equivalent_value := 0, value_iterated_from := 0, value_iterated_to := 0,
          iter_next_fp := All_Values_Next\<rparr>"

text \<open>The loops below move forward in the counts array, which bounds them.\<close>

abbreviation slots_left :: "hdr_iter \<Rightarrow> nat" where
  "slots_left iter \<equiv> nat (counts_len (iter_h iter) - iter_counts_index iter)"

lemma move_next_frame:
  assumes "move_next iter = Some (b, it)"
  shows "iter_h it = iter_h iter" "iter_counts_index it = iter_counts_index iter + 1"
    "iter_total_count it = iter_total_count iter" "specifics it = specifics iter"
    "iter_next_fp it = iter_next_fp iter" "b \<longleftrightarrow> iter_counts_index it < counts_len (iter_h iter)"
    "value_iterated_from it = value_iterated_from iter" "value_iterated_to it = value_iterated_to iter"
  using assms
  by (auto simp: move_next_def has_buckets_def Let_def split: option.splits if_splits)

lemma basic_iter_next_frame:
  assumes "basic_iter_next iter = Some (True, it)"
  shows "iter_h it = iter_h iter" "iter_counts_index it = iter_counts_index iter + 1"
    "iter_counts_index iter < counts_len (iter_h iter)"
    "iter_total_count it = iter_total_count iter" "specifics it = specifics iter"
    "iter_next_fp it = iter_next_fp iter"
  using assms
  by (auto simp: basic_iter_next_def split: option.splits if_splits dest: move_next_frame)

lemma move_next_decreases:
  "move_next iter = Some (True, it) \<Longrightarrow>
     iter_counts_index iter < counts_len (iter_h iter)
     \<and> counts_len (iter_h it) - iter_counts_index it < counts_len (iter_h iter) - iter_counts_index iter"
  using move_next_frame(1,2,6) [of iter True it] by simp

lemma basic_iter_next_decreases:
  "basic_iter_next iter = Some (True, it) \<Longrightarrow>
     iter_counts_index iter < counts_len (iter_h iter)
     \<and> counts_len (iter_h it) - iter_counts_index it < counts_len (iter_h iter) - iter_counts_index iter"
  using basic_iter_next_frame(1,2,3) [of iter it] by simp

section \<open>Percentiles\<close>

text \<open>
  The conversions of \<open>log (100 / (100 - p)) / log 2\<close> and of \<open>pow 2\<close> to 64-bit integers: for
  \<open>0 \<le> p < 100\<close> the first is the integer logarithm of the integer part of \<open>100 / (100 - p)\<close>.
\<close>

definition percentile_step :: "hdr_iter_percentiles \<Rightarrow> real" where
  "percentile_step ps =
     (let temp = floor_log2 \<lfloor>100 / (100 - percentile_to_iterate_to ps)\<rfloor> + 1;
          half_distance = 2 ^ nat temp;
          percentile_reporting_ticks = i64 (ticks_per_half_distance ps * half_distance)
      in 100 / real_of_int percentile_reporting_ticks)"

function percentile_loop :: "hdr_iter_percentiles \<Rightarrow> hdr_iter \<Rightarrow> (bool \<times> hdr_iter) option" where
  "percentile_loop ps iter =
     (let current_percentile =
            100 * real_of_int (iter_cumulative_count iter) / real_of_int (total_count (iter_h iter))
      in if iter_count iter \<noteq> 0 \<and> percentile_to_iterate_to ps \<le> current_percentile then
           let it = update_iterated_values iter
                      (highest_equivalent_value (iter_h iter) (iter_value iter));
               ps' = ps\<lparr>percentile := percentile_to_iterate_to ps,
                        percentile_to_iterate_to := percentile_to_iterate_to ps + percentile_step ps\<rparr>
           in Some (True, it\<lparr>specifics := Percentiles ps'\<rparr>)
         else
           (case basic_iter_next iter of
              None \<Rightarrow> None
            | Some (False, it) \<Rightarrow> Some (True, it)
            | Some (True, it) \<Rightarrow> percentile_loop ps it))"
  by pat_completeness auto
termination
  by (relation "measure (\<lambda>(ps, iter). slots_left iter)") (auto dest!: basic_iter_next_decreases)

definition percentile_iter_next :: "hdr_iter \<Rightarrow> (bool \<times> hdr_iter) option" where
  "percentile_iter_next iter =
     (case specifics iter of
        Percentiles ps \<Rightarrow>
          if \<not> has_next iter then
            if seen_last_value ps then Some (False, iter)
            else Some (True, iter\<lparr>specifics := Percentiles (ps\<lparr>seen_last_value := True,
                                                             percentile := 100\<rparr>)\<rparr>)
          else if iter_counts_index iter = - 1 then
            (case basic_iter_next iter of
               None \<Rightarrow> None
             | Some (False, it) \<Rightarrow> Some (False, it)
             | Some (True, it) \<Rightarrow> percentile_loop ps it)
          else percentile_loop ps iter
      | _ \<Rightarrow> None)"

definition hdr_iter_percentile_init :: "hdr_iter \<Rightarrow> hdr_histogram \<Rightarrow> int \<Rightarrow> hdr_iter" where
  "hdr_iter_percentile_init iter h ticks =
     (hdr_iter_init (iter\<lparr>iter_h := h\<rparr>) h)
       \<lparr>specifics := Percentiles \<lparr>seen_last_value = False, ticks_per_half_distance = ticks,
                                  percentile_to_iterate_to = 0, percentile = 0\<rparr>,
        iter_next_fp := Percentile_Next\<rparr>"

section \<open>Recorded values\<close>

function recorded_iter_next :: "hdr_iter \<Rightarrow> (bool \<times> hdr_iter) option" where
  "recorded_iter_next iter =
     (case basic_iter_next iter of
        None \<Rightarrow> None
      | Some (False, it) \<Rightarrow> Some (False, it)
      | Some (True, it) \<Rightarrow>
          if iter_count it \<noteq> 0 then
            Some (True, (update_iterated_values it (iter_value it))
              \<lparr>specifics := Recorded \<lparr>recorded_count_added = iter_count it\<rparr>\<rparr>)
          else recorded_iter_next it)"
  by pat_completeness auto
termination
  by (relation "measure slots_left") (auto dest!: basic_iter_next_decreases)

definition hdr_iter_recorded_init :: "hdr_iter \<Rightarrow> hdr_histogram \<Rightarrow> hdr_iter" where
  "hdr_iter_recorded_init iter h =
     (hdr_iter_init iter h)\<lparr>specifics := Recorded \<lparr>recorded_count_added = 0\<rparr>,
                            iter_next_fp := Recorded_Next\<rparr>"

section \<open>Linear\<close>

function linear_loop :: "hdr_iter_linear \<Rightarrow> hdr_iter \<Rightarrow> (bool \<times> hdr_iter) option" where
  "linear_loop lin iter =
     (if iter_value iter \<ge> linear_next_level_lowest lin then
        let it = update_iterated_values iter (linear_next_level lin);
            level = i64 (linear_next_level lin + value_units_per_bucket lin);
            lin' = lin\<lparr>linear_next_level := level,
                             linear_next_level_lowest := lowest_equivalent_value (iter_h it) level\<rparr>
        in Some (True, it\<lparr>specifics := Linear lin'\<rparr>)
      else
        (case move_next iter of
           None \<Rightarrow> None
         | Some (False, it) \<Rightarrow> Some (True, it\<lparr>specifics := Linear lin\<rparr>)
         | Some (True, it) \<Rightarrow>
             linear_loop (lin\<lparr>linear_count_added := i64 (linear_count_added lin + iter_count it)\<rparr>)
               it))"
  by pat_completeness auto
termination
  by (relation "measure (\<lambda>(l, iter). slots_left iter)") (auto dest!: move_next_decreases)

definition iter_linear_next :: "hdr_iter \<Rightarrow> (bool \<times> hdr_iter) option" where
  "iter_linear_next iter =
     (case specifics iter of
        Linear l \<Rightarrow>
          let lin = l\<lparr>linear_count_added := 0\<rparr>; it = iter\<lparr>specifics := Linear lin\<rparr>
          in if has_next it \<or> next_value_greater_than_reporting_level_upper_bound it
                                (linear_next_level_lowest lin)
             then linear_loop lin it
             else Some (False, it)
      | _ \<Rightarrow> None)"

definition hdr_iter_linear_init :: "hdr_iter \<Rightarrow> hdr_histogram \<Rightarrow> int \<Rightarrow> hdr_iter" where
  "hdr_iter_linear_init iter h units =
     (hdr_iter_init iter h)
       \<lparr>specifics := Linear \<lparr>value_units_per_bucket = units, linear_count_added = 0,
                             linear_next_level = units,
                             linear_next_level_lowest = lowest_equivalent_value h units\<rparr>,
        iter_next_fp := Linear_Next\<rparr>"

section \<open>Logarithmic\<close>

function log_loop :: "hdr_iter_log \<Rightarrow> hdr_iter \<Rightarrow> (bool \<times> hdr_iter) option" where
  "log_loop logarithmic iter =
     (if iter_value iter \<ge> log_next_level_lowest logarithmic then
        let it = update_iterated_values iter (log_next_level logarithmic);
            level = i64 (log_next_level logarithmic * c_trunc (log_base logarithmic));
            logarithmic' = logarithmic\<lparr>log_next_level := level,
                             log_next_level_lowest := lowest_equivalent_value (iter_h it) level\<rparr>
        in Some (True, it\<lparr>specifics := Logarithmic logarithmic'\<rparr>)
      else
        (case move_next iter of
           None \<Rightarrow> None
         | Some (False, it) \<Rightarrow> Some (True, it\<lparr>specifics := Logarithmic logarithmic\<rparr>)
         | Some (True, it) \<Rightarrow>
             log_loop (logarithmic\<lparr>log_count_added := i64 (log_count_added logarithmic + iter_count it)\<rparr>)
               it))"
  by pat_completeness auto
termination
  by (relation "measure (\<lambda>(l, iter). slots_left iter)") (auto dest!: move_next_decreases)

definition log_iter_next :: "hdr_iter \<Rightarrow> (bool \<times> hdr_iter) option" where
  "log_iter_next iter =
     (case specifics iter of
        Logarithmic l \<Rightarrow>
          let logarithmic = l\<lparr>log_count_added := 0\<rparr>;
              it = iter\<lparr>specifics := Logarithmic logarithmic\<rparr>
          in if has_next it \<or> next_value_greater_than_reporting_level_upper_bound it
                                (log_next_level_lowest logarithmic)
             then log_loop logarithmic it
             else Some (False, it)
      | _ \<Rightarrow> None)"

definition hdr_iter_log_init :: "hdr_iter \<Rightarrow> hdr_histogram \<Rightarrow> int \<Rightarrow> real \<Rightarrow> hdr_iter" where
  "hdr_iter_log_init iter h units base =
     (hdr_iter_init iter h)
       \<lparr>specifics := Logarithmic \<lparr>log_base = base, log_count_added = 0, log_next_level = units,
                                  log_next_level_lowest = lowest_equivalent_value h units\<rparr>,
        iter_next_fp := Log_Next\<rparr>"

section \<open>Dispatch\<close>

definition hdr_iter_next :: "hdr_iter \<Rightarrow> (bool \<times> hdr_iter) option" where
  "hdr_iter_next iter =
     (case iter_next_fp iter of
        All_Values_Next \<Rightarrow> all_values_iter_next iter
      | Percentile_Next \<Rightarrow> percentile_iter_next iter
      | Recorded_Next \<Rightarrow> recorded_iter_next iter
      | Linear_Next \<Rightarrow> iter_linear_next iter
      | Log_Next \<Rightarrow> log_iter_next iter)"

declare percentile_loop.simps [simp del] recorded_iter_next.simps [simp del]
  linear_loop.simps [simp del] log_loop.simps [simp del]

section \<open>Consistent counts\<close>

text \<open>
  The count of a slot as the iterators see it, the sum of the first \<open>k\<close> of them, and the condition
  that the total is the sum of all of them.
\<close>

definition slot_count :: "hdr_histogram \<Rightarrow> int \<Rightarrow> int" where
  "slot_count h i = counts h ! nat (normalize_index h i)"

definition hdr_counts_ok :: "hdr_histogram \<Rightarrow> bool" where
  "hdr_counts_ok h \<longleftrightarrow>
     hdr_config_wf h \<and> offset_ok h \<and> (\<forall>c \<in> set (counts h). 0 \<le> c) \<and>
     sum_list (counts h) = total_count h \<and> total_count h \<le> INT64_MAX"

definition cum_count :: "hdr_histogram \<Rightarrow> int \<Rightarrow> int" where
  "cum_count h k = sum (slot_count h) {0..<min k (counts_len h)}"

lemma hdr_counts_okD:
  assumes "hdr_counts_ok h"
  shows "hdr_config_wf h" "offset_ok h" "sum_list (counts h) = total_count h"
    "total_count h \<le> INT64_MAX" "c \<in> set (counts h) \<Longrightarrow> 0 \<le> c"
  using assms by (auto simp: hdr_counts_ok_def)

lemma normalize_index_onto:
  assumes "hdr_config_wf h" "offset_ok h"
  shows "inj_on (normalize_index h) {0..<counts_len h}"
    "normalize_index h ` {0..<counts_len h} = {0..<counts_len h}"
proof -
  show inj: "inj_on (normalize_index h) {0..<counts_len h}"
    using normalize_index_inj [OF assms] by (auto intro!: inj_onI)
  have "normalize_index h ` {0..<counts_len h} \<subseteq> {0..<counts_len h}"
    using normalize_index_range [OF assms] by auto
  with inj show "normalize_index h ` {0..<counts_len h} = {0..<counts_len h}"
    by (intro endo_inj_surj) auto
qed

lemma sum_slot_count:
  assumes "hdr_config_wf h" "offset_ok h"
  shows "sum (slot_count h) {0..<counts_len h} = sum_list (counts h)"
proof -
  let ?I = "{0..<counts_len h}"
  note onto = normalize_index_onto [OF assms]
  have "sum (slot_count h) ?I = sum (\<lambda>i. counts h ! nat i) (normalize_index h ` ?I)"
    using onto(1) by (simp add: sum.reindex slot_count_def)
  also have "\<dots> = sum (\<lambda>i. counts h ! nat i) (int ` {0..<length (counts h)})"
    using hdr_config_wfD(11) [OF assms(1)] unfolding onto(2) by (simp add: image_int_atLeastLessThan)
  also have "\<dots> = sum_list (counts h)"
    by (simp add: sum.reindex sum_list_sum_nth)
  finally show ?thesis .
qed

lemma slot_count_nonneg:
  assumes "hdr_counts_ok h" "0 \<le> i" "i < counts_len h"
  shows "0 \<le> slot_count h i"
  unfolding slot_count_def
  using normalize_index_range [OF hdr_counts_okD(1,2) [OF assms(1)] assms(2,3)]
    hdr_config_wfD(11) [OF hdr_counts_okD(1) [OF assms(1)]]
  by (intro hdr_counts_okD(5) [OF assms(1)] nth_mem) simp

lemma counts_get_slot_count:
  assumes "hdr_counts_ok h" "0 \<le> i" "i < counts_len h"
  shows "counts_get_normalised h i = Some (slot_count h i)"
  using counts_get_normalised_eq [OF hdr_counts_okD(1,2) [OF assms(1)] assms(2,3)]
  by (simp add: slot_count_def)

lemma cum_count_step:
  assumes "0 \<le> k" "k < counts_len h"
  shows "cum_count h (k + 1) = cum_count h k + slot_count h k"
proof -
  have "{0..<k + 1} = insert k {0..<k}" using assms(1) by auto
  then show ?thesis using assms by (simp add: cum_count_def)
qed

lemma cum_count_zero [simp]: "k \<le> 0 \<Longrightarrow> cum_count h k = 0"
  by (simp add: cum_count_def)

lemma cum_count_full:
  "hdr_counts_ok h \<Longrightarrow> counts_len h \<le> k \<Longrightarrow> cum_count h k = total_count h"
  using sum_slot_count [of h] by (simp add: cum_count_def hdr_counts_ok_def)

lemma cum_count_rest:
  assumes "hdr_counts_ok h" "0 \<le> k"
  shows "total_count h = cum_count h k + sum (slot_count h) {k..<counts_len h}"
proof (cases "k \<le> counts_len h")
  case True
  have "{0..<counts_len h} = {0..<k} \<union> {k..<counts_len h}" using True assms(2) by auto
  then have "sum (slot_count h) {0..<counts_len h}
      = sum (slot_count h) {0..<k} + sum (slot_count h) {k..<counts_len h}"
    by (simp add: sum.union_disjoint)
  then show ?thesis
    using True sum_slot_count [OF hdr_counts_okD(1,2) [OF assms(1)]] hdr_counts_okD(3) [OF assms(1)]
    by (simp add: cum_count_def)
next
  case False
  then show ?thesis
    using assms by (simp add: cum_count_full)
qed

lemma cum_count_bounds:
  assumes "hdr_counts_ok h"
  shows "0 \<le> cum_count h k" "cum_count h k \<le> total_count h"
proof -
  show "0 \<le> cum_count h k"
    using slot_count_nonneg [OF assms] by (auto simp: cum_count_def intro!: sum_nonneg)
  have "0 \<le> sum (slot_count h) {max 0 k..<counts_len h}"
    using slot_count_nonneg [OF assms] by (auto intro!: sum_nonneg)
  then show "cum_count h k \<le> total_count h"
    using cum_count_rest [OF assms, of "max 0 k"]
    by (cases "0 \<le> k") (simp_all add: max_def)
qed

lemma cum_count_total_rest:
  assumes "hdr_counts_ok h" "total_count h \<le> cum_count h k" "0 \<le> k" "k \<le> i" "i < counts_len h"
  shows "slot_count h i = 0"
proof -
  have "sum (slot_count h) {k..<counts_len h} = 0"
    using cum_count_rest [OF assms(1,3)] cum_count_bounds(2) [OF assms(1), of k] assms(2) by simp
  then show ?thesis
    using slot_count_nonneg [OF assms(1)] assms(3-5)
    by (subst (asm) sum_nonneg_eq_0_iff) auto
qed

lemma size_mset_by_slot:
  assumes "finite S" "\<And>x. x \<in># M \<Longrightarrow> f x \<in> S"
  shows "int (size M) = (\<Sum>i\<in>S. int (size {#x \<in># M. f x = i#}))"
  using assms(2)
proof (induction M)
  case (add x M)
  have "(\<Sum>i\<in>S. int (size {#y \<in># add_mset x M. f y = i#}))
      = (\<Sum>i\<in>S. (if i = f x then 1 else 0) + int (size {#y \<in># M. f y = i#}))"
    by (rule sum.cong) auto
  also have "\<dots> = 1 + int (size M)"
    using add assms(1) by (simp add: sum.distrib sum.delta)
  finally show ?case by simp
qed simp

lemma hdr_abs_slot_count:
  assumes "hdr_abs h M" "0 \<le> i" "i < counts_len h"
  shows "slot_count h i = int (size {#v \<in># M. counts_index_for h v = i#})"
  using hdr_absD(4) [OF assms] counts_get_normalised_eq [OF hdr_absD(1,2) [OF assms(1)] assms(2,3)]
  by (simp add: slot_count_def)

lemma hdr_abs_counts_ok:
  assumes abs: "hdr_abs h M"
  shows "hdr_counts_ok h"
proof -
  note wf = hdr_absD(1,2) [OF abs]
  have "counts_index_for h v \<in> {0..<counts_len h}" if "v \<in># M" for v
    using trackableD [OF wf(1) hdr_absD(3) [OF abs that]] by simp
  then have "int (size M) = (\<Sum>i\<in>{0..<counts_len h}. int (size {#x \<in># M. counts_index_for h x = i#}))"
    by (rule size_mset_by_slot [where f = "counts_index_for h", OF finite_atLeastLessThan_int])
  also have "\<dots> = sum (slot_count h) {0..<counts_len h}"
    by (intro sum.cong) (simp_all add: hdr_abs_slot_count [OF abs])
  finally have sum: "sum_list (counts h) = total_count h"
    using sum_slot_count [OF wf] hdr_absD(5) [OF abs] by simp
  have "0 \<le> c" if c: "c \<in> set (counts h)" for c
  proof -
    obtain j where j: "j < length (counts h)" "c = counts h ! j"
      using c by (auto simp: in_set_conv_nth)
    have "int j \<in> normalize_index h ` {0..<counts_len h}"
      unfolding normalize_index_onto(2) [OF wf] using j hdr_config_wfD(11) [OF wf(1)] by simp
    then obtain i where i: "0 \<le> i" "i < counts_len h" "int j = normalize_index h i"
      by auto
    have "counts h ! j = slot_count h i"
      by (simp add: slot_count_def i(3) [symmetric])
    then show ?thesis
      using hdr_abs_slot_count [OF abs i(1,2)] j by simp
  qed
  then show ?thesis
    using wf sum hdr_absD(5,6) [OF abs] by (simp add: hdr_counts_ok_def)
qed

section \<open>The iterator invariant\<close>

definition iter_inv :: "hdr_iter \<Rightarrow> bool" where
  "iter_inv it \<longleftrightarrow>
     hdr_counts_ok (iter_h it) \<and> - 1 \<le> iter_counts_index it \<and>
     iter_cumulative_count it = cum_count (iter_h it) (iter_counts_index it + 1) \<and>
     iter_total_count it = total_count (iter_h it)"

definition at_slot :: "hdr_iter \<Rightarrow> bool" where
  "at_slot it \<longleftrightarrow>
     (let h = iter_h it; i = iter_counts_index it; v = hdr_value_at_index h i in
      0 \<le> i \<and> i < counts_len h \<and> iter_count it = slot_count h i \<and> iter_value it = v \<and>
      iter_lowest_equivalent_value it = v \<and>
      iter_highest_equivalent_value it = highest_equivalent_value h v \<and>
      iter_median_equivalent_value it = hdr_median_equivalent_value h v)"

lemma iter_init_inv: "hdr_counts_ok h \<Longrightarrow> iter_inv (hdr_iter_init it h)"
  by (simp add: iter_inv_def hdr_iter_init_def)

lemma value_at_index_lowest:
  assumes "hdr_config_wf h" "0 \<le> i" "i < counts_len h"
  shows "lowest_equivalent_value h (hdr_value_at_index h i) = hdr_value_at_index h i"
  using hdr.idx_val [OF assms] hdr.val_range [OF assms]
    value_at_counts_index_for [of h "hdr_value_at_index h i"] assms
  by simp

text \<open>The bounds the iterator computes from the bucket indices are those of its value.\<close>

lemma given_bucket_indices_eqs:
  "lowest_equivalent_value_given_bucket_indices h (get_bucket_index h v)
     (get_sub_bucket_index v (get_bucket_index h v) (unit_magnitude h)) = lowest_equivalent_value h v"
  "size_of_equivalent_value_range_given_bucket_indices h (get_bucket_index h v)
     (get_sub_bucket_index v (get_bucket_index h v) (unit_magnitude h))
     = hdr_size_of_equivalent_value_range h v"
  by (simp_all add: lowest_equivalent_value_given_bucket_indices_def lowest_equivalent_value_def
      size_of_equivalent_value_range_given_bucket_indices_def
      hdr_size_of_equivalent_value_range_def Let_def)

lemma move_next_inv:
  assumes inv: "iter_inv it"
  shows "\<exists>it'. move_next it = Some (iter_counts_index it + 1 < counts_len (iter_h it), it')
    \<and> iter_inv it' \<and> (iter_counts_index it + 1 < counts_len (iter_h it) \<longrightarrow> at_slot it')"
proof -
  define h k where "h = iter_h it" and "k = iter_counts_index it + 1"
  have ok: "hdr_counts_ok h" and k: "0 \<le> k"
    and cum: "iter_cumulative_count it = cum_count h k" "iter_total_count it = total_count h"
    using inv by (simp_all add: iter_inv_def h_def k_def)
  show ?thesis
  proof (cases "k < counts_len h")
    case False
    then have "cum_count h k = cum_count h (k + 1)"
      using ok by (simp add: cum_count_full)
    with False show ?thesis
      using ok k cum by (simp add: move_next_def has_buckets_def iter_inv_def h_def k_def)
  next
    case True
    let ?v = "hdr_value_at_index h k"
    have v: "0 \<le> ?v" "?v < value_limit"
      using hdr.val_range [OF hdr_counts_okD(1) [OF ok] k True] by simp_all
    have hi: "i64 (lowest_equivalent_value h ?v + hdr_size_of_equivalent_value_range h ?v - 1)
        = highest_equivalent_value h ?v"
      using highest_equivalent_value_eq [OF hdr_counts_okD(1) [OF ok] v]
        highest_equivalent_value_ge [OF hdr_counts_okD(1) [OF ok] v] v
      by (simp add: i64_nonneg_id)
    have step: "i64 (cum_count h k + slot_count h k) = cum_count h (k + 1)"
      using cum_count_step [OF k True] cum_count_bounds [OF ok, of "k + 1"] hdr_counts_okD(4) [OF ok]
      by (simp add: i64_nonneg_id)
    show ?thesis
      using True ok k cum hi step counts_get_slot_count [OF ok k True]
        value_at_index_lowest [OF hdr_counts_okD(1) [OF ok] k True]
      by (simp add: move_next_def has_buckets_def iter_inv_def at_slot_def Let_def
          given_bucket_indices_eqs h_def [symmetric] k_def [symmetric] hdr_median_equivalent_value_def)
  qed
qed

lemma basic_iter_next_inv:
  assumes inv: "iter_inv it"
  shows "basic_iter_next it = Some (False, it) \<and> \<not> has_next it
    \<or> (\<exists>it'. basic_iter_next it = Some (True, it') \<and> has_next it
         \<and> iter_counts_index it + 1 < counts_len (iter_h it) \<and> iter_inv it' \<and> at_slot it')"
proof (cases "has_next it")
  case True
  have "iter_counts_index it + 1 < counts_len (iter_h it)"
  proof (rule ccontr)
    assume "\<not> iter_counts_index it + 1 < counts_len (iter_h it)"
    then have "iter_cumulative_count it = iter_total_count it"
      using inv by (simp add: iter_inv_def cum_count_full)
    with True show False by (simp add: has_next_def)
  qed
  with True move_next_inv [OF inv] show ?thesis
    by (auto simp: basic_iter_next_def)
qed (simp add: basic_iter_next_def)

lemma iter_inv_update [simp]:
  "iter_inv (update_iterated_values it v) = iter_inv it"
  "iter_inv (it\<lparr>specifics := s\<rparr>) = iter_inv it"
  "at_slot (update_iterated_values it v) = at_slot it"
  "at_slot (it\<lparr>specifics := s\<rparr>) = at_slot it"
  by (simp_all add: iter_inv_def at_slot_def update_iterated_values_def)

lemma update_iterated_values_frame [simp]:
  "iter_h (update_iterated_values it v) = iter_h it"
  "iter_counts_index (update_iterated_values it v) = iter_counts_index it"
  "iter_count (update_iterated_values it v) = iter_count it"
  "iter_value (update_iterated_values it v) = iter_value it"
  "iter_cumulative_count (update_iterated_values it v) = iter_cumulative_count it"
  "iter_next_fp (update_iterated_values it v) = iter_next_fp it"
  "specifics (update_iterated_values it v) = specifics it"
  "value_iterated_to (update_iterated_values it v) = v"
  by (simp_all add: update_iterated_values_def)

section \<open>Walking the recorded slots\<close>

text \<open>The slots after \<open>k\<close>, all of them or the recorded ones, and what an iterator shows of a slot.\<close>

definition slots_after :: "hdr_histogram \<Rightarrow> int \<Rightarrow> int list" where
  "slots_after h k = [k + 1..counts_len h - 1]"

definition recorded_after :: "hdr_histogram \<Rightarrow> int \<Rightarrow> int list" where
  "recorded_after h k = filter (\<lambda>i. slot_count h i \<noteq> 0) (slots_after h k)"

definition slot_view :: "hdr_histogram \<Rightarrow> int \<Rightarrow> int \<times> int" where
  "slot_view h i = (hdr_value_at_index h i, slot_count h i)"

definition iter_view :: "hdr_iter \<Rightarrow> int \<times> int" where
  "iter_view it = (iter_value it, iter_count it)"

lemma slots_after_step:
  "slots_after h k = (if k + 1 < counts_len h then (k + 1) # slots_after h (k + 1) else [])"
  by (simp add: slots_after_def upto_rec1)

lemma recorded_after_step:
  "recorded_after h k =
     (if k + 1 < counts_len h
      then (if slot_count h (k + 1) \<noteq> 0 then [k + 1] else []) @ recorded_after h (k + 1) else [])"
  unfolding recorded_after_def by (subst slots_after_step) simp

lemma recorded_after_nil:
  assumes "iter_inv it" "\<not> has_next it"
  shows "recorded_after (iter_h it) (iter_counts_index it) = []"
  using assms cum_count_total_rest [of "iter_h it" "iter_counts_index it + 1"]
  by (auto simp: recorded_after_def slots_after_def filter_empty_conv iter_inv_def has_next_def)

lemma at_slot_view:
  "at_slot it \<Longrightarrow> iter_view it = slot_view (iter_h it) (iter_counts_index it)"
  by (simp add: at_slot_def iter_view_def slot_view_def Let_def)

lemma recorded_iter_next_spec:
  assumes "iter_inv it"
  shows "(recorded_after (iter_h it) (iter_counts_index it) = []
           \<longrightarrow> (\<exists>it'. recorded_iter_next it = Some (False, it') \<and> iter_inv it'))
    \<and> (\<forall>i is. recorded_after (iter_h it) (iter_counts_index it) = i # is
         \<longrightarrow> (\<exists>it'. recorded_iter_next it = Some (True, it') \<and> iter_inv it' \<and> at_slot it'
               \<and> iter_h it' = iter_h it \<and> iter_counts_index it' = i
               \<and> iter_next_fp it' = iter_next_fp it
               \<and> recorded_after (iter_h it) i = is))"
  using assms
proof (induction it rule: recorded_iter_next.induct)
  case (1 it)
  from basic_iter_next_inv [OF "1.prems"] show ?case
  proof (elim disjE exE conjE)
    assume "basic_iter_next it = Some (False, it)" "\<not> has_next it"
    then show ?thesis
      using recorded_after_nil [OF "1.prems"] "1.prems" by (simp add: recorded_iter_next.simps)
  next
    fix it' assume it': "basic_iter_next it = Some (True, it')"
      "iter_counts_index it + 1 < counts_len (iter_h it)" "iter_inv it'" "at_slot it'"
    note fr = basic_iter_next_frame [OF it'(1)]
    have c: "iter_count it' = slot_count (iter_h it) (iter_counts_index it + 1)"
      using it'(4) fr by (simp add: at_slot_def Let_def)
    have step: "recorded_after (iter_h it) (iter_counts_index it) =
        (if iter_count it' \<noteq> 0 then [iter_counts_index it'] else [])
        @ recorded_after (iter_h it') (iter_counts_index it')"
      by (subst recorded_after_step) (simp add: it'(2) c fr)
    show ?thesis
    proof (cases "iter_count it' = 0")
      case True
      with "1.IH" [OF it'(1) _ _ _ it'(3)] step fr it'(1) show ?thesis
        by (simp add: recorded_iter_next.simps [of it])
    next
      case False
      with step fr it' show ?thesis
        by (simp add: recorded_iter_next.simps [of it])
    qed
  qed
qed

definition walk_inv :: "next_fp \<Rightarrow> hdr_iter \<Rightarrow> bool" where
  "walk_inv fp it \<longleftrightarrow> iter_inv it \<and> iter_next_fp it = fp"

definition walk_all :: "hdr_iter \<Rightarrow> (int \<times> int) list" where
  "walk_all it = map (slot_view (iter_h it)) (slots_after (iter_h it) (iter_counts_index it))"

definition walk_recorded :: "hdr_iter \<Rightarrow> (int \<times> int) list" where
  "walk_recorded it = map (slot_view (iter_h it)) (recorded_after (iter_h it) (iter_counts_index it))"

lemma all_values_iter_next_spec:
  assumes "iter_inv it"
  shows "\<exists>it'. all_values_iter_next it = Some (iter_counts_index it + 1 < counts_len (iter_h it), it')
    \<and> iter_inv it' \<and> iter_h it' = iter_h it \<and> iter_counts_index it' = iter_counts_index it + 1
    \<and> iter_next_fp it' = iter_next_fp it
    \<and> (iter_counts_index it + 1 < counts_len (iter_h it) \<longrightarrow> at_slot it')"
proof -
  obtain it1 where m: "move_next it = Some (iter_counts_index it + 1 < counts_len (iter_h it), it1)"
      "iter_inv it1" "iter_counts_index it + 1 < counts_len (iter_h it) \<longrightarrow> at_slot it1"
    using move_next_inv [OF assms] by blast
  note fr = move_next_frame(1,2,5) [OF m(1)]
  let ?it = "if iter_counts_index it + 1 < counts_len (iter_h it)
             then update_iterated_values it1 (iter_value it1) else it1"
  have "all_values_iter_next it = Some (iter_counts_index it + 1 < counts_len (iter_h it), ?it)"
    by (simp add: all_values_iter_next_def m(1))
  then show ?thesis
    using m(2,3) fr by (intro exI [of _ ?it]) simp
qed

interpretation all_values: walker hdr_iter_next "walk_inv All_Values_Next" iter_view walk_all
proof
  fix it assume inv: "walk_inv All_Values_Next it" and nil: "walk_all it = []"
  then show "\<exists>it'. hdr_iter_next it = Some (False, it')"
    using all_values_iter_next_spec [of it] slots_after_step [of "iter_h it" "iter_counts_index it"]
    by (auto simp: walk_inv_def walk_all_def hdr_iter_next_def split: if_splits)
next
  fix it x xs assume inv: "walk_inv All_Values_Next it" and cons: "walk_all it = x # xs"
  obtain it' where it': "all_values_iter_next it
        = Some (iter_counts_index it + 1 < counts_len (iter_h it), it')" "iter_inv it'"
      "iter_h it' = iter_h it" "iter_counts_index it' = iter_counts_index it + 1"
      "iter_next_fp it' = iter_next_fp it"
      "iter_counts_index it + 1 < counts_len (iter_h it) \<longrightarrow> at_slot it'"
    using all_values_iter_next_spec [of it] inv by (auto simp: walk_inv_def)
  show "\<exists>it'. hdr_iter_next it = Some (True, it') \<and> walk_inv All_Values_Next it' \<and> iter_view it' = x
      \<and> walk_all it' = xs"
    using inv cons it' at_slot_view [of it'] slots_after_step [of "iter_h it" "iter_counts_index it"]
    by (auto simp: walk_inv_def walk_all_def hdr_iter_next_def split: if_splits)
qed

interpretation recorded: walker hdr_iter_next "walk_inv Recorded_Next" iter_view walk_recorded
proof
  fix it assume inv: "walk_inv Recorded_Next it" and nil: "walk_recorded it = []"
  then show "\<exists>it'. hdr_iter_next it = Some (False, it')"
    using recorded_iter_next_spec [of it] by (auto simp: walk_inv_def walk_recorded_def hdr_iter_next_def)
next
  fix it x xs assume inv: "walk_inv Recorded_Next it" and cons: "walk_recorded it = x # xs"
  then obtain i "is" where i: "recorded_after (iter_h it) (iter_counts_index it) = i # is"
      "x = slot_view (iter_h it) i" "xs = map (slot_view (iter_h it)) is"
    by (auto simp: walk_recorded_def)
  obtain it' where "recorded_iter_next it = Some (True, it')" "iter_inv it'" "at_slot it'"
      "iter_h it' = iter_h it" "iter_counts_index it' = i" "iter_next_fp it' = iter_next_fp it"
      "recorded_after (iter_h it) i = is"
    using recorded_iter_next_spec [of it] inv i(1) by (auto simp: walk_inv_def)
  then show "\<exists>it'. hdr_iter_next it = Some (True, it') \<and> walk_inv Recorded_Next it' \<and> iter_view it' = x
      \<and> walk_recorded it' = xs"
    using inv i(2,3) at_slot_view [of it'] by (simp add: walk_inv_def walk_recorded_def hdr_iter_next_def)
qed

lemma walk_init:
  assumes "hdr_counts_ok h"
  shows "walk_inv All_Values_Next (hdr_iter_init it h)"
    "walk_all (hdr_iter_init it h) = map (slot_view h) [0..counts_len h - 1]"
    "walk_inv Recorded_Next (hdr_iter_recorded_init it h)"
    "walk_recorded (hdr_iter_recorded_init it h)
       = map (slot_view h) (filter (\<lambda>i. slot_count h i \<noteq> 0) [0..counts_len h - 1])"
  using iter_init_inv [OF assms, of it] assms
  by (simp_all add: walk_inv_def walk_all_def walk_recorded_def slots_after_def recorded_after_def
      hdr_iter_recorded_init_def hdr_iter_init_def iter_inv_def)

section \<open>Linear, logarithmic and percentile steps\<close>

text \<open>
  A linear or logarithmic step accounts for every count it passes: the count of the step is the
  growth of the cumulative count.
\<close>

lemma iter_inv_cum:
  assumes "iter_inv it"
  shows "0 \<le> iter_cumulative_count it" "iter_cumulative_count it \<le> iter_total_count it"
    "iter_total_count it \<le> INT64_MAX"
  using assms cum_count_bounds [of "iter_h it"] hdr_counts_okD(4) [of "iter_h it"]
  by (simp_all add: iter_inv_def)

lemma move_next_cum:
  assumes "iter_inv it" "move_next it = Some (b, it')"
  shows "iter_inv it'"
    "iter_cumulative_count it' = iter_cumulative_count it + (if b then iter_count it' else 0)"
    "b \<Longrightarrow> 0 \<le> iter_count it'"
proof -
  let ?k = "iter_counts_index it + 1"
  note fr = move_next_frame [OF assms(2)]
  have it': "iter_inv it'" "b \<longrightarrow> at_slot it'"
    using move_next_inv [OF assms(1)] assms(2) fr(6) by auto
  show "iter_inv it'" by (rule it'(1))
  have ok: "hdr_counts_ok (iter_h it)" "0 \<le> ?k"
    using assms(1) by (simp_all add: iter_inv_def)
  show "b \<Longrightarrow> 0 \<le> iter_count it'"
    using it'(2) slot_count_nonneg [OF ok(1)] fr(1) by (simp add: at_slot_def Let_def)
  have cums: "iter_cumulative_count it' = cum_count (iter_h it) (?k + 1)"
    "iter_cumulative_count it = cum_count (iter_h it) ?k"
    using it'(1) assms(1) fr by (simp_all add: iter_inv_def)
  show "iter_cumulative_count it' = iter_cumulative_count it + (if b then iter_count it' else 0)"
  proof (cases b)
    case True
    then show ?thesis
      using cums it'(2) fr cum_count_step [OF ok(2), of "iter_h it"] by (simp add: at_slot_def Let_def)
  next
    case False
    then show ?thesis
      using cums fr(2,6) cum_count_full [OF ok(1)] by simp
  qed
qed

lemma linear_loop_spec:
  assumes "iter_inv it" "iter_cumulative_count it = c0 + linear_count_added l" "0 \<le> c0" "0 \<le> linear_count_added l"
  shows "\<exists>it' l'. linear_loop l it = Some (True, it') \<and> iter_inv it' \<and> specifics it' = Linear l'
    \<and> iter_cumulative_count it' = c0 + linear_count_added l' \<and> iter_h it' = iter_h it
    \<and> iter_next_fp it' = iter_next_fp it \<and> 0 \<le> linear_count_added l'"
  using assms
proof (induction l it rule: linear_loop.induct)
  case (1 l it)
  show ?case
  proof (cases "iter_value it \<ge> linear_next_level_lowest l")
    case True
    then show ?thesis
      using "1.prems" by (simp add: linear_loop.simps [of l it] Let_def)
  next
    case False
    obtain b it1 where m: "move_next it = Some (b, it1)"
      using move_next_inv [OF "1.prems"(1)] by blast
    note fr = move_next_frame [OF m] and cum = move_next_cum [OF "1.prems"(1) m]
    show ?thesis
    proof (cases b)
      case False
      then show ?thesis
        using "1.prems" m fr cum \<open>\<not> linear_next_level_lowest l \<le> iter_value it\<close>
        by (simp add: linear_loop.simps [of l it])
    next
      case True
      let ?l = "l\<lparr>linear_count_added := i64 (linear_count_added l + iter_count it1)\<rparr>"
      have "linear_count_added l + iter_count it1 \<le> INT64_MAX"
        using iter_inv_cum [OF cum(1)] cum(2) True "1.prems" by simp
      then have added: "linear_count_added ?l = linear_count_added l + iter_count it1"
        using "1.prems"(4) cum(3) True by (simp add: i64_nonneg_id)
      have "\<exists>it' l'. linear_loop ?l it1 = Some (True, it') \<and> iter_inv it' \<and> specifics it' = Linear l'
          \<and> iter_cumulative_count it' = c0 + linear_count_added l' \<and> iter_h it' = iter_h it1
          \<and> iter_next_fp it' = iter_next_fp it1 \<and> 0 \<le> linear_count_added l'"
        using "1.IH" [of "(b, it1)" b it1] False m True cum "1.prems" added by simp
      then show ?thesis
        using m True False fr by (simp add: linear_loop.simps [of l it])
    qed
  qed
qed

lemma log_loop_spec:
  assumes "iter_inv it" "iter_cumulative_count it = c0 + log_count_added l" "0 \<le> c0" "0 \<le> log_count_added l"
  shows "\<exists>it' l'. log_loop l it = Some (True, it') \<and> iter_inv it' \<and> specifics it' = Logarithmic l'
    \<and> iter_cumulative_count it' = c0 + log_count_added l' \<and> iter_h it' = iter_h it
    \<and> iter_next_fp it' = iter_next_fp it \<and> 0 \<le> log_count_added l'"
  using assms
proof (induction l it rule: log_loop.induct)
  case (1 l it)
  show ?case
  proof (cases "iter_value it \<ge> log_next_level_lowest l")
    case True
    then show ?thesis
      using "1.prems" by (simp add: log_loop.simps [of l it] Let_def)
  next
    case False
    obtain b it1 where m: "move_next it = Some (b, it1)"
      using move_next_inv [OF "1.prems"(1)] by blast
    note fr = move_next_frame [OF m] and cum = move_next_cum [OF "1.prems"(1) m]
    show ?thesis
    proof (cases b)
      case False
      then show ?thesis
        using "1.prems" m fr cum \<open>\<not> log_next_level_lowest l \<le> iter_value it\<close>
        by (simp add: log_loop.simps [of l it])
    next
      case True
      let ?l = "l\<lparr>log_count_added := i64 (log_count_added l + iter_count it1)\<rparr>"
      have "log_count_added l + iter_count it1 \<le> INT64_MAX"
        using iter_inv_cum [OF cum(1)] cum(2) True "1.prems" by simp
      then have added: "log_count_added ?l = log_count_added l + iter_count it1"
        using "1.prems"(4) cum(3) True by (simp add: i64_nonneg_id)
      have "\<exists>it' l'. log_loop ?l it1 = Some (True, it') \<and> iter_inv it' \<and> specifics it' = Logarithmic l'
          \<and> iter_cumulative_count it' = c0 + log_count_added l' \<and> iter_h it' = iter_h it1
          \<and> iter_next_fp it' = iter_next_fp it1 \<and> 0 \<le> log_count_added l'"
        using "1.IH" [of "(b, it1)" b it1] False m True cum "1.prems" added by simp
      then show ?thesis
        using m True False fr by (simp add: log_loop.simps [of l it])
    qed
  qed
qed

lemma percentile_loop_spec:
  assumes "iter_inv it" "at_slot it" "0 < iter_total_count it" "has_next it \<or> iter_count it \<noteq> 0"
    "percentile_to_iterate_to ps \<le> 100"
  shows "\<exists>it'. percentile_loop ps it = Some (True, it') \<and> iter_inv it' \<and> at_slot it' \<and> iter_count it' \<noteq> 0
    \<and> iter_h it' = iter_h it \<and> iter_next_fp it' = iter_next_fp it
    \<and> specifics it' = Percentiles (ps\<lparr>percentile := percentile_to_iterate_to ps,
         percentile_to_iterate_to := percentile_to_iterate_to ps + percentile_step ps\<rparr>)
    \<and> value_iterated_to it' = highest_equivalent_value (iter_h it) (iter_value it')
    \<and> percentile_to_iterate_to ps
         \<le> 100 * real_of_int (iter_cumulative_count it') / real_of_int (total_count (iter_h it))"
  using assms
proof (induction ps it rule: percentile_loop.induct)
  case (1 ps it)
  let ?hit = "iter_count it \<noteq> 0 \<and> percentile_to_iterate_to ps
    \<le> 100 * real_of_int (iter_cumulative_count it) / real_of_int (total_count (iter_h it))"
  show ?case
  proof (cases ?hit)
    case True
    with "1.prems" show ?thesis by (simp add: percentile_loop.simps [of ps it] Let_def)
  next
    case False
    have tot: "iter_total_count it = total_count (iter_h it)" "total_count (iter_h it) \<noteq> 0"
      using "1.prems"(1,3) by (auto simp: iter_inv_def)
    have nxt: "has_next it"
    proof (rule ccontr)
      assume "\<not> has_next it"
      then have "iter_cumulative_count it = total_count (iter_h it)"
        using iter_inv_cum(2) [OF "1.prems"(1)] tot by (simp add: has_next_def)
      with False "1.prems"(4,5) \<open>\<not> has_next it\<close> tot(2) show False by simp
    qed
    then obtain it1 where it1: "basic_iter_next it = Some (True, it1)" "iter_inv it1" "at_slot it1"
        "iter_counts_index it + 1 < counts_len (iter_h it)"
      using basic_iter_next_inv [OF "1.prems"(1)] by blast
    note fr = basic_iter_next_frame [OF it1(1)]
    obtain b where "move_next it = Some (b, it1)"
      using it1(1) nxt fr(3) by (auto simp: basic_iter_next_def split: option.splits)
    then have "has_next it1 \<or> iter_count it1 \<noteq> 0"
      using move_next_cum(2) [OF "1.prems"(1)] nxt fr(4) by (auto simp: has_next_def)
    with "1.IH" [OF refl, of "(True, it1)" True it1] it1 fr "1.prems" False show ?thesis
      by (simp add: percentile_loop.simps [of ps it])
  qed
qed

text \<open>The integer logarithm in \<open>percentile_step\<close> is the truncated logarithm of the source.\<close>

lemma le_floor_log_iff:
  fixes y :: real
  assumes "1 \<le> y" "0 \<le> n"
  shows "n \<le> \<lfloor>log 2 y\<rfloor> \<longleftrightarrow> 2 ^ nat n \<le> y"
  using assms by (simp add: le_floor_iff le_log_iff powr_real_of_int)

lemma floor_log2_floor:
  fixes q :: real
  assumes "1 \<le> q"
  shows "floor_log2 \<lfloor>q\<rfloor> = \<lfloor>log 2 q\<rfloor>"
proof -
  have q: "1 \<le> \<lfloor>q\<rfloor>" using assms by (simp add: le_floor_iff)
  then have r: "1 \<le> real_of_int \<lfloor>q\<rfloor>" by simp
  have pow: "(2::real) ^ k \<le> q \<longleftrightarrow> 2 ^ k \<le> real_of_int \<lfloor>q\<rfloor>" for k
    using le_floor_iff [of "2 ^ k" q] by (metis of_int_le_iff of_int_numeral of_int_power)
  have "n \<le> \<lfloor>log 2 (real_of_int \<lfloor>q\<rfloor>)\<rfloor> \<longleftrightarrow> n \<le> \<lfloor>log 2 q\<rfloor>" if "0 \<le> n" for n
    using le_floor_log_iff [OF r that] le_floor_log_iff [OF assms that] pow by simp
  moreover have "0 \<le> \<lfloor>log 2 q\<rfloor>" "0 \<le> \<lfloor>log 2 (real_of_int \<lfloor>q\<rfloor>)\<rfloor>"
    using assms r by (simp_all add: le_floor_iff)
  ultimately have "\<lfloor>log 2 (real_of_int \<lfloor>q\<rfloor>)\<rfloor> = \<lfloor>log 2 q\<rfloor>"
    by (meson order.antisym order.refl)
  then show ?thesis
    using floor_log2_correct [of "\<lfloor>q\<rfloor>"] q by simp
qed

lemma percentile_step_bounds:
  fixes ps
  defines "p \<equiv> percentile_to_iterate_to ps"
  defines "d \<equiv> 2 ^ nat (floor_log2 \<lfloor>100 / (100 - p)\<rfloor> + 1)"
  assumes p: "0 \<le> p" "p < 100" and ticks: "1 \<le> ticks_per_half_distance ps"
    and room: "ticks_per_half_distance ps * d \<le> INT64_MAX"
  shows "0 < percentile_step ps" "p + percentile_step ps < 100"
proof -
  define q where "q = 100 / (100 - p)"
  define l where "l = \<lfloor>log 2 q\<rfloor>"
  have q: "1 \<le> q" using p by (simp add: q_def)
  have l: "floor_log2 \<lfloor>q\<rfloor> = l" "0 \<le> l"
    using floor_log2_floor [OF q] q by (simp_all add: l_def le_floor_iff)
  have "\<not> l + 1 \<le> l" by simp
  then have "q < 2 ^ nat (l + 1)"
    using le_floor_log_iff [OF q, of "l + 1"] l(2) by (simp add: l_def)
  then have dq: "q < real_of_int d"
    using l(1) by (simp add: d_def q_def)
  have d: "0 < d" by (simp add: d_def)
  define t where "t = ticks_per_half_distance ps * d"
  have dt: "d \<le> t"
    using d ticks mult_right_mono [of 1 "ticks_per_half_distance ps" d] by (simp add: t_def)
  have step: "percentile_step ps = 100 / real_of_int t"
    using room d dt by (simp add: percentile_step_def Let_def d_def p_def t_def i64_nonneg_id)
  have t: "q < real_of_int t" using dq dt by (smt (verit) of_int_le_iff)
  then have t0: "0 < real_of_int t" using q by simp
  with step show "0 < percentile_step ps" by simp
  have "100 < real_of_int t * (100 - p)"
    using t p by (simp add: q_def pos_divide_less_eq)
  then have "percentile_step ps < 100 - p"
    using step t0 by (simp add: pos_divide_less_eq mult.commute)
  then show "p + percentile_step ps < 100" by simp
qed

lemma percentile_iter_next_spec:
  assumes inv: "iter_inv it" and sp: "specifics it = Percentiles ps" and nxt: "has_next it"
    and p: "percentile_to_iterate_to ps \<le> 100"
    and slot: "iter_counts_index it = - 1 \<or> at_slot it"
  shows "\<exists>it'. percentile_iter_next it = Some (True, it') \<and> iter_inv it' \<and> at_slot it' \<and> iter_count it' \<noteq> 0
    \<and> iter_h it' = iter_h it \<and> iter_next_fp it' = iter_next_fp it
    \<and> specifics it' = Percentiles (ps\<lparr>percentile := percentile_to_iterate_to ps,
         percentile_to_iterate_to := percentile_to_iterate_to ps + percentile_step ps\<rparr>)
    \<and> value_iterated_to it' = highest_equivalent_value (iter_h it) (iter_value it')
    \<and> percentile_to_iterate_to ps
         \<le> 100 * real_of_int (iter_cumulative_count it') / real_of_int (total_count (iter_h it))"
proof (cases "iter_counts_index it = - 1")
  case False
  have "0 < iter_total_count it"
    using nxt iter_inv_cum(1) [OF inv] by (simp add: has_next_def)
  with False show ?thesis
    using percentile_loop_spec [OF inv _ _ _ p] slot nxt sp by (simp add: percentile_iter_next_def)
next
  case True
  obtain it1 where it1: "basic_iter_next it = Some (True, it1)" "iter_inv it1" "at_slot it1"
    using basic_iter_next_inv [OF inv] nxt by blast
  note fr = basic_iter_next_frame [OF it1(1)]
  obtain b where "move_next it = Some (b, it1)"
    using it1(1) nxt fr(3) by (auto simp: basic_iter_next_def split: option.splits)
  then have "has_next it1 \<or> iter_count it1 \<noteq> 0"
    using move_next_cum(2) [OF inv] nxt fr(4) by (auto simp: has_next_def)
  moreover have "0 < iter_total_count it1"
    using nxt iter_inv_cum(1) [OF inv] fr(4) by (simp add: has_next_def)
  ultimately show ?thesis
    using percentile_loop_spec [OF it1(2,3) _ _ p] True nxt sp it1(1) fr
    by (simp add: percentile_iter_next_def)
qed

lemma percentile_loop_safe:
  assumes "iter_inv it" "specifics it = Percentiles ps0"
  shows "\<exists>it' ps'. percentile_loop ps it = Some (True, it') \<and> iter_inv it' \<and> iter_h it' = iter_h it
    \<and> iter_next_fp it' = iter_next_fp it \<and> specifics it' = Percentiles ps'"
  using assms
proof (induction ps it rule: percentile_loop.induct)
  case (1 ps it)
  let ?hit = "iter_count it \<noteq> 0 \<and> percentile_to_iterate_to ps
    \<le> 100 * real_of_int (iter_cumulative_count it) / real_of_int (total_count (iter_h it))"
  show ?case
  proof (cases ?hit)
    case True
    with "1.prems" show ?thesis by (simp add: percentile_loop.simps [of ps it] Let_def)
  next
    case False
    from basic_iter_next_inv [OF "1.prems"(1)] show ?thesis
    proof (elim disjE exE conjE)
      assume "basic_iter_next it = Some (False, it)"
      with False "1.prems" show ?thesis by (auto simp: percentile_loop.simps [of ps it])
    next
      fix it1 assume it1: "basic_iter_next it = Some (True, it1)" "iter_inv it1"
      note fr = basic_iter_next_frame [OF it1(1)]
      with "1.IH" [OF refl, of "(True, it1)" True it1] it1 "1.prems" False show ?thesis
        by (simp add: percentile_loop.simps [of ps it])
    qed
  qed
qed

text \<open>An iterator as its initialiser leaves it: the invariant, and the union member of its kind.\<close>

definition iter_ok :: "hdr_iter \<Rightarrow> bool" where
  "iter_ok it \<longleftrightarrow> iter_inv it \<and>
     (case iter_next_fp it of
        Percentile_Next \<Rightarrow> (case specifics it of Percentiles _ \<Rightarrow> True | _ \<Rightarrow> False)
      | Linear_Next \<Rightarrow> (case specifics it of Linear _ \<Rightarrow> True | _ \<Rightarrow> False)
      | Log_Next \<Rightarrow> (case specifics it of Logarithmic _ \<Rightarrow> True | _ \<Rightarrow> False)
      | _ \<Rightarrow> True)"

lemma percentile_iter_next_safe:
  assumes inv: "iter_inv it" and sp: "specifics it = Percentiles ps"
  shows "\<exists>b it' ps'. percentile_iter_next it = Some (b, it') \<and> iter_inv it' \<and> iter_h it' = iter_h it
    \<and> iter_next_fp it' = iter_next_fp it \<and> specifics it' = Percentiles ps'"
proof (cases "has_next it \<and> iter_counts_index it = - 1")
  case True
  then obtain it1 where it1: "basic_iter_next it = Some (True, it1)" "iter_inv it1"
    using basic_iter_next_inv [OF inv] by blast
  note fr = basic_iter_next_frame [OF it1(1)]
  then show ?thesis
    using percentile_loop_safe [of it1 ps ps] True sp it1 by (auto simp: percentile_iter_next_def)
next
  case False
  then show ?thesis
    using percentile_loop_safe [OF inv sp, of ps] sp inv by (auto simp: percentile_iter_next_def)
qed

lemma recorded_iter_next_safe:
  assumes inv: "iter_inv it"
  shows "\<exists>b it'. recorded_iter_next it = Some (b, it') \<and> iter_inv it' \<and> iter_h it' = iter_h it
    \<and> iter_next_fp it' = iter_next_fp it"
  using inv
proof (induction it rule: recorded_iter_next.induct)
  case (1 it)
  from basic_iter_next_inv [OF "1.prems"] show ?case
  proof (elim disjE exE conjE)
    assume "basic_iter_next it = Some (False, it)"
    with "1.prems" show ?thesis by (auto simp: recorded_iter_next.simps [of it])
  next
    fix it1 assume it1: "basic_iter_next it = Some (True, it1)" "iter_inv it1"
    note fr = basic_iter_next_frame [OF it1(1)]
    with "1.IH" [OF it1(1) _ _ _ it1(2)] it1 show ?thesis
      by (cases "iter_count it1 = 0") (auto simp: recorded_iter_next.simps [of it])
  qed
qed

lemma iter_linear_next_spec:
  assumes "iter_inv it" "specifics it = Linear l"
  shows "\<exists>b it' l'. iter_linear_next it = Some (b, it') \<and> iter_inv it' \<and> specifics it' = Linear l'
    \<and> iter_cumulative_count it' = iter_cumulative_count it + linear_count_added l'
    \<and> iter_h it' = iter_h it \<and> iter_next_fp it' = iter_next_fp it
    \<and> (\<not> b \<longrightarrow> iter_cumulative_count it' = iter_total_count it)"
  using linear_loop_spec [of "it\<lparr>specifics := Linear (l\<lparr>linear_count_added := 0\<rparr>)\<rparr>"
      "iter_cumulative_count it" "l\<lparr>linear_count_added := 0\<rparr>"] assms iter_inv_cum [OF assms(1)]
  by (auto simp: iter_linear_next_def Let_def has_next_def)

lemma log_iter_next_spec:
  assumes "iter_inv it" "specifics it = Logarithmic l"
  shows "\<exists>b it' l'. log_iter_next it = Some (b, it') \<and> iter_inv it' \<and> specifics it' = Logarithmic l'
    \<and> iter_cumulative_count it' = iter_cumulative_count it + log_count_added l'
    \<and> iter_h it' = iter_h it \<and> iter_next_fp it' = iter_next_fp it
    \<and> (\<not> b \<longrightarrow> iter_cumulative_count it' = iter_total_count it)"
  using log_loop_spec [of "it\<lparr>specifics := Logarithmic (l\<lparr>log_count_added := 0\<rparr>)\<rparr>"
      "iter_cumulative_count it" "l\<lparr>log_count_added := 0\<rparr>"] assms iter_inv_cum [OF assms(1)]
  by (auto simp: log_iter_next_def Let_def has_next_def)

lemma iter_inits_ok:
  assumes "hdr_counts_ok h"
  shows "iter_ok (hdr_iter_init it h)" "iter_ok (hdr_iter_recorded_init it h)"
    "iter_ok (hdr_iter_percentile_init it h ticks)" "iter_ok (hdr_iter_linear_init it h units)"
    "iter_ok (hdr_iter_log_init it h units base)"
  using assms
  by (simp_all add: iter_ok_def iter_inv_def hdr_iter_init_def hdr_iter_recorded_init_def
      hdr_iter_percentile_init_def hdr_iter_linear_init_def hdr_iter_log_init_def)

text \<open>An iterator in memory before it is initialised.\<close>

definition blank_iter :: "hdr_histogram \<Rightarrow> hdr_iter" where
  "blank_iter h =
     \<lparr>iter_h = h, iter_counts_index = 0, iter_total_count = 0, iter_count = 0,
      iter_cumulative_count = 0, iter_value = 0, iter_highest_equivalent_value = 0,
      iter_lowest_equivalent_value = 0, iter_median_equivalent_value = 0, value_iterated_from = 0,
      value_iterated_to = 0, specifics = No_Specifics, iter_next_fp = All_Values_Next\<rparr>"

lemma small_histogram_counts_ok: "hdr_counts_ok small_histogram"
  by (rule hdr_abs_counts_ok [OF small_histogram_abs])

lemma sample_histogram_counts_ok: "hdr_counts_ok sample_histogram"
  by (rule hdr_abs_counts_ok [OF sample_histogram_abs])

section \<open>Properties\<close>



text \<open>A loop over the recorded-values iterator terminates and visits exactly the slots with a
  non-zero count, in increasing order, each once, with the lowest value of the slot and its count.\<close>

theorem recorded_iteration_complete:
  assumes "hdr_counts_ok h"
  shows "while_next hdr_iter_next (\<lambda>_. True) (\<lambda>it seen. Some (seen @ [(iter_value it, iter_count it)]))
      (hdr_iter_recorded_init it h) []
    = Some (map (\<lambda>i. (hdr_value_at_index h i, slot_count h i))
        (filter (\<lambda>i. slot_count h i \<noteq> 0) [0..counts_len h - 1]))"
proof -
  have collect: "fold (\<lambda>x seen. seen @ [x]) xs ys = ys @ xs" for xs ys :: "(int \<times> int) list"
    by (induction xs arbitrary: ys) auto
  show ?thesis
    using recorded.while_next_fold [OF walk_init(3) [OF assms],
        of "\<lambda>it seen. Some (seen @ [(iter_value it, iter_count it)])" "\<lambda>x seen. Some (seen @ [x])"]
    by (simp add: iter_view_def walk_init(4) [OF assms] fold_while_pure collect slot_view_def)
qed

theorem recorded_iteration_complete_witness:
  "while_next hdr_iter_next (\<lambda>_. True) (\<lambda>it seen. Some (seen @ [(iter_value it, iter_count it)]))
     (hdr_iter_recorded_init (blank_iter sample_histogram) sample_histogram) [] = Some [(5, 1), (96, 2)]"
proof -
  have "map (\<lambda>i. (hdr_value_at_index sample_histogram i, slot_count sample_histogram i))
      (filter (\<lambda>i. slot_count sample_histogram i \<noteq> 0) [0..counts_len sample_histogram - 1]) = [(5, 1), (96, 2)]"
    by code_simp
  then show ?thesis
    using recorded_iteration_complete [OF sample_histogram_counts_ok, of "blank_iter sample_histogram"] by simp
qed

text \<open>A step of the linear iterator and of the logarithmic iterator accounts for every recorded
  value it passes: the count of the step is the growth of the cumulative count, and the iteration
  ends only when every recorded value has been counted.\<close>

theorem interval_iteration_conserves:
  assumes "iter_ok it" "iter_next_fp it = Linear_Next \<or> iter_next_fp it = Log_Next"
  shows "\<exists>b it' c. hdr_iter_next it = Some (b, it')
    \<and> (case specifics it' of
         Linear l \<Rightarrow> linear_count_added l = c
       | Logarithmic l \<Rightarrow> log_count_added l = c
       | _ \<Rightarrow> False)
    \<and> iter_cumulative_count it' = iter_cumulative_count it + c
    \<and> (b \<or> iter_cumulative_count it' = iter_total_count it)"
  using assms(2)
proof
  assume fp: "iter_next_fp it = Linear_Next"
  then obtain l where "iter_inv it" "specifics it = Linear l"
    using assms(1) by (auto simp: iter_ok_def split: iter_specifics.splits)
  then obtain b it' l' where "iter_linear_next it = Some (b, it')" "specifics it' = Linear l'"
      "iter_cumulative_count it' = iter_cumulative_count it + linear_count_added l'"
      "\<not> b \<longrightarrow> iter_cumulative_count it' = iter_total_count it"
    using iter_linear_next_spec by blast
  with fp show ?thesis
    by (intro exI [of _ b] exI [of _ it'] exI [of _ "linear_count_added l'"])
      (auto simp: hdr_iter_next_def)
next
  assume fp: "iter_next_fp it = Log_Next"
  then obtain l where "iter_inv it" "specifics it = Logarithmic l"
    using assms(1) by (auto simp: iter_ok_def split: iter_specifics.splits)
  then obtain b it' l' where "log_iter_next it = Some (b, it')" "specifics it' = Logarithmic l'"
      "iter_cumulative_count it' = iter_cumulative_count it + log_count_added l'"
      "\<not> b \<longrightarrow> iter_cumulative_count it' = iter_total_count it"
    using log_iter_next_spec by blast
  with fp show ?thesis
    by (intro exI [of _ b] exI [of _ it'] exI [of _ "log_count_added l'"])
      (auto simp: hdr_iter_next_def)
qed

theorem interval_iteration_conserves_witness:
  "\<exists>b it'. hdr_iter_next (hdr_iter_linear_init (blank_iter small_histogram) small_histogram 10) = Some (b, it')"
  using interval_iteration_conserves
      [OF iter_inits_ok(4) [OF small_histogram_counts_ok, of "blank_iter small_histogram" 10]]
  by (auto simp: hdr_iter_linear_init_def)

text \<open>A step of the percentile iterator on a histogram with values left stops at a recorded value
  whose cumulative percentage has reached the level asked for, reports that level, and raises the
  next level strictly while it stays below 100.\<close>

theorem percentile_iteration_step:
  assumes "iter_inv it" "iter_next_fp it = Percentile_Next" "specifics it = Percentiles ps"
    "has_next it" "iter_counts_index it = - 1 \<or> at_slot it"
    and "0 \<le> percentile_to_iterate_to ps" "percentile_to_iterate_to ps < 100"
    and "1 \<le> ticks_per_half_distance ps"
    and "ticks_per_half_distance ps
           * 2 ^ nat (floor_log2 \<lfloor>100 / (100 - percentile_to_iterate_to ps)\<rfloor> + 1) \<le> INT64_MAX"
  shows "\<exists>it' ps'. hdr_iter_next it = Some (True, it') \<and> specifics it' = Percentiles ps'
    \<and> at_slot it' \<and> iter_count it' \<noteq> 0
    \<and> percentile ps' = percentile_to_iterate_to ps
    \<and> percentile ps' \<le> 100 * real_of_int (iter_cumulative_count it') / real_of_int (total_count (iter_h it))
    \<and> percentile_to_iterate_to ps < percentile_to_iterate_to ps'
    \<and> percentile_to_iterate_to ps' < 100"
  using percentile_iter_next_spec [OF assms(1,3,4) _ assms(5)] percentile_step_bounds [OF assms(6-9)]
    assms(2,7)
  by (auto simp: hdr_iter_next_def)

theorem percentile_iteration_step_witness:
  "\<exists>it' ps'. hdr_iter_next (hdr_iter_percentile_init (blank_iter sample_histogram) sample_histogram 5)
       = Some (True, it') \<and> specifics it' = Percentiles ps' \<and> iter_count it' \<noteq> 0 \<and> percentile ps' = 0"
proof -
  let ?it = "hdr_iter_percentile_init (blank_iter sample_histogram) sample_histogram 5"
  have "iter_inv ?it" "has_next ?it"
    using iter_inits_ok(3) [OF sample_histogram_counts_ok] cum_count_zero
    by (simp_all add: iter_ok_def has_next_def hdr_iter_percentile_init_def hdr_iter_init_def
        sample_histogram_def)
  moreover have "floor_log2 1 = 0" by code_simp
  ultimately show ?thesis
    using percentile_iteration_step [of ?it "\<lparr>seen_last_value = False, ticks_per_half_distance = 5,
        percentile_to_iterate_to = 0, percentile = 0\<rparr>"]
    by (auto simp: hdr_iter_percentile_init_def hdr_iter_init_def)
qed

end
