(* ===== verification/Hdr_Values.thy ===== *)
theory Hdr_Values
  imports Hdr_Iter
begin

text \<open>
  The clients of the iterators in \<^verbatim>\<open>hdr_histogram.c\<close>: merging histograms, percentiles, mean and
  standard deviation. Their loops are written with \<open>while_next\<close>; the contracts of the iterators turn
  them into folds over the slots. A local iterator is the arbitrary memory \<open>blank_iter\<close> before it is
  initialised. A division by a zero total is 0 here and not-a-number in the program.
\<close>

section \<open>Merging\<close>

definition add_step ::
    "(hdr_histogram \<Rightarrow> int \<Rightarrow> int \<Rightarrow> (bool \<times> hdr_histogram) option) \<Rightarrow> int \<times> int \<Rightarrow>
     hdr_histogram \<times> int \<Rightarrow> (hdr_histogram \<times> int) option" where
  "add_step record_values = (\<lambda>(value, cnt) (h, dropped).
     (case record_values h value cnt of
        None \<Rightarrow> None
      | Some (ok, h') \<Rightarrow> Some (h', if \<not> ok then i64 (dropped + cnt) else dropped)))"

definition hdr_add :: "hdr_histogram \<Rightarrow> hdr_histogram \<Rightarrow> (hdr_histogram \<times> int) option" where
  "hdr_add h from =
     while_next hdr_iter_next (\<lambda>_. True)
       (\<lambda>iter. add_step hdr_record_values (iter_value iter, iter_count iter))
       (hdr_iter_recorded_init (blank_iter from) from) (h, 0)"

definition hdr_add_while_correcting_for_coordinated_omission ::
    "hdr_histogram \<Rightarrow> hdr_histogram \<Rightarrow> int \<Rightarrow> (hdr_histogram \<times> int) option" where
  "hdr_add_while_correcting_for_coordinated_omission h from expected_interval =
     while_next hdr_iter_next (\<lambda>_. True)
       (\<lambda>iter. add_step (\<lambda>h value cnt. hdr_record_corrected_values h value cnt expected_interval)
                 (iter_value iter, iter_count iter))
       (hdr_iter_recorded_init (blank_iter from) from) (h, 0)"

section \<open>Percentiles\<close>

function value_up_to_count_loop :: "hdr_histogram \<Rightarrow> int \<Rightarrow> int \<Rightarrow> int \<Rightarrow> int option" where
  "value_up_to_count_loop h count_at_percentile idx count_to_idx =
     (if idx < counts_len h then
        (case counts_get_direct h idx of
           None \<Rightarrow> None
         | Some c \<Rightarrow>
             let count_to_idx' = i64 (count_to_idx + c) in
             if count_to_idx' \<ge> count_at_percentile then Some (hdr_value_at_index h idx)
             else value_up_to_count_loop h count_at_percentile (idx + 1) count_to_idx')
      else Some 0)"
  by pat_completeness auto
termination
  by (relation "measure (\<lambda>(h, k, idx, c). nat (counts_len h - idx))") auto

definition get_value_from_idx_up_to_count :: "hdr_histogram \<Rightarrow> int \<Rightarrow> int option" where
  "get_value_from_idx_up_to_count h count_at_percentile =
     value_up_to_count_loop h (if 0 < count_at_percentile then count_at_percentile else 1) 0 0"

definition count_at_percentile :: "int \<Rightarrow> real \<Rightarrow> int" where
  "count_at_percentile sum_counts p =
     (let requested_percentile = (if p < 100 then p else 100)
      in c_trunc (requested_percentile / 100 * real_of_int sum_counts + 1 / 2))"

definition hdr_value_at_percentile :: "hdr_histogram \<Rightarrow> real \<Rightarrow> int option" where
  "hdr_value_at_percentile h p =
     (case get_value_from_idx_up_to_count h (count_at_percentile (total_count h) p) of
        None \<Rightarrow> None
      | Some value_from_idx \<Rightarrow>
          Some (if p = 0 then lowest_equivalent_value h value_from_idx
                else highest_equivalent_value h value_from_idx))"

text \<open>The inner loop of \<open>hdr_value_at_percentiles\<close>, on the part of \<open>values\<close> from \<open>at_pos\<close> on.\<close>

function report_percentiles :: "int \<Rightarrow> int \<Rightarrow> int list \<Rightarrow> nat \<Rightarrow> int list \<times> nat" where
  "report_percentiles sum_counts v values at_pos =
     (if at_pos < length values \<and> sum_counts \<ge> values ! at_pos
      then report_percentiles sum_counts v (values[at_pos := v]) (at_pos + 1)
      else (values, at_pos))"
  by pat_completeness auto
termination
  by (relation "measure (\<lambda>(sum_counts, v, values, at_pos). length values - at_pos)") auto

definition hdr_value_at_percentiles ::
    "hdr_histogram \<Rightarrow> real list option \<Rightarrow> int list option \<Rightarrow> (int + int list) option" where
  "hdr_value_at_percentiles h percentiles values =
     (case (percentiles, values) of
        (Some ps, Some vs) \<Rightarrow>
          let vs0 = map (\<lambda>p. let c = count_at_percentile (total_count h) p in if c > 1 then c else 1) ps
          in map_option (\<lambda>(sum_counts, vs', at_pos). Inr vs')
               (while_next hdr_iter_next (\<lambda>(sum_counts, vs', at_pos). at_pos < length ps)
                  (\<lambda>iter (sum_counts, vs', at_pos).
                     let sum_counts' = i64 (sum_counts + iter_count iter);
                         (vs'', at_pos') = report_percentiles sum_counts'
                            (highest_equivalent_value h (iter_value iter)) vs' at_pos
                     in Some (sum_counts', vs'', at_pos'))
                  (hdr_iter_init (blank_iter h) h) (0, vs0, 0))
      | _ \<Rightarrow> Some (Inl EINVAL))"

section \<open>Mean and deviation\<close>

definition mean_step :: "hdr_histogram \<Rightarrow> int \<times> int \<Rightarrow> int \<times> int \<Rightarrow> (int \<times> int) option" where
  "mean_step h = (\<lambda>(value, c) (sum_counts, cnt).
     Some (if 0 \<noteq> c
           then (i64 (sum_counts + i64 (c * hdr_median_equivalent_value h value)), i64 (cnt + c))
           else (sum_counts, cnt)))"

definition hdr_mean :: "hdr_histogram \<Rightarrow> real option" where
  "hdr_mean h =
     map_option (\<lambda>(sum_counts, cnt). real_of_int sum_counts / real_of_int (total_count h))
       (while_next hdr_iter_next (\<lambda>(sum_counts, cnt). cnt < total_count h)
          (\<lambda>iter. mean_step h (iter_value iter, iter_count iter))
          (hdr_iter_init (blank_iter h) h) (0, 0))"

definition stddev_step :: "hdr_histogram \<Rightarrow> real \<Rightarrow> int \<times> int \<Rightarrow> real \<Rightarrow> real option" where
  "stddev_step h mean = (\<lambda>(value, c) dev_total.
     Some (if 0 \<noteq> c
           then let dev = real_of_int (hdr_median_equivalent_value h value) - mean
                in dev_total + dev * dev * real_of_int c
           else dev_total))"

definition hdr_stddev :: "hdr_histogram \<Rightarrow> real option" where
  "hdr_stddev h =
     (case hdr_mean h of
        None \<Rightarrow> None
      | Some mean \<Rightarrow>
          map_option (\<lambda>dev_total. sqrt (dev_total / real_of_int (total_count h)))
            (while_next hdr_iter_next (\<lambda>_. True)
               (\<lambda>iter. stddev_step h mean (iter_value iter, iter_count iter))
               (hdr_iter_init (blank_iter h) h) 0))"

declare value_up_to_count_loop.simps [simp del] report_percentiles.simps [simp del]

section \<open>Merging adds the equivalent values\<close>

text \<open>The values a list of slots stands for, each slot by its lowest value.\<close>

definition slots_mset :: "(int \<times> int) list \<Rightarrow> int multiset" where
  "slots_mset xs = (\<Sum>(v, c)\<leftarrow>xs. replicate_mset (nat c) v)"

lemma slots_mset_simps [simp]:
  "slots_mset [] = {#}"
  "slots_mset ((v, c) # xs) = replicate_mset (nat c) v + slots_mset xs"
  by (simp_all add: slots_mset_def)

lemma filter_replicate_mset [simp]:
  "filter_mset P (replicate_mset n x) = (if P x then replicate_mset n x else {#})"
  by (induction n) auto

lemma hdr_absD_record:
  assumes "hdr_record_values h v n = Some (b, h')"
  shows "trackable h' = trackable h"
proof (intro ext)
  fix w show "trackable h' w = trackable h w"
    using assms
    by (auto simp: hdr_record_values_def counts_inc_normalised_def update_min_max_eq Let_def
        split: if_splits option.splits)
qed

lemma add_fold_abs:
  assumes "hdr_abs h M" "\<forall>(v, c) \<in> set xs. 0 < c \<and> v \<le> INT64_MAX" "0 \<le> d"
    "int (size M + size (slots_mset xs)) \<le> INT64_MAX" "d + int (size (slots_mset xs)) \<le> INT64_MAX"
  shows "\<exists>h'. fold_while (\<lambda>_. True) (add_step hdr_record_values) xs (h, d)
      = Some (h', d + int (size {#v \<in># slots_mset xs. \<not> trackable h v#}))
    \<and> hdr_abs h' (M + {#v \<in># slots_mset xs. trackable h v#})"
  using assms
proof (induction xs arbitrary: h M d)
  case (Cons x xs)
  obtain v c where x: "x = (v, c)" by fastforce
  have c: "0 < c" "v \<le> INT64_MAX" "\<forall>(v, c) \<in> set xs. 0 < c \<and> v \<le> INT64_MAX"
    using Cons.prems(2) x by auto
  define n where "n = nat c"
  have n: "c = int n" "0 < n" using c by (simp_all add: n_def)
  show ?case
  proof (cases "trackable h v")
    case True
    have "int (size M + n) \<le> INT64_MAX" using Cons.prems(4) x n by simp
    then obtain h1 where h1: "hdr_record_values h v (int n) = Some (True, h1)"
        "hdr_abs h1 (M + replicate_mset n v)"
      using hdr_record_values_abs [OF Cons.prems(1) True n(2)] by blast
    note tr = hdr_absD_record [OF h1(1)]
    show ?thesis
      using Cons.IH [OF h1(2) c(3), of d] Cons.prems(3-5) x n h1 True
      by (auto simp: add_step_def tr add.assoc)
  next
    case False
    have rej: "hdr_record_values h v c = Some (False, h)"
      using hdr_record_values_untrackable [OF hdr_absD(1) [OF Cons.prems(1)] False] c by simp
    have d: "i64 (d + c) = d + c"
      using Cons.prems(3,5) x n by (intro i64_nonneg_id) auto
    show ?thesis
      using Cons.IH [OF Cons.prems(1) c(3), of "d + c"] Cons.prems(3-5) x n rej d False
      by (auto simp: add_step_def)
  qed
qed simp

lemma sum_list_filter_eq:
  "(\<And>x. x \<in> set xs \<Longrightarrow> \<not> P x \<Longrightarrow> g x = 0) \<Longrightarrow>
    (\<Sum>x\<leftarrow>filter P xs. g x) = (\<Sum>x\<leftarrow>xs. (g x :: 'a :: monoid_add))"
  by (induction xs) auto

lemma image_mset_by_slot:
  assumes "finite S" "\<And>x. x \<in># F \<Longrightarrow> f x \<in> S"
  shows "(\<Sum>i\<in>S. replicate_mset (size {#x \<in># F. f x = i#}) (g i)) = image_mset (\<lambda>x. g (f x)) F"
  using assms(2)
proof (induction F)
  case (add x F)
  have "(\<Sum>i\<in>S. replicate_mset (size {#y \<in># add_mset x F. f y = i#}) (g i))
      = (\<Sum>i\<in>S. (if i = f x then {#g i#} else {#}) + replicate_mset (size {#y \<in># F. f y = i#}) (g i))"
    by (rule sum.cong) auto
  also have "\<dots> = {#g (f x)#} + image_mset (\<lambda>x. g (f x)) F"
    using add assms(1) by (simp add: sum.distrib sum.delta)
  finally show ?case by simp
qed simp

abbreviation recorded_slots :: "hdr_histogram \<Rightarrow> (int \<times> int) list" where
  "recorded_slots h \<equiv> map (slot_view h) (filter (\<lambda>i. slot_count h i \<noteq> 0) [0..counts_len h - 1])"

lemma slots_mset_map: "slots_mset (map f xs) = (\<Sum>x\<leftarrow>xs. replicate_mset (nat (snd (f x))) (fst (f x)))"
  by (induction xs) (auto simp: slots_mset_def split: prod.splits)

lemma slots_mset_recorded:
  assumes abs: "hdr_abs h M"
  shows "slots_mset (recorded_slots h) = image_mset (lowest_equivalent_value h) M"
proof -
  let ?g = "\<lambda>i. replicate_mset (nat (slot_count h i)) (hdr_value_at_index h i)"
  note wf = hdr_absD(1) [OF abs]
  have slot: "counts_index_for h v \<in> {0..<counts_len h}" if "v \<in># M" for v
    using trackableD [OF wf hdr_absD(3) [OF abs that]] by simp
  have "slots_mset (recorded_slots h) = (\<Sum>i\<leftarrow>filter (\<lambda>i. slot_count h i \<noteq> 0) [0..counts_len h - 1]. ?g i)"
    by (simp add: slots_mset_map slot_view_def)
  also have "\<dots> = (\<Sum>i\<leftarrow>[0..counts_len h - 1]. ?g i)"
    by (rule sum_list_filter_eq) auto
  also have "\<dots> = sum ?g {0..<counts_len h}"
    by (simp add: sum_list_distinct_conv_sum_set flip: atLeastLessThanPlusOne_atLeastAtMost_int)
  also have "\<dots> = (\<Sum>i\<in>{0..<counts_len h}.
      replicate_mset (size {#x \<in># M. counts_index_for h x = i#}) (hdr_value_at_index h i))"
    by (rule sum.cong) (simp_all add: hdr_abs_slot_count [OF abs])
  also have "\<dots> = image_mset (\<lambda>x. hdr_value_at_index h (counts_index_for h x)) M"
    by (rule image_mset_by_slot) (use slot in auto)
  also have "\<dots> = image_mset (lowest_equivalent_value h) M"
    using value_at_counts_index_for [OF wf] trackableD [OF wf hdr_absD(3) [OF abs]]
    by (intro image_mset_cong) auto
  finally show ?thesis .
qed

lemma recorded_slots_pos:
  assumes "hdr_counts_ok h"
  shows "\<forall>(v, c) \<in> set (recorded_slots h). 0 < c \<and> v \<le> INT64_MAX"
proof -
  have "0 < slot_count h i \<and> hdr_value_at_index h i \<le> INT64_MAX"
    if "slot_count h i \<noteq> 0" "0 \<le> i" "i \<le> counts_len h - 1" for i
    using that slot_count_nonneg [OF assms, of i] hdr.val_range [OF hdr_counts_okD(1) [OF assms], of i]
    by simp
  then show ?thesis by (auto simp: slot_view_def)
qed

lemma hdr_add_abs:
  assumes "hdr_abs h M" "hdr_abs from F" "int (size M + size F) \<le> INT64_MAX"
  shows "\<exists>h'. hdr_add h from
      = Some (h', int (size {#x \<in># F. \<not> trackable h (lowest_equivalent_value from x)#}))
    \<and> hdr_abs h' (M + {#v \<in># image_mset (lowest_equivalent_value from) F. trackable h v#})"
proof -
  note ok = hdr_abs_counts_ok [OF assms(2)]
  have "hdr_add h from = fold_while (\<lambda>_. True) (add_step hdr_record_values) (recorded_slots from) (h, 0)"
    unfolding hdr_add_def
    using recorded.while_next_fold [OF walk_init(3) [OF ok],
        of _ "add_step hdr_record_values"] walk_init(4) [OF ok]
    by (simp add: iter_view_def)
  then show ?thesis
    using add_fold_abs [OF assms(1) recorded_slots_pos [OF ok], of 0] assms(3)
    unfolding slots_mset_recorded [OF assms(2)] by (simp add: filter_mset_image_mset)
qed

section \<open>Percentiles of the recorded values\<close>

lemma sorted_nth_le_iff:
  fixes ys :: "int list"
  assumes "sorted ys" "k < length ys"
  shows "ys ! k \<le> j \<longleftrightarrow> k < length (filter (\<lambda>y. y \<le> j) ys)"
  using assms
proof (induction ys arbitrary: k)
  case (Cons y ys)
  show ?case
  proof (cases "y \<le> j")
    case True
    then show ?thesis
      using Cons by (cases k) auto
  next
    case False
    then have gt: "j < x" if "x \<in> set (y # ys)" for x
      using Cons.prems(1) that by auto
    then have "filter (\<lambda>y. y \<le> j) ys = []" by (force simp: filter_empty_conv)
    with False gt [OF nth_mem [OF Cons.prems(2)]] show ?thesis by simp
  qed
qed simp

lemma cum_count_abs:
  assumes abs: "hdr_abs h M" and k: "0 \<le> k" "k \<le> counts_len h"
  shows "cum_count h k = int (size {#v \<in># M. counts_index_for h v < k#})"
proof -
  let ?N = "{#v \<in># M. counts_index_for h v < k#}"
  have slot: "counts_index_for h v \<in> {0..<k}" if "v \<in># ?N" for v
    using trackableD [OF hdr_absD(1) [OF abs] hdr_absD(3) [OF abs, of v]] that by simp
  have "int (size ?N) = (\<Sum>i\<in>{0..<k}. int (size {#v \<in># ?N. counts_index_for h v = i#}))"
    by (rule size_mset_by_slot) (use slot in auto)
  also have "\<dots> = sum (slot_count h) {0..<k}"
  proof (rule sum.cong [OF refl])
    fix i assume i: "i \<in> {0..<k}"
    then have "{#v \<in># ?N. counts_index_for h v = i#} = {#v \<in># M. counts_index_for h v = i#}"
      by (auto simp: filter_filter_mset intro!: filter_mset_cong)
    then show "int (size {#v \<in># ?N. counts_index_for h v = i#}) = slot_count h i"
      using hdr_abs_slot_count [OF abs, of i] i k by simp
  qed
  finally show ?thesis using k by (simp add: cum_count_def)
qed

lemma slot_count_direct:
  assumes "normalizing_index_offset h = 0" "hdr_config_wf h" "0 \<le> i" "i < counts_len h"
  shows "counts_get_direct h i = Some (slot_count h i)"
  using assms hdr_config_wfD(11) [OF assms(2)]
  by (simp add: counts_get_direct_def slot_count_def normalize_index_def)

lemma value_up_to_count_loop_spec:
  assumes ok: "hdr_counts_ok h" and off: "normalizing_index_offset h = 0"
    and k: "cum_count h idx < k" "k \<le> total_count h" and idx: "0 \<le> idx"
  shows "\<exists>i. idx \<le> i \<and> i < counts_len h \<and> cum_count h i < k \<and> k \<le> cum_count h (i + 1)
    \<and> value_up_to_count_loop h k idx (cum_count h idx) = Some (hdr_value_at_index h i)"
  using k(1) idx
proof (induction "nat (counts_len h - idx)" arbitrary: idx)
  case 0
  then have "counts_len h \<le> idx" by simp
  with 0 k(2) show ?case by (simp add: cum_count_full [OF ok])
next
  case (Suc d)
  then have lt: "idx < counts_len h" and d: "d = nat (counts_len h - (idx + 1))" by simp_all
  have read: "counts_get_direct h idx = Some (slot_count h idx)"
    using slot_count_direct [OF off hdr_counts_okD(1) [OF ok] Suc.prems(2) lt] .
  have sum: "i64 (cum_count h idx + slot_count h idx) = cum_count h (idx + 1)"
    using cum_count_step [OF Suc.prems(2) lt] cum_count_bounds [OF ok, of "idx + 1"] hdr_counts_okD(4) [OF ok]
    by (simp add: i64_nonneg_id)
  show ?case
  proof (cases "k \<le> cum_count h (idx + 1)")
    case True
    then show ?thesis
      using Suc.prems lt read sum
      by (intro exI [of _ idx]) (simp add: value_up_to_count_loop.simps [of h k idx] Let_def)
  next
    case False
    then obtain i where "idx + 1 \<le> i" "i < counts_len h" "cum_count h i < k" "k \<le> cum_count h (i + 1)"
      "value_up_to_count_loop h k (idx + 1) (cum_count h (idx + 1)) = Some (hdr_value_at_index h i)"
      using Suc.hyps(1) [OF d] Suc.prems by auto
    then show ?thesis
      using False lt read sum
      by (intro exI [of _ i]) (simp add: value_up_to_count_loop.simps [of h k idx] Let_def)
  qed
qed

text \<open>The slot at which the counts reach \<open>k\<close> is the slot of the \<open>k\<close>-th smallest recorded value.\<close>

lemma rank_slot:
  assumes abs: "hdr_abs h M" and k: "1 \<le> k" "k \<le> int (size M)"
    and i: "0 \<le> i" "i < counts_len h" "cum_count h i < k" "k \<le> cum_count h (i + 1)"
  shows "counts_index_for h (sorted_list_of_multiset M ! nat (k - 1)) = i"
proof -
  let ?xs = "sorted_list_of_multiset M"
  let ?ys = "map (counts_index_for h) ?xs"
  note wf = hdr_absD(1) [OF abs]
  have tr: "trackable h x" if "x \<in> set ?xs" for x
    using that hdr_absD(3) [OF abs, of x] by simp
  have "sorted ?ys"
  proof -
    have "sorted_wrt (\<lambda>x y. counts_index_for h x \<le> counts_index_for h y) ?xs"
    proof (rule sorted_wrt_mono_rel [where P = "(\<le>)"])
      fix x y assume xy: "x \<in> set ?xs" "y \<in> set ?xs" "x \<le> y"
      show "counts_index_for h x \<le> counts_index_for h y"
        using trackableD [OF wf tr [OF xy(1)]] trackableD [OF wf tr [OF xy(2)]] xy(3)
        by (intro hdr.idx_mono [OF wf]) auto
    qed (simp add: sorted_sorted_list_of_multiset)
    then show ?thesis by (simp add: sorted_wrt_map)
  qed
  moreover have n: "length ?ys = size M"
    by (simp flip: size_mset)
  moreover have cnt: "int (length (filter (\<lambda>y. y \<le> j) ?ys)) = cum_count h (j + 1)" if "- 1 \<le> j" "j < counts_len h" for j
  proof -
    have "length (filter (\<lambda>y. y \<le> j) ?ys) = length (filter (\<lambda>v. counts_index_for h v \<le> j) ?xs)"
      by (simp add: filter_map comp_def)
    also have "\<dots> = size (mset (filter (\<lambda>v. counts_index_for h v \<le> j) ?xs))"
      by (simp only: size_mset)
    also have "\<dots> = size {#v \<in># M. counts_index_for h v < j + 1#}"
      by (simp add: zless_add1_eq order_le_less)
    finally show ?thesis
      using cum_count_abs [OF abs, of "j + 1"] that by simp
  qed
  ultimately have le: "?ys ! nat (k - 1) \<le> j \<longleftrightarrow> k \<le> cum_count h (j + 1)"
    if "- 1 \<le> j" "j < counts_len h" for j
    using sorted_nth_le_iff [of ?ys "nat (k - 1)" j] cnt [OF that] k by auto
  have "?ys ! nat (k - 1) = i"
    using le [of i] le [of "i - 1"] i by simp
  moreover have "nat (k - 1) < length ?xs"
    using n k by simp
  ultimately show ?thesis by simp
qed

lemma count_at_percentile_bounds:
  assumes "0 \<le> tc" "0 \<le> p"
  shows "0 \<le> count_at_percentile tc p" "count_at_percentile tc p \<le> tc"
proof -
  define q where "q = (if p < 100 then p else 100) / 100"
  have q: "0 \<le> q" "q \<le> 1" using assms(2) by (simp_all add: q_def)
  have eq: "count_at_percentile tc p = \<lfloor>q * real_of_int tc + 1 / 2\<rfloor>"
    using q assms(1) by (simp add: count_at_percentile_def q_def Let_def)
  have "0 \<le> q * real_of_int tc" "q * real_of_int tc \<le> real_of_int tc"
    using q assms(1) by (simp_all add: mult_left_le_one_le)
  then show "0 \<le> count_at_percentile tc p" "count_at_percentile tc p \<le> tc"
    unfolding eq by linarith+
qed

text \<open>The rank of a percentile: at least 1 and at most the number of values.\<close>

definition percentile_rank :: "int \<Rightarrow> real \<Rightarrow> int" where
  "percentile_rank n p = max 1 (count_at_percentile n p)"

lemma get_value_rank:
  assumes abs: "hdr_abs h M" and off: "normalizing_index_offset h = 0" and ne: "M \<noteq> {#}"
    and p: "0 \<le> p"
  shows "get_value_from_idx_up_to_count h (count_at_percentile (total_count h) p)
    = Some (lowest_equivalent_value h
        (sorted_list_of_multiset M ! nat (percentile_rank (int (size M)) p - 1)))"
proof -
  let ?k = "percentile_rank (int (size M)) p"
  let ?v = "sorted_list_of_multiset M ! nat (?k - 1)"
  note ok = hdr_abs_counts_ok [OF abs] and wf = hdr_absD(1) [OF abs]
  have size: "1 \<le> int (size M)"
    using ne by (metis Suc_leI nonempty_has_size of_nat_1 of_nat_le_iff One_nat_def)
  have k: "1 \<le> ?k" "?k \<le> int (size M)"
    using count_at_percentile_bounds [of "int (size M)" p] p size by (simp_all add: percentile_rank_def)
  obtain i where i: "0 \<le> i" "i < counts_len h" "cum_count h i < ?k" "?k \<le> cum_count h (i + 1)"
      "value_up_to_count_loop h ?k 0 0 = Some (hdr_value_at_index h i)"
    using value_up_to_count_loop_spec [OF ok off, of 0 ?k] k hdr_absD(5) [OF abs] by auto
  have "?v \<in># M"
  proof -
    have "nat (?k - 1) < length (sorted_list_of_multiset M)"
      using k by (simp flip: size_mset)
    then have "?v \<in> set (sorted_list_of_multiset M)" by (rule nth_mem)
    then show ?thesis by simp
  qed
  then have "hdr_value_at_index h i = lowest_equivalent_value h ?v"
    using rank_slot [OF abs k i(1-4)] value_at_counts_index_for [OF wf, of ?v]
      trackableD [OF wf hdr_absD(3) [OF abs]] i(2) by simp
  moreover have "(if 0 < count_at_percentile (total_count h) p
      then count_at_percentile (total_count h) p else 1) = ?k"
    using hdr_absD(5) [OF abs] by (simp add: percentile_rank_def max_def)
  ultimately show ?thesis
    using i(5) by (simp add: get_value_from_idx_up_to_count_def)
qed

text \<open>Equivalent values have the same range and the same middle.\<close>

lemma lowest_equivalent_idem:
  assumes wf: "hdr_config_wf h" and v: "0 \<le> v" "v < value_limit"
  shows "lowest_equivalent_value h (lowest_equivalent_value h v) = lowest_equivalent_value h v"
    "hdr_size_of_equivalent_value_range h (lowest_equivalent_value h v)
       = hdr_size_of_equivalent_value_range h v"
proof -
  let ?w = "(2::int) ^ width_of h v" and ?l = "lowest_equivalent_value h v"
  have l: "?l = v div ?w * ?w" "0 \<le> ?l" "?l < value_limit"
    using lowest_equivalent_value_eq [OF wf v] lowest_equivalent_value_bounds [OF wf v] v by simp_all
  then have "v div ?w = ?l div ?w" by simp
  then have b: "bucket_of h ?l = bucket_of h v"
    using l(2) by (intro same_range_bucket) simp_all
  then show "lowest_equivalent_value h ?l = ?l"
    unfolding lowest_equivalent_value_eq [OF wf l(2,3)] using l(1) by simp
  show "hdr_size_of_equivalent_value_range h ?l = hdr_size_of_equivalent_value_range h v"
    using b hdr_size_of_equivalent_value_range_eq [OF wf] l v by simp
qed

lemma highest_median_of_lowest:
  assumes "hdr_config_wf h" "0 \<le> v" "v < value_limit"
  shows "highest_equivalent_value h (lowest_equivalent_value h v) = highest_equivalent_value h v"
    "hdr_median_equivalent_value h (lowest_equivalent_value h v) = hdr_median_equivalent_value h v"
  using lowest_equivalent_idem [OF assms]
  by (simp_all add: highest_equivalent_value_def hdr_next_non_equivalent_value_def
      hdr_median_equivalent_value_def)

text \<open>The value of the given rank among the recorded ones.\<close>

definition ranked_value :: "int multiset \<Rightarrow> int \<Rightarrow> int" where
  "ranked_value M k = sorted_list_of_multiset M ! nat (k - 1)"

lemma ranked_value_mem:
  assumes "1 \<le> k" "k \<le> int (size M)"
  shows "ranked_value M k \<in># M"
proof -
  have "nat (k - 1) < length (sorted_list_of_multiset M)"
    using assms by (simp flip: size_mset)
  then have "ranked_value M k \<in> set (sorted_list_of_multiset M)"
    unfolding ranked_value_def by (rule nth_mem)
  then show ?thesis by simp
qed

lemma percentile_rank_bounds:
  assumes "M \<noteq> {#}" "0 \<le> p"
  shows "1 \<le> percentile_rank (int (size M)) p" "percentile_rank (int (size M)) p \<le> int (size M)"
proof -
  have "1 \<le> int (size M)"
    using assms(1) by (simp add: nonempty_has_size Suc_leI)
  then show "1 \<le> percentile_rank (int (size M)) p" "percentile_rank (int (size M)) p \<le> int (size M)"
    using count_at_percentile_bounds [of "int (size M)" p] assms(2) by (simp_all add: percentile_rank_def)
qed

lemma report_percentiles_eq:
  "pos \<le> length vs \<Longrightarrow> report_percentiles T v vs pos =
     (take pos vs @ map (\<lambda>_. v) (takeWhile (\<lambda>k. k \<le> T) (drop pos vs)) @ dropWhile (\<lambda>k. k \<le> T) (drop pos vs),
      pos + length (takeWhile (\<lambda>k. k \<le> T) (drop pos vs)))"
proof (induction T v vs pos rule: report_percentiles.induct)
  case (1 T v vs pos)
  show ?case
  proof (cases "pos < length vs \<and> T \<ge> vs ! pos")
    case True
    then have "drop pos vs = vs ! pos # drop (Suc pos) vs"
      by (simp add: Cons_nth_drop_Suc)
    moreover have "take (Suc pos) (vs[pos := v]) = take pos vs @ [v]"
      using True by (simp add: take_Suc_conv_app_nth)
    ultimately show ?thesis
      using "1.IH" True by (simp add: report_percentiles.simps [of T v vs pos])
  next
    case False
    then have "takeWhile (\<lambda>k. k \<le> T) (drop pos vs) = [] \<and> dropWhile (\<lambda>k. k \<le> T) (drop pos vs) = drop pos vs"
      by (cases "pos < length vs") (simp_all add: Cons_nth_drop_Suc [symmetric, of pos vs])
    with False show ?thesis
      by (subst report_percentiles.simps) auto
  qed
qed

lemma takeWhile_le_mono:
  "T \<le> (T' :: int) \<Longrightarrow> takeWhile (\<lambda>k. k \<le> T') ks
     = takeWhile (\<lambda>k. k \<le> T) ks @ takeWhile (\<lambda>k. k \<le> T') (dropWhile (\<lambda>k. k \<le> T) ks)"
  "T \<le> T' \<Longrightarrow> dropWhile (\<lambda>k. k \<le> T') ks = dropWhile (\<lambda>k. k \<le> T') (dropWhile (\<lambda>k. k \<le> T) ks)"
  by (induction ks) auto

lemma sorted_dropWhile_greater:
  "sorted ks \<Longrightarrow> k \<in> set (dropWhile (\<lambda>k. k \<le> T) ks) \<Longrightarrow> (T :: int) < k"
  by (induction ks) (auto split: if_splits)

abbreviation percentiles_step ::
    "hdr_histogram \<Rightarrow> int \<times> int \<Rightarrow> int \<times> int list \<times> nat \<Rightarrow> (int \<times> int list \<times> nat) option" where
  "percentiles_step h \<equiv> (\<lambda>(value, c) (sum_counts, vs, at_pos).
     let sum_counts' = i64 (sum_counts + c);
         (vs', at_pos') = report_percentiles sum_counts' (highest_equivalent_value h value) vs at_pos
     in Some (sum_counts', vs', at_pos'))"

lemma percentiles_fold:
  assumes ok: "hdr_counts_ok h" and ks: "sorted ks" "\<forall>k \<in> set ks. k \<le> total_count h"
    and rep: "\<And>k i. k \<in> set ks \<Longrightarrow> 0 \<le> i \<Longrightarrow> i < counts_len h \<Longrightarrow> cum_count h i < k
      \<Longrightarrow> k \<le> cum_count h (i + 1) \<Longrightarrow> rep k = highest_equivalent_value h (hdr_value_at_index h i)"
    and i: "0 \<le> i"
  shows "\<exists>sc. fold_while (\<lambda>(sc, vs, at_pos). at_pos < length ks) (percentiles_step h)
      (map (slot_view h) [i..counts_len h - 1])
      (cum_count h i, map rep (takeWhile (\<lambda>k. k \<le> cum_count h i) ks) @ dropWhile (\<lambda>k. k \<le> cum_count h i) ks,
       length (takeWhile (\<lambda>k. k \<le> cum_count h i) ks))
    = Some (sc, map rep ks, length ks)"
  using i
proof (induction "nat (counts_len h - i)" arbitrary: i)
  case 0
  then have "cum_count h i = total_count h" "[i..counts_len h - 1] = []"
    using cum_count_full [OF ok] by simp_all
  then show ?case
    using ks(2) by (simp add: takeWhile_eq_all_conv [THEN iffD2] dropWhile_eq_Nil_conv [THEN iffD2])
next
  case (Suc d)
  let ?T = "cum_count h i" and ?T' = "cum_count h (i + 1)"
  let ?rest = "dropWhile (\<lambda>k. k \<le> ?T) ks"
  from Suc have lt: "i < counts_len h" and d: "d = nat (counts_len h - (i + 1))" by simp_all
  have upto: "[i..counts_len h - 1] = i # [i + 1..counts_len h - 1]"
    using lt by (simp add: upto_rec1)
  show ?case
  proof (cases "length (takeWhile (\<lambda>k. k \<le> ?T) ks) < length ks")
    case False
    then have all: "takeWhile (\<lambda>k. k \<le> ?T) ks = ks"
      using takeWhile_dropWhile_id [of "\<lambda>k. k \<le> ?T" ks] length_takeWhile_le [of "\<lambda>k. k \<le> ?T" ks]
      by (metis append_eq_conv_conj le_neq_implies_less take_all_iff takeWhile_eq_take order_refl)
    then have "?rest = []"
      by (metis append_self_conv takeWhile_dropWhile_id)
    with all False show ?thesis by (simp add: upto del: takeWhile_eq_all_conv)
  next
    case True
    have sum: "i64 (?T + slot_count h i) = ?T'" and le: "?T \<le> ?T'"
      using cum_count_step [OF Suc.prems lt] cum_count_bounds [OF ok, of "i + 1"] hdr_counts_okD(4) [OF ok]
        slot_count_nonneg [OF ok Suc.prems lt]
      by (simp_all add: i64_nonneg_id)
    let ?new = "takeWhile (\<lambda>k. k \<le> ?T') ?rest"
    have "rep k = highest_equivalent_value h (hdr_value_at_index h i)" if "k \<in> set ?new" for k
      using set_takeWhileD [OF that] sorted_dropWhile_greater [OF ks(1)]
      by (intro rep [OF _ Suc.prems lt]) (auto dest: set_dropWhileD)
    then have "map (\<lambda>_. highest_equivalent_value h (hdr_value_at_index h i)) ?new = map rep ?new"
      by simp
    then show ?thesis
      using Suc.hyps(1) [OF d] Suc.prems True sum takeWhile_le_mono [OF le, of ks]
      by (simp add: upto slot_view_def report_percentiles_eq Let_def del: map_eq_conv)
  qed
qed

lemma count_at_percentile_mono:
  assumes "0 \<le> n" "0 \<le> p" "p \<le> q"
  shows "count_at_percentile n p \<le> count_at_percentile n q"
proof -
  define p' q' where "p' = (if p < 100 then p else 100)" and "q' = (if q < 100 then q else 100)"
  have pq: "0 \<le> p'" "p' \<le> q'" using assms by (simp_all add: p'_def q'_def)
  then have "p' / 100 * real_of_int n \<le> q' / 100 * real_of_int n"
    using assms(1) by (intro mult_right_mono) auto
  moreover have "0 \<le> p' / 100 * real_of_int n" using pq assms(1) by simp
  ultimately have "c_trunc (p' / 100 * real_of_int n + 1 / 2) \<le> c_trunc (q' / 100 * real_of_int n + 1 / 2)"
    by (subst (1 2) c_trunc_nonneg) (simp_all add: floor_mono)
  then show ?thesis by (simp add: count_at_percentile_def p'_def q'_def Let_def)
qed

lemma ranked_value_of_slot:
  assumes abs: "hdr_abs h M" and k: "1 \<le> k" "k \<le> int (size M)"
    and i: "0 \<le> i" "i < counts_len h" "cum_count h i < k" "k \<le> cum_count h (i + 1)"
  shows "highest_equivalent_value h (ranked_value M k) = highest_equivalent_value h (hdr_value_at_index h i)"
proof -
  note wf = hdr_absD(1) [OF abs]
  let ?v = "ranked_value M k"
  have "?v \<in># M" using k by (intro ranked_value_mem) auto
  note t = trackableD [OF wf hdr_absD(3) [OF abs this]]
  have "counts_index_for h ?v = i" using rank_slot [OF abs _ _ i] k by (simp add: ranked_value_def)
  then have "hdr_value_at_index h i = lowest_equivalent_value h ?v"
    using value_at_counts_index_for [OF wf t(1,2)] t(4) by simp
  then show ?thesis using highest_median_of_lowest(1) [OF wf t(1,2)] by simp
qed

lemma sorted_percentile_ranks: "sorted ps \<Longrightarrow> \<forall>p \<in> set ps. 0 \<le> p \<Longrightarrow> sorted (map (percentile_rank (int n)) ps)"
  unfolding sorted_wrt_map
  by (rule sorted_wrt_mono_rel [rotated], assumption)
    (use count_at_percentile_mono [of "int n"] in \<open>auto simp: percentile_rank_def max_def intro: order_trans\<close>)

lemma hdr_value_at_percentiles_eq:
  assumes abs: "hdr_abs h M" and ne: "M \<noteq> {#}" and ps: "sorted ps" "\<forall>p \<in> set ps. 0 \<le> p"
  shows "hdr_value_at_percentiles h (Some ps) (Some vs)
    = Some (Inr (map (\<lambda>p. highest_equivalent_value h (ranked_value M (percentile_rank (int (size M)) p))) ps))"
proof -
  let ?rank = "percentile_rank (int (size M))"
  let ?ks = "map ?rank ps" and ?rep = "\<lambda>k. highest_equivalent_value h (ranked_value M k)"
  note ok = hdr_abs_counts_ok [OF abs] and wf = hdr_absD(1) [OF abs]
  have ks0: "map (\<lambda>p. let c = count_at_percentile (total_count h) p in if c > 1 then c else 1) ps = ?ks"
    using hdr_absD(5) [OF abs] by (auto simp: percentile_rank_def Let_def)
  have "sorted ?ks" by (rule sorted_percentile_ranks [OF ps])
  moreover have rng: "1 \<le> k \<and> k \<le> int (size M)" if "k \<in> set ?ks" for k
    using that ps(2) percentile_rank_bounds [OF ne] by auto
  moreover have "?rep k = highest_equivalent_value h (hdr_value_at_index h i)"
    if "k \<in> set ?ks" "0 \<le> i" "i < counts_len h" "cum_count h i < k" "k \<le> cum_count h (i + 1)" for k i
    using ranked_value_of_slot [OF abs _ _ that(2-)] rng [OF that(1)] by simp
  ultimately obtain sc where "fold_while (\<lambda>(sc, vs, at_pos). at_pos < length ?ks) (percentiles_step h)
      (map (slot_view h) [0..counts_len h - 1])
      (cum_count h 0, map ?rep (takeWhile (\<lambda>k. k \<le> cum_count h 0) ?ks)
         @ dropWhile (\<lambda>k. k \<le> cum_count h 0) ?ks, length (takeWhile (\<lambda>k. k \<le> cum_count h 0) ?ks))
      = Some (sc, map ?rep ?ks, length ?ks)"
    using percentiles_fold [OF ok, of ?ks ?rep 0] hdr_absD(5) [OF abs] by auto
  moreover have "takeWhile (\<lambda>k. k \<le> 0) ?ks = [] \<and> dropWhile (\<lambda>k. k \<le> 0) ?ks = ?ks"
    using rng [of "?rank (hd ps)"] by (cases ps) auto
  ultimately have "fold_while (\<lambda>(sc, vs, at_pos). at_pos < length ps) (percentiles_step h)
      (map (slot_view h) [0..counts_len h - 1]) (0, ?ks, 0) = Some (sc, map ?rep ?ks, length ps)"
    by simp
  moreover have "while_next hdr_iter_next (\<lambda>(sc, vs, at_pos). at_pos < length ps)
      (\<lambda>iter (sum_counts, vs', at_pos).
         let sum_counts' = i64 (sum_counts + iter_count iter);
             (vs'', at_pos') = report_percentiles sum_counts'
                (highest_equivalent_value h (iter_value iter)) vs' at_pos
         in Some (sum_counts', vs'', at_pos'))
      (hdr_iter_init (blank_iter h) h) (0, ?ks, 0)
    = fold_while (\<lambda>(sc, vs, at_pos). at_pos < length ps) (percentiles_step h)
      (map (slot_view h) [0..counts_len h - 1]) (0, ?ks, 0)"
    unfolding walk_init(2) [OF ok, of "blank_iter h", symmetric]
    by (rule all_values.while_next_fold [OF walk_init(1) [OF ok]]) (simp add: iter_view_def)
  ultimately show ?thesis
    by (simp add: hdr_value_at_percentiles_def ks0)
qed

lemma percentiles_fold_zero:
  "\<forall>(v, c) \<in> set xs. c = 0 \<Longrightarrow>
     fold_while (\<lambda>(sc, vs, at_pos). at_pos < n) (percentiles_step h) xs (0, map (\<lambda>_. 1) ps, 0)
       = Some (0, map (\<lambda>_. 1) ps, 0)"
proof (induction xs)
  case (Cons x xs)
  have "takeWhile (\<lambda>k. k \<le> 0) (map (\<lambda>_. 1 :: int) ps) = []" by (cases ps) auto
  moreover have "dropWhile (\<lambda>k. k \<le> 0) (map (\<lambda>_. 1 :: int) ps) = map (\<lambda>_. 1) ps" by (cases ps) auto
  ultimately show ?case
    using Cons by (auto simp: report_percentiles_eq i64_id split: prod.split)
qed simp

lemma value_up_to_count_loop_zero:
  assumes "hdr_counts_ok h" "normalizing_index_offset h = 0"
    and "\<And>i. 0 \<le> i \<Longrightarrow> i < counts_len h \<Longrightarrow> slot_count h i = 0" and "0 \<le> idx"
  shows "value_up_to_count_loop h 1 idx 0 = Some 0"
  using assms(4)
proof (induction "nat (counts_len h - idx)" arbitrary: idx)
  case (Suc d)
  then have lt: "idx < counts_len h" and d: "d = nat (counts_len h - (idx + 1))" by simp_all
  then show ?case
    using Suc.hyps(1) [OF d] Suc.prems assms(3)
      slot_count_direct [OF assms(2) hdr_counts_okD(1) [OF assms(1)] Suc.prems lt]
    by (simp add: value_up_to_count_loop.simps [of h 1 idx] i64_id)
qed (simp add: value_up_to_count_loop.simps)

section \<open>Mean and deviation of the recorded values\<close>

text \<open>Sums over the recorded slots are sums over the recorded values.\<close>

lemma sum_slots_values:
  fixes f :: "int \<Rightarrow> 'a :: comm_semiring_1"
  assumes abs: "hdr_abs h M"
  shows "(\<Sum>i\<in>{0..<counts_len h}. of_nat (size {#v \<in># M. counts_index_for h v = i#})
            * f (hdr_median_equivalent_value h (hdr_value_at_index h i)))
    = (\<Sum>v\<in>#M. f (hdr_median_equivalent_value h v))"
proof -
  let ?m = "\<lambda>i. f (hdr_median_equivalent_value h (hdr_value_at_index h i))"
  note wf = hdr_absD(1) [OF abs]
  have slot: "counts_index_for h v \<in> {0..<counts_len h}" if "v \<in># M" for v
    using trackableD [OF wf hdr_absD(3) [OF abs that]] by simp
  have gen: "(\<Sum>i\<in>S. of_nat (size {#v \<in># N. counts_index_for h v = i#}) * ?m i)
      = (\<Sum>v\<in>#N. ?m (counts_index_for h v))"
    if "finite S" "\<And>v. v \<in># N \<Longrightarrow> counts_index_for h v \<in> S" for N and S :: "int set"
    using that(2)
  proof (induction N)
    case (add x N)
    have "(\<Sum>i\<in>S. of_nat (size {#v \<in># add_mset x N. counts_index_for h v = i#}) * ?m i)
        = (\<Sum>i\<in>S. (if i = counts_index_for h x then ?m i else 0)
             + of_nat (size {#v \<in># N. counts_index_for h v = i#}) * ?m i)"
      by (rule sum.cong) (auto simp: distrib_right)
    also have "\<dots> = ?m (counts_index_for h x) + (\<Sum>v\<in>#N. ?m (counts_index_for h v))"
      using add that(1) by (simp add: sum.distrib sum.delta)
    finally show ?case by simp
  qed simp
  have "(\<Sum>v\<in>#M. ?m (counts_index_for h v)) = (\<Sum>v\<in>#M. f (hdr_median_equivalent_value h v))"
    using value_at_counts_index_for [OF wf] highest_median_of_lowest(2) [OF wf]
      trackableD [OF wf hdr_absD(3) [OF abs]]
    by (intro arg_cong [where f = sum_mset] image_mset_cong) auto
  then show ?thesis
    using gen [of "{0..<counts_len h}" M] slot by simp
qed

lemma median_bounds:
  assumes "hdr_config_wf h" "0 \<le> v" "v < value_limit"
  shows "0 \<le> hdr_median_equivalent_value h v" "hdr_median_equivalent_value h v \<le> INT64_MAX"
  using i64_nonneg_id [of "lowest_equivalent_value h v + hdr_size_of_equivalent_value_range h v div 2"]
    lowest_equivalent_value_bounds [OF assms] assms(2)
  by (simp_all add: hdr_median_equivalent_value_def drop_bit_eq_div)

definition weighted_sum :: "hdr_histogram \<Rightarrow> int \<Rightarrow> int" where
  "weighted_sum h k =
     (\<Sum>i\<in>{0..<k}. slot_count h i * hdr_median_equivalent_value h (hdr_value_at_index h i))"

lemma weighted_sum_step:
  "0 \<le> k \<Longrightarrow> weighted_sum h (k + 1)
     = weighted_sum h k + slot_count h k * hdr_median_equivalent_value h (hdr_value_at_index h k)"
proof -
  assume "0 \<le> k"
  then have "{0..<k + 1} = insert k {0..<k}" by auto
  then show ?thesis by (simp add: weighted_sum_def)
qed

lemma weighted_sum_mono:
  assumes ok: "hdr_counts_ok h" and "0 \<le> j" "j \<le> k" "k \<le> counts_len h"
  shows "weighted_sum h j \<le> weighted_sum h k" "0 \<le> weighted_sum h j"
proof -
  have nn: "0 \<le> slot_count h i * hdr_median_equivalent_value h (hdr_value_at_index h i)"
    if "0 \<le> i" "i < counts_len h" for i
    using slot_count_nonneg [OF ok that] hdr.val_range [OF hdr_counts_okD(1) [OF ok] that]
      median_bounds(1) [OF hdr_counts_okD(1) [OF ok]] by simp
  show "weighted_sum h j \<le> weighted_sum h k"
    unfolding weighted_sum_def using assms nn by (intro sum_mono2) auto
  show "0 \<le> weighted_sum h j"
    unfolding weighted_sum_def using assms nn by (intro sum_nonneg) auto
qed

lemma mean_fold:
  assumes ok: "hdr_counts_ok h" and i: "0 \<le> i" "i \<le> counts_len h"
    and room: "weighted_sum h (counts_len h) \<le> INT64_MAX"
  shows "\<exists>c. fold_while (\<lambda>(s, cnt). cnt < total_count h) (mean_step h)
      (map (slot_view h) [i..counts_len h - 1]) (weighted_sum h i, cum_count h i)
    = Some (weighted_sum h (counts_len h), c)"
  using i
proof (induction "nat (counts_len h - i)" arbitrary: i)
  case 0
  then show ?case by simp
next
  case (Suc d)
  from Suc have lt: "i < counts_len h" and d: "d = nat (counts_len h - (i + 1))" by simp_all
  have upto: "[i..counts_len h - 1] = i # [i + 1..counts_len h - 1]"
    using lt by (simp add: upto_rec1)
  show ?case
  proof (cases "cum_count h i < total_count h")
    case False
    have "weighted_sum h (counts_len h) = weighted_sum h i"
      unfolding weighted_sum_def
      using cum_count_total_rest [OF ok _ Suc.prems(1)] False Suc.prems
      by (intro sum.mono_neutral_right) auto
    with False show ?thesis by (simp add: upto)
  next
    case True
    let ?m = "hdr_median_equivalent_value h (hdr_value_at_index h i)"
    let ?c = "slot_count h i"
    have c: "0 \<le> ?c" "0 \<le> ?m"
      using slot_count_nonneg [OF ok Suc.prems(1) lt] median_bounds(1) [OF hdr_counts_okD(1) [OF ok]]
        hdr.val_range [OF hdr_counts_okD(1) [OF ok] Suc.prems(1) lt] by simp_all
    have cum: "i64 (cum_count h i + ?c) = cum_count h (i + 1)"
      using cum_count_step [OF Suc.prems(1) lt] cum_count_bounds [OF ok, of "i + 1"] hdr_counts_okD(4) [OF ok]
      by (simp add: i64_nonneg_id)
    have ws: "weighted_sum h (i + 1) \<le> INT64_MAX" "0 \<le> weighted_sum h i"
      using weighted_sum_mono [OF ok _ _ order_refl, of "i + 1"] weighted_sum_mono(2) [OF ok Suc.prems(1) order_refl]
        Suc.prems lt room by simp_all
    have "0 \<le> ?c * ?m" using c by simp
    then have "i64 (?c * ?m) = ?c * ?m" "i64 (weighted_sum h i + ?c * ?m) = weighted_sum h (i + 1)"
      using ws weighted_sum_step [OF Suc.prems(1), of h] by (auto intro!: i64_nonneg_id)
    then have "mean_step h (slot_view h i) (weighted_sum h i, cum_count h i)
        = Some (weighted_sum h (i + 1), cum_count h (i + 1))"
      using cum cum_count_step [OF Suc.prems(1) lt] weighted_sum_step [OF Suc.prems(1), of h]
      by (simp add: mean_step_def slot_view_def)
    then show ?thesis
      using Suc.hyps(1) [OF d] Suc.prems lt True by (simp add: upto)
  qed
qed

lemma weighted_sum_abs:
  "hdr_abs h M \<Longrightarrow> weighted_sum h (counts_len h) = (\<Sum>v\<in>#M. hdr_median_equivalent_value h v)"
  using sum_slots_values [of h M "\<lambda>x. x"] hdr_abs_slot_count [of h M]
  by (simp add: weighted_sum_def)

lemma hdr_mean_eq:
  assumes abs: "hdr_abs h M" and room: "(\<Sum>v\<in>#M. hdr_median_equivalent_value h v) \<le> INT64_MAX"
  shows "hdr_mean h
    = Some (real_of_int (\<Sum>v\<in>#M. hdr_median_equivalent_value h v) / real (size M))"
proof -
  note ok = hdr_abs_counts_ok [OF abs] and ws = weighted_sum_abs [OF abs]
  have "while_next hdr_iter_next (\<lambda>(s, cnt). cnt < total_count h)
      (\<lambda>iter. mean_step h (iter_value iter, iter_count iter)) (hdr_iter_init (blank_iter h) h) (0, 0)
    = fold_while (\<lambda>(s, cnt). cnt < total_count h) (mean_step h)
      (map (slot_view h) [0..counts_len h - 1]) (0, 0)"
    unfolding walk_init(2) [OF ok, of "blank_iter h", symmetric]
    by (rule all_values.while_next_fold [OF walk_init(1) [OF ok]]) (simp add: iter_view_def)
  moreover have "weighted_sum h 0 = 0" by (simp add: weighted_sum_def)
  ultimately show ?thesis
    using mean_fold [OF ok, of 0] counts_len_bound(1) [OF hdr_absD(1) [OF abs]] room
      hdr_absD(5) [OF abs] ws
    by (auto simp: hdr_mean_def)
qed

lemma hdr_stddev_eq:
  assumes abs: "hdr_abs h M" and mean: "hdr_mean h = Some mean"
  shows "hdr_stddev h
    = Some (sqrt ((\<Sum>v\<in>#M. (real_of_int (hdr_median_equivalent_value h v) - mean)\<^sup>2) / real (size M)))"
proof -
  note ok = hdr_abs_counts_ok [OF abs]
  let ?d = "\<lambda>x. (real_of_int x - mean)\<^sup>2"
  let ?f = "\<lambda>i. real_of_int (slot_count h i) * ?d (hdr_median_equivalent_value h (hdr_value_at_index h i))"
  have "stddev_step h mean x acc = Some (acc + real_of_int (snd x) * ?d (hdr_median_equivalent_value h (fst x)))"
    for x acc
    by (cases x) (simp add: stddev_step_def Let_def power2_eq_square mult_ac)
  then have step: "stddev_step h mean
      = (\<lambda>x acc. Some (acc + real_of_int (snd x) * ?d (hdr_median_equivalent_value h (fst x))))"
    by (intro ext)
  have fold_sum: "fold (\<lambda>x acc. acc + g x) xs a = a + (\<Sum>x\<leftarrow>xs. g x)"
    for g :: "int \<times> int \<Rightarrow> real" and xs a
    by (induction xs arbitrary: a) auto
  have "while_next hdr_iter_next (\<lambda>_. True) (\<lambda>iter. stddev_step h mean (iter_value iter, iter_count iter))
      (hdr_iter_init (blank_iter h) h) 0
    = fold_while (\<lambda>_. True) (stddev_step h mean) (map (slot_view h) [0..counts_len h - 1]) 0"
    unfolding walk_init(2) [OF ok, of "blank_iter h", symmetric]
    by (rule all_values.while_next_fold [OF walk_init(1) [OF ok]]) (simp add: iter_view_def)
  also have "\<dots> = Some (\<Sum>i\<leftarrow>[0..counts_len h - 1]. ?f i)"
    by (simp add: step fold_while_pure fold_sum slot_view_def comp_def)
  also have "(\<Sum>i\<leftarrow>[0..counts_len h - 1]. ?f i) = sum ?f {0..<counts_len h}"
    by (simp add: sum_list_distinct_conv_sum_set flip: atLeastLessThanPlusOne_atLeastAtMost_int)
  also have "\<dots> = (\<Sum>v\<in>#M. ?d (hdr_median_equivalent_value h v))"
    using sum_slots_values [OF abs, of ?d] hdr_abs_slot_count [OF abs] by simp
  finally show ?thesis
    using mean hdr_absD(5) [OF abs] by (simp add: hdr_stddev_def)
qed

section \<open>Recomputing the internal counters\<close>

text \<open>What the scan knows about the slots before \<open>i\<close>.\<close>

definition scan_max :: "hdr_histogram \<Rightarrow> int \<Rightarrow> int \<Rightarrow> bool" where
  "scan_max h i mx \<longleftrightarrow>
     (mx = - 1 \<or> 0 \<le> mx \<and> mx < i \<and> 0 < slot_count h mx) \<and>
     (\<forall>j. 0 \<le> j \<and> mx < j \<and> j < i \<longrightarrow> slot_count h j \<le> 0)"

definition scan_min :: "hdr_histogram \<Rightarrow> int \<Rightarrow> int \<Rightarrow> bool" where
  "scan_min h i mn \<longleftrightarrow>
     (mn = - 1 \<and> (\<forall>j. 0 < j \<and> j < i \<longrightarrow> slot_count h j \<le> 0)) \<or>
     (0 < mn \<and> mn < i \<and> 0 < slot_count h mn \<and> (\<forall>j. 0 < j \<and> j < mn \<longrightarrow> slot_count h j \<le> 0))"

lemma reset_counters_scan_spec:
  assumes ok: "hdr_counts_ok h" and off: "normalizing_index_offset h = 0"
    and "0 \<le> i" "i \<le> counts_len h" "scan_min h i mn" "scan_max h i mx"
  shows "\<exists>mn' mx'. reset_counters_scan h i mn mx (cum_count h i) = Some (mn', mx', total_count h)
    \<and> scan_min h (counts_len h) mn' \<and> scan_max h (counts_len h) mx'"
  using assms(3-6)
proof (induction "nat (counts_len h - i)" arbitrary: i mn mx)
  case 0
  then show ?case
    using cum_count_full [OF ok, of i] by (simp add: reset_counters_scan.simps [of h i])
next
  case (Suc d)
  from Suc have lt: "i < counts_len h" and d: "d = nat (counts_len h - (i + 1))" by simp_all
  note read = slot_count_direct [OF off hdr_counts_okD(1) [OF ok] Suc.prems(1) lt]
  note step = cum_count_step [OF Suc.prems(1) lt]
  let ?mn = "if mn = - 1 \<and> i \<noteq> 0 then i else mn"
  show ?case
  proof (cases "0 < slot_count h i")
    case True
    have cum: "i64 (cum_count h i + slot_count h i) = cum_count h (i + 1)"
      using step cum_count_bounds [OF ok, of "i + 1"] hdr_counts_okD(4) [OF ok]
      by (simp add: i64_nonneg_id)
    have "scan_min h (i + 1) ?mn"
      using Suc.prems(1,3) True by (auto simp: scan_min_def)
    moreover have "scan_max h (i + 1) i"
      using Suc.prems(1) True by (auto simp: scan_max_def)
    ultimately show ?thesis
      using Suc.hyps(1) [OF d, of ?mn i] Suc.prems lt read True cum
      by (simp add: reset_counters_scan.simps [of h i])
  next
    case False
    then have "slot_count h i = 0"
      using slot_count_nonneg [OF ok Suc.prems(1) lt] by simp
    moreover have "scan_min h (i + 1) mn"
      using Suc.prems(1,3) False unfolding scan_min_def by (smt (verit))
    moreover have "scan_max h (i + 1) mx"
      using Suc.prems(1,4) False unfolding scan_max_def by (smt (verit))
    ultimately show ?thesis
      using Suc.hyps(1) [OF d, of mn mx] Suc.prems lt read step
      by (simp add: reset_counters_scan.simps [of h i])
  qed
qed

lemma slot_count_pos_iff:
  assumes "hdr_abs h M" "0 \<le> i" "i < counts_len h"
  shows "0 < slot_count h i \<longleftrightarrow> (\<exists>v \<in># M. counts_index_for h v = i)"
  using hdr_abs_slot_count [OF assms] by (auto simp: nonempty_has_size [symmetric] filter_mset_eq_conv)

lemma scan_max_abs:
  assumes abs: "hdr_abs h M" and ne: "M \<noteq> {#}" and mx: "scan_max h (counts_len h) mx"
  shows "mx = counts_index_for h (Max_mset M)"
proof -
  let ?j = "counts_index_for h (Max_mset M)"
  note wf = hdr_absD(1) [OF abs]
  have mem: "Max_mset M \<in># M" using ne by simp
  note t = trackableD [OF wf hdr_absD(3) [OF abs mem]]
  have pos: "0 < slot_count h ?j"
    using slot_count_pos_iff [OF abs t(3,4)] mem by blast
  then have le: "?j \<le> mx"
    using mx t(3,4) by (auto simp: scan_max_def not_le [symmetric])
  then have "0 \<le> mx" "mx < counts_len h" "0 < slot_count h mx"
    using mx t(3) by (auto simp: scan_max_def)
  then obtain v where v: "v \<in># M" "counts_index_for h v = mx"
    using slot_count_pos_iff [OF abs] by blast
  have "v \<le> Max_mset M" using v(1) by simp
  then have "mx \<le> ?j"
    using hdr.idx_mono [OF wf _ _ t(2), of v] trackableD [OF wf hdr_absD(3) [OF abs v(1)]] v(2) by simp
  with le show ?thesis by simp
qed

lemma scan_min_abs:
  assumes abs: "hdr_abs h M" and ne: "M \<noteq> {#}" and mn: "scan_min h (counts_len h) mn"
    and z: "counts_index_for h (Min_mset M) \<noteq> 0"
  shows "mn = counts_index_for h (Min_mset M)"
proof -
  let ?j = "counts_index_for h (Min_mset M)"
  note wf = hdr_absD(1) [OF abs]
  have mem: "Min_mset M \<in># M" using ne by simp
  note t = trackableD [OF wf hdr_absD(3) [OF abs mem]]
  have pos: "0 < slot_count h ?j"
    using slot_count_pos_iff [OF abs t(3,4)] mem by blast
  have j: "0 < ?j" using t(3) z by simp
  with pos t(4) mn have mn': "0 < mn" "mn < counts_len h" "0 < slot_count h mn"
      "\<forall>j. 0 < j \<and> j < mn \<longrightarrow> slot_count h j \<le> 0"
    by (auto simp: scan_min_def not_le [symmetric])
  have le: "mn \<le> ?j"
    using mn'(4) j pos by (metis not_le)
  from mn'(1-3)
  obtain v where v: "v \<in># M" "counts_index_for h v = mn"
    using slot_count_pos_iff [OF abs, of mn] by auto
  have "Min_mset M \<le> v" using v(1) by simp
  then have "?j \<le> mn"
    using hdr.idx_mono [OF wf t(1)] trackableD [OF wf hdr_absD(3) [OF abs v(1)]] v(2) by blast
  with le show ?thesis by simp
qed

lemma hdr_reset_internal_counters_abs:
  assumes abs: "hdr_abs h M" and off: "normalizing_index_offset h = 0"
  shows "\<exists>mn mx. hdr_reset_internal_counters h =
      Some (h\<lparr>max_value := (if mx = - 1 then 0 else highest_equivalent_value h (hdr_value_at_index h mx)),
             min_value := (if mn = - 1 then INT64_MAX else hdr_value_at_index h mn)\<rparr>)
    \<and> scan_min h (counts_len h) mn \<and> scan_max h (counts_len h) mx"
proof -
  obtain mn mx where "reset_counters_scan h 0 (- 1) (- 1) 0 = Some (mn, mx, total_count h)"
      "scan_min h (counts_len h) mn" "scan_max h (counts_len h) mx"
    using reset_counters_scan_spec [OF hdr_abs_counts_ok [OF abs] off, of 0 "- 1" "- 1"]
      counts_len_bound(1) [OF hdr_absD(1) [OF abs]]
    by (auto simp: scan_min_def scan_max_def)
  then show ?thesis
    by (intro exI [of _ mn] exI [of _ mx]) (simp add: hdr_reset_internal_counters_def Let_def)
qed

lemma highest_equivalent_idem:
  assumes "hdr_config_wf h" "0 \<le> v" "v < value_limit"
  shows "highest_equivalent_value h (highest_equivalent_value h v) = highest_equivalent_value h v"
proof -
  let ?e = "highest_equivalent_value h v"
  have e: "0 \<le> ?e" "?e < value_limit" "lowest_equivalent_value h v \<le> ?e"
    using highest_equivalent_value_ge [OF assms] lowest_equivalent_value_bounds(2) [OF assms] assms(2)
    by simp_all
  then have "lowest_equivalent_value h ?e = lowest_equivalent_value h v"
    using equivalent_range_iff [OF assms e(1,2)] by simp
  then show ?thesis
    using highest_median_of_lowest(1) [OF assms] highest_median_of_lowest(1) [OF assms(1) e(1,2)] by simp
qed

lemma highest_equivalent_zero:
  assumes "hdr_config_wf h" "unit_magnitude h = 0"
  shows "highest_equivalent_value h 0 = 0"
proof -
  have "bucket_of h 0 = 0" "unit_bits h = 0"
    using assms(2) by (simp_all add: bucket_of_def unit_bits_def)
  then show ?thesis
    using highest_equivalent_value_eq [OF assms(1), of 0] lowest_equivalent_zero(1) [OF assms(1)]
      hdr_size_of_equivalent_value_range_eq [OF assms(1), of 0] by simp
qed

lemma non_zero_min_frame [simp]:
  "non_zero_min (h\<lparr>max_value := x, min_value := y\<rparr>)
     = (if y = INT64_MAX then INT64_MAX else lowest_equivalent_value h y)"
  by (simp add: non_zero_min_def)

section \<open>Properties\<close>

text \<open>Merging two histograms returns and adds, for every value recorded in the source, the lowest
  value equivalent to it there; the values that have no slot in the target are dropped, and their
  number is the result.\<close>

theorem hdr_add_refines:
  assumes "hdr_abs h M" "hdr_abs from F" "int (size M + size F) \<le> INT64_MAX"
  shows "\<exists>h'. hdr_add h from
      = Some (h', int (size {#x \<in># F. \<not> trackable h (lowest_equivalent_value from x)#}))
    \<and> hdr_abs h' (M + {#v \<in># image_mset (lowest_equivalent_value from) F. trackable h v#})"
  by (rule hdr_add_abs [OF assms])

theorem hdr_add_refines_witness:
  "\<exists>h'. hdr_add small_histogram sample_histogram = Some (h', 0) \<and> hdr_abs h' {#5, 96, 96#}"
proof -
  have "lowest_equivalent_value sample_histogram 5 = 5" "lowest_equivalent_value sample_histogram 99 = 96"
    by code_simp+
  then show ?thesis
    using hdr_add_refines [OF small_histogram_abs sample_histogram_abs]
    by (simp add: small_histogram_trackable)
qed

text \<open>C36: In a histogram that holds the values \<open>M\<close>, \<open>hdr_value_at_percentile\<close> returns the highest value
  equivalent to the recorded value whose rank is the percentile of the total, rounded to the nearest
  count and at least 1; for the percentile 0 it returns the lowest equivalent value.\<close>

theorem hdr_value_at_percentile_correct:
  assumes "hdr_abs h M" "normalizing_index_offset h = 0" "M \<noteq> {#}" "0 \<le> p"
  shows "hdr_value_at_percentile h p =
    (let v = ranked_value M (percentile_rank (int (size M)) p)
     in Some (if p = 0 then lowest_equivalent_value h v else highest_equivalent_value h v))"
proof -
  note wf = hdr_absD(1) [OF assms(1)]
  let ?v = "ranked_value M (percentile_rank (int (size M)) p)"
  have "?v \<in># M"
    using percentile_rank_bounds [OF assms(3,4)] by (intro ranked_value_mem)
  note t = trackableD(1,2) [OF wf hdr_absD(3) [OF assms(1) this]]
  show ?thesis
    using get_value_rank [OF assms] lowest_equivalent_idem(1) [OF wf t] highest_median_of_lowest(1) [OF wf t]
    by (auto simp: hdr_value_at_percentile_def ranked_value_def Let_def)
qed

theorem hdr_value_at_percentile_correct_witness:
  "hdr_value_at_percentile sample_histogram 50 = Some 99"
proof -
  have "highest_equivalent_value sample_histogram 99 = 99" by code_simp
  moreover have "normalizing_index_offset sample_histogram = 0" by code_simp
  moreover have "\<lfloor>(2::real)\<rfloor> = 2" by simp
  ultimately show ?thesis
    using hdr_value_at_percentile_correct [OF sample_histogram_abs, of 50]
    by (simp add: percentile_rank_def count_at_percentile_def ranked_value_def)
qed

text \<open>\<open>hdr_value_at_percentiles\<close> walks the histogram once, and for percentiles in ascending order it
  fills each position with the highest value equivalent to the recorded value of that rank, the
  answer of \<open>hdr_value_at_percentile\<close> for a positive percentile; a missing array is \<open>EINVAL\<close>.\<close>

theorem hdr_value_at_percentiles_correct:
  assumes "hdr_abs h M" "normalizing_index_offset h = 0" "M \<noteq> {#}" "sorted ps" "\<forall>p \<in> set ps. 0 < p"
  shows "hdr_value_at_percentiles h (Some ps) (Some vs)
      = map_option Inr (those (map (hdr_value_at_percentile h) ps))
    \<and> hdr_value_at_percentiles h None (Some vs) = Some (Inl EINVAL)
    \<and> hdr_value_at_percentiles h (Some ps) None = Some (Inl EINVAL)"
proof -
  note wf = hdr_absD(1) [OF assms(1)]
  have one: "hdr_value_at_percentile h p
      = Some (highest_equivalent_value h (ranked_value M (percentile_rank (int (size M)) p)))"
    if "p \<in> set ps" for p
  proof -
    let ?v = "ranked_value M (percentile_rank (int (size M)) p)"
    have p: "0 < p" using that assms(5) by blast
    have "?v \<in># M"
      using percentile_rank_bounds [OF assms(3), of p] p by (intro ranked_value_mem) auto
    note t = trackableD(1,2) [OF wf hdr_absD(3) [OF assms(1) this]]
    show ?thesis
      using get_value_rank [OF assms(1,2,3), of p] highest_median_of_lowest(1) [OF wf t] p
      by (simp add: hdr_value_at_percentile_def ranked_value_def)
  qed
  have "those (map (hdr_value_at_percentile h) qs)
      = Some (map (\<lambda>p. highest_equivalent_value h (ranked_value M (percentile_rank (int (size M)) p))) qs)"
    if "set qs \<subseteq> set ps" for qs
    using that by (induction qs) (auto simp: one)
  moreover have "hdr_value_at_percentiles h (Some ps) (Some vs) = Some (Inr
      (map (\<lambda>p. highest_equivalent_value h (ranked_value M (percentile_rank (int (size M)) p))) ps))"
    using assms(5) by (intro hdr_value_at_percentiles_eq [OF assms(1,3,4)]) (auto simp: less_imp_le)
  moreover have "hdr_value_at_percentiles h None (Some vs) = Some (Inl EINVAL)"
    "hdr_value_at_percentiles h (Some ps) None = Some (Inl EINVAL)"
    by (simp_all add: hdr_value_at_percentiles_def)
  ultimately show ?thesis by simp
qed

theorem hdr_value_at_percentiles_correct_witness:
  "hdr_value_at_percentiles sample_histogram (Some [10, 99]) (Some [0, 0])
     = map_option Inr (those [hdr_value_at_percentile sample_histogram 10, hdr_value_at_percentile sample_histogram 99])"
proof -
  have "normalizing_index_offset sample_histogram = 0" by code_simp
  then show ?thesis
    using hdr_value_at_percentiles_correct [OF sample_histogram_abs, of "[10, 99]"] by simp
qed

text \<open>On a histogram that holds no value the two percentile queries disagree: the array query leaves
  the intermediate count 1 in every position, while the single query answers with the range of the
  value 0.\<close>

theorem hdr_value_at_percentiles_empty:
  assumes "hdr_abs h {#}" "normalizing_index_offset h = 0"
  shows "hdr_value_at_percentiles h (Some ps) (Some vs) = Some (Inr (map (\<lambda>_. 1) ps))
   \<and> hdr_value_at_percentile h p
       = Some (if p = 0 then lowest_equivalent_value h 0 else highest_equivalent_value h 0)"
proof -
  note ok = hdr_abs_counts_ok [OF assms(1)]
  have zero: "slot_count h i = 0" if "0 \<le> i" "i < counts_len h" for i
    using hdr_abs_slot_count [OF assms(1) that] by simp
  have tc: "total_count h = 0" using hdr_absD(5) [OF assms(1)] by simp
  have cap: "count_at_percentile 0 q = 0" for q
    by (simp add: count_at_percentile_def Let_def)
  have "while_next hdr_iter_next (\<lambda>(sc, vs, at_pos). at_pos < length ps)
      (\<lambda>iter (sum_counts, vs', at_pos).
         let sum_counts' = i64 (sum_counts + iter_count iter);
             (vs'', at_pos') = report_percentiles sum_counts'
                (highest_equivalent_value h (iter_value iter)) vs' at_pos
         in Some (sum_counts', vs'', at_pos'))
      (hdr_iter_init (blank_iter h) h) (0, map (\<lambda>_. 1) ps, 0)
    = fold_while (\<lambda>(sc, vs, at_pos). at_pos < length ps) (percentiles_step h)
      (map (slot_view h) [0..counts_len h - 1]) (0, map (\<lambda>_. 1) ps, 0)"
    unfolding walk_init(2) [OF ok, of "blank_iter h", symmetric]
    by (rule all_values.while_next_fold [OF walk_init(1) [OF ok]]) (simp add: iter_view_def)
  also have "\<dots> = Some (0, map (\<lambda>_. 1) ps, 0)"
    by (rule percentiles_fold_zero) (auto simp: slot_view_def zero)
  finally show ?thesis
    using value_up_to_count_loop_zero [OF ok assms(2) zero, of 0]
    by (simp add: hdr_value_at_percentiles_def hdr_value_at_percentile_def
        get_value_from_idx_up_to_count_def tc cap)
qed

theorem hdr_value_at_percentiles_empty_witness:
  "hdr_value_at_percentiles small_histogram (Some [50]) (Some [0]) = Some (Inr [1])
   \<and> hdr_value_at_percentile small_histogram 50 = Some 0"
proof -
  have "normalizing_index_offset small_histogram = 0" "highest_equivalent_value small_histogram 0 = 0"
    by code_simp+
  then show ?thesis
    using hdr_value_at_percentiles_empty [OF small_histogram_abs, of "[50]" "[0]" 50] by simp
qed

text \<open>When the weighted sum of the slot middles fits 64 bits, \<open>hdr_mean\<close> is the mean of the middles of
  the ranges of the recorded values and \<open>hdr_stddev\<close> their standard deviation.\<close>

theorem hdr_mean_stddev_correct:
  assumes "hdr_abs h M" "(\<Sum>v\<in>#M. hdr_median_equivalent_value h v) \<le> INT64_MAX"
  shows "let mean = real_of_int (\<Sum>v\<in>#M. hdr_median_equivalent_value h v) / real (size M)
    in hdr_mean h = Some mean
     \<and> hdr_stddev h
         = Some (sqrt ((\<Sum>v\<in>#M. (real_of_int (hdr_median_equivalent_value h v) - mean)\<^sup>2) / real (size M)))"
  using hdr_mean_eq [OF assms] hdr_stddev_eq [OF assms(1) hdr_mean_eq [OF assms]] by (simp add: Let_def)

theorem hdr_mean_stddev_correct_witness: "hdr_mean sample_histogram = Some (67 :: real)"
proof -
  have "hdr_median_equivalent_value sample_histogram 5 = 5"
    "hdr_median_equivalent_value sample_histogram 99 = 98"
    by code_simp+
  then show ?thesis
    using hdr_mean_stddev_correct [OF sample_histogram_abs] by (simp add: Let_def)
qed

text \<open>The smallest value after the counters were recomputed, when the first slot is empty and when it is not.\<close>

lemma first_slot_empty:
  assumes abs: "hdr_abs h M" and ne: "M \<noteq> {#}" and "counts_index_for h (Min_mset M) \<noteq> 0"
  shows "slot_count h 0 = 0"
proof (rule ccontr)
  note wf = hdr_absD(1) [OF abs]
  have "Min_mset M \<in># M" using ne by simp
  note tb = trackableD [OF wf hdr_absD(3) [OF abs this]]
  assume "slot_count h 0 \<noteq> 0"
  then obtain v where v: "v \<in># M" "counts_index_for h v = 0"
    using slot_count_pos_iff [OF abs, of 0] counts_len_bound(1) [OF wf]
      slot_count_nonneg [OF hdr_abs_counts_ok [OF abs], of 0] by auto
  then have "Min_mset M \<le> v" by simp
  then show False
    using hdr.idx_mono [OF wf tb(1)] trackableD [OF wf hdr_absD(3) [OF abs v(1)]] v(2) assms(3) tb(3) by force
qed

lemma hdr_min_recomputed:
  assumes abs: "hdr_abs h M" and ne: "M \<noteq> {#}" and lim: "Min_mset M < INT64_MAX" and scan: "scan_min h (counts_len h) mn"
  shows "hdr_min (h\<lparr>max_value := x, min_value := (if mn = - 1 then INT64_MAX else hdr_value_at_index h mn)\<rparr>) = hdr_min h"
    (is "hdr_min ?h' = _")
proof (cases "counts_index_for h (Min_mset M) = 0")
  note wf = hdr_absD(1) [OF abs] and ok = hdr_abs_counts_ok [OF abs]
  case True
  then have "0 < slot_count h 0"
    using slot_count_pos_iff [OF abs, of 0] counts_len_bound(1) [OF wf] ne by auto
  then show ?thesis
    using counts_get_slot_count [OF ok, of 0] counts_len_bound(1) [OF wf]
    by (simp add: hdr_min_def hdr_count_at_index_def)
next
  let ?b = "Min_mset M"
  note wf = hdr_absD(1) [OF abs] and ok = hdr_abs_counts_ok [OF abs]
  have "?b \<in># M" using ne by simp
  note tb = trackableD [OF wf hdr_absD(3) [OF abs this]]
  case False
  have mn: "mn = counts_index_for h ?b" "mn \<noteq> - 1"
    using scan_min_abs [OF abs ne scan False] tb(3) by simp_all
  have low: "hdr_value_at_index h mn = lowest_equivalent_value h ?b" "lowest_equivalent_value h ?b \<le> ?b"
    using mn value_at_counts_index_for [OF wf tb(1,2)] tb(4) lowest_equivalent_value_bounds(2) [OF wf tb(1,2)]
    by simp_all
  then have "non_zero_min ?h' = lowest_equivalent_value h ?b"
    using mn lim lowest_equivalent_idem(1) [OF wf tb(1,2)] by simp
  then show ?thesis
    using first_slot_empty [OF abs ne False] counts_get_slot_count [OF ok, of 0] counts_len_bound(1) [OF wf]
      hdr_min_eq [OF abs ne lim]
    by (simp add: hdr_min_def hdr_count_at_index_def)
qed

text \<open>Recomputing the internal counters of a histogram that was kept up to date by recording changes
  neither the total nor the extremes it reports.\<close>

theorem hdr_reset_internal_counters_agrees:
  assumes abs: "hdr_abs h M" and "normalizing_index_offset h = 0" "unit_magnitude h = 0"
    and ne: "M \<noteq> {#}" and lim: "Min_mset M < INT64_MAX"
  shows "\<exists>h'. hdr_reset_internal_counters h = Some h' \<and> total_count h' = total_count h
    \<and> counts h' = counts h \<and> hdr_max h' = hdr_max h \<and> hdr_min h' = hdr_min h"
proof -
  note wf = hdr_absD(1) [OF abs]
  let ?a = "Max_mset M"
  have "?a \<in># M" using ne by simp
  note ta = trackableD [OF wf hdr_absD(3) [OF abs this]]
  obtain mn mx where r: "hdr_reset_internal_counters h =
      Some (h\<lparr>max_value := (if mx = - 1 then 0 else highest_equivalent_value h (hdr_value_at_index h mx)),
             min_value := (if mn = - 1 then INT64_MAX else hdr_value_at_index h mn)\<rparr>)" (is "_ = Some ?h'")
      and scan: "scan_min h (counts_len h) mn" "scan_max h (counts_len h) mx"
    using hdr_reset_internal_counters_abs [OF abs assms(2)] by blast
  have mx: "mx = counts_index_for h ?a" "mx \<noteq> - 1"
    using scan_max_abs [OF abs ne scan(2)] ta(3) by simp_all
  have "max_value ?h' = highest_equivalent_value h ?a"
    using mx value_at_counts_index_for [OF wf ta(1,2)] ta(4) highest_median_of_lowest(1) [OF wf ta(1,2)]
    by simp
  then have "hdr_max ?h' = hdr_max h"
    using hdr_abs_max(1) [OF abs ne] highest_equivalent_idem [OF wf ta(1,2)]
      highest_equivalent_value_ge(1) [OF wf ta(1,2)] highest_equivalent_zero [OF wf assms(3)] ta(1)
    by (auto simp: hdr_max_def)
  then show ?thesis using r hdr_min_recomputed [OF abs ne lim scan(1)] by simp
qed

theorem hdr_reset_internal_counters_agrees_witness:
  "\<exists>h'. hdr_reset_internal_counters sample_histogram = Some h' \<and> total_count h' = 3"
proof -
  have "normalizing_index_offset sample_histogram = 0" "unit_magnitude sample_histogram = 0"
    "total_count sample_histogram = 3" by code_simp+
  then show ?thesis
    using hdr_reset_internal_counters_agrees [OF sample_histogram_abs] by auto
qed

end
