(* ===== verification/Codecs.thy ===== *)
theory Codecs
  imports Prelude
begin

text \<open>
  The contract of a self-delimiting encoding: decoding at the front of a buffer gives the value and
  the number of bytes that were read, whatever follows. From it, a buffer that holds a sequence of
  encoded values is decoded as that sequence.
\<close>

text \<open>Decoding exactly \<open>n\<close> values from the front of a buffer.\<close>

fun decode_many :: "(byte list \<Rightarrow> ('a \<times> nat) option) \<Rightarrow> nat \<Rightarrow> byte list \<Rightarrow> ('a list \<times> byte list) option" where
  "decode_many dec 0 buf = Some ([], buf)"
| "decode_many dec (Suc n) buf =
     (case dec buf of
        None \<Rightarrow> None
      | Some (x, k) \<Rightarrow>
          (case decode_many dec n (drop k buf) of
             None \<Rightarrow> None
           | Some (xs, rest) \<Rightarrow> Some (x # xs, rest)))"

locale prefix_codec =
  fixes enc :: "'a \<Rightarrow> byte list" and dec :: "byte list \<Rightarrow> ('a \<times> nat) option" and max_len :: nat
  assumes dec_enc: "dec (enc x @ rest) = Some (x, length (enc x))"
    and enc_len: "0 < length (enc x)" "length (enc x) \<le> max_len"
begin

lemma decode_many_concat:
  "decode_many dec (length xs) (concat (map enc xs) @ rest) = Some (xs, rest)"
  by (induction xs) (simp_all add: dec_enc)

lemma enc_inj: "enc x = enc y \<Longrightarrow> x = y"
  using dec_enc [of x "[]"] dec_enc [of y "[]"] by simp

lemma concat_enc_inj:
  assumes "concat (map enc xs) = concat (map enc ys)" "length xs = length ys"
  shows "xs = ys"
  using decode_many_concat [of xs "[]"] decode_many_concat [of ys "[]"] assms by simp

lemma length_concat_enc: "length (concat (map enc xs)) \<le> max_len * length xs"
  by (induction xs) (use enc_len in \<open>auto intro: add_mono\<close>)

end

end
