(* ===== verification/Hdr_Encoding.thy ===== *)
theory Hdr_Encoding
  imports Codecs
begin

text \<open>
  \<^verbatim>\<open>hdr_encoding.c\<close>: the ZigZag variable-length encoding of 64-bit integers and Base64. An
  \<open>int64_t\<close> or \<open>uint64_t\<close> is a \<open>64 word\<close>; the right shift of a signed value is \<open>signed_drop_bit\<close>.
  An encoder returns the bytes it writes, a decoder that reads past its buffer returns \<open>None\<close>.
\<close>

section \<open>ZigZag\<close>

abbreviation (input) to_u8 :: "u64 \<Rightarrow> byte" where
  "to_u8 w \<equiv> ucast w"

definition zig_zag_encode_i64 :: "u64 \<Rightarrow> byte list" where
  "zig_zag_encode_i64 signed_value =
     (let value = push_bit 1 signed_value XOR signed_drop_bit 63 signed_value in
      if signed_drop_bit 7 value = 0 then [to_u8 value]
      else to_u8 ((value AND 0x7F) OR 0x80) #
        (if signed_drop_bit 14 value = 0 then [to_u8 (signed_drop_bit 7 value)]
         else to_u8 (signed_drop_bit 7 value OR 0x80) #
           (if signed_drop_bit 21 value = 0 then [to_u8 (signed_drop_bit 14 value)]
            else to_u8 (signed_drop_bit 14 value OR 0x80) #
              (if signed_drop_bit 28 value = 0 then [to_u8 (signed_drop_bit 21 value)]
               else to_u8 (signed_drop_bit 21 value OR 0x80) #
                 (if signed_drop_bit 35 value = 0 then [to_u8 (signed_drop_bit 28 value)]
                  else to_u8 (signed_drop_bit 28 value OR 0x80) #
                    (if signed_drop_bit 42 value = 0 then [to_u8 (signed_drop_bit 35 value)]
                     else to_u8 (signed_drop_bit 35 value OR 0x80) #
                       (if signed_drop_bit 49 value = 0 then [to_u8 (signed_drop_bit 42 value)]
                        else to_u8 (signed_drop_bit 42 value OR 0x80) #
                          (if signed_drop_bit 56 value = 0 then [to_u8 (signed_drop_bit 49 value)]
                           else [to_u8 (signed_drop_bit 49 value OR 0x80),
                                 to_u8 (signed_drop_bit 56 value)]))))))))"

text \<open>Reading \<open>buffer[i]\<close> as a 64-bit value.\<close>

definition byte_at :: "byte list \<Rightarrow> nat \<Rightarrow> u64 option" where
  "byte_at buffer i = (if i < length buffer then Some (ucast (buffer ! i)) else None)"

definition zig_zag_decode_i64 :: "byte list \<Rightarrow> (u64 \<times> nat) option" where
  "zig_zag_decode_i64 buffer =
     map_option (\<lambda>(value, bytesRead). (drop_bit 1 value XOR - (value AND 1), bytesRead))
     (do {
        v \<leftarrow> byte_at buffer 0;
        let value = v AND 0x7F;
        if v AND 0x80 = 0 then Some (value, 1) else do {
        v \<leftarrow> byte_at buffer 1;
        let value = value OR push_bit 7 (v AND 0x7F);
        if v AND 0x80 = 0 then Some (value, 2) else do {
        v \<leftarrow> byte_at buffer 2;
        let value = value OR push_bit 14 (v AND 0x7F);
        if v AND 0x80 = 0 then Some (value, 3) else do {
        v \<leftarrow> byte_at buffer 3;
        let value = value OR push_bit 21 (v AND 0x7F);
        if v AND 0x80 = 0 then Some (value, 4) else do {
        v \<leftarrow> byte_at buffer 4;
        let value = value OR push_bit 28 (v AND 0x7F);
        if v AND 0x80 = 0 then Some (value, 5) else do {
        v \<leftarrow> byte_at buffer 5;
        let value = value OR push_bit 35 (v AND 0x7F);
        if v AND 0x80 = 0 then Some (value, 6) else do {
        v \<leftarrow> byte_at buffer 6;
        let value = value OR push_bit 42 (v AND 0x7F);
        if v AND 0x80 = 0 then Some (value, 7) else do {
        v \<leftarrow> byte_at buffer 7;
        let value = value OR push_bit 49 (v AND 0x7F);
        if v AND 0x80 = 0 then Some (value, 8) else do {
        v \<leftarrow> byte_at buffer 8;
        Some (value OR push_bit 56 v, 9) }}}}}}}} })"

section \<open>Base64\<close>

definition base64_table :: string where
  "base64_table = ''ABCDEFGHIJKLMNOPQRSTUVWXYZabcdefghijklmnopqrstuvwxyz0123456789+/''"

definition get_base_64 :: "u32 \<Rightarrow> nat \<Rightarrow> char" where
  "get_base_64 v24 shift = base64_table ! unat (0x3F AND drop_bit shift v24)"

definition from_base_64 :: "char \<Rightarrow> int" where
  "from_base_64 ch =
     (let c = of_char ch :: int in
      if of_char CHR ''A'' \<le> c \<and> c \<le> of_char CHR ''Z'' then c - of_char CHR ''A''
      else if of_char CHR ''a'' \<le> c \<and> c \<le> of_char CHR ''z'' then (c - of_char CHR ''a'') + 26
      else if of_char CHR ''0'' \<le> c \<and> c \<le> of_char CHR ''9'' then (c - of_char CHR ''0'') + 52
      else if CHR ''+'' = ch then 62
      else if CHR ''/'' = ch then 63
      else if CHR ''='' = ch then 0
      else EINVAL)"

definition hdr_base64_encoded_len :: "nat \<Rightarrow> nat" where
  "hdr_base64_encoded_len decoded_size = nat \<lfloor>real_of_int \<lceil>real decoded_size / 3\<rceil> * 4\<rfloor>"

definition hdr_base64_decoded_len :: "nat \<Rightarrow> nat" where
  "hdr_base64_decoded_len encoded_size = (encoded_size div 4) * 3"

definition hdr_base64_encode_block_pad :: "byte list \<Rightarrow> string" where
  "hdr_base64_encode_block_pad input =
     (case input of
        [b0, b1] \<Rightarrow>
          let v24 = push_bit 16 (ucast b0 :: u32) + push_bit 8 (ucast b1)
          in [get_base_64 v24 18, get_base_64 v24 12, get_base_64 v24 6, CHR ''='']
      | [b0] \<Rightarrow>
          let v24 = push_bit 16 (ucast b0 :: u32)
          in [get_base_64 v24 18, get_base_64 v24 12, CHR ''='', CHR ''='']
      | _ \<Rightarrow> [])"

definition hdr_base64_encode_block :: "byte \<Rightarrow> byte \<Rightarrow> byte \<Rightarrow> string" where
  "hdr_base64_encode_block b0 b1 b2 =
     (let v24 = push_bit 16 (ucast b0 :: u32) + push_bit 8 (ucast b1) + ucast b2
      in [get_base_64 v24 18, get_base_64 v24 12, get_base_64 v24 6, get_base_64 v24 0])"

text \<open>The loop over blocks and the final partial block; \<open>j\<close> is the position in the output.\<close>

fun base64_encode_loop :: "byte list \<Rightarrow> nat \<Rightarrow> nat \<Rightarrow> string" where
  "base64_encode_loop (b0 # b1 # b2 # rest) j output_len =
     (if j < output_len
      then hdr_base64_encode_block b0 b1 b2 @ base64_encode_loop rest (j + 4) output_len
      else hdr_base64_encode_block_pad (b0 # b1 # b2 # rest))"
| "base64_encode_loop input j output_len = hdr_base64_encode_block_pad input"

definition hdr_base64_encode :: "byte list \<Rightarrow> nat \<Rightarrow> int + string" where
  "hdr_base64_encode input output_len =
     (if hdr_base64_encoded_len (length input) \<noteq> output_len then Inl EINVAL
      else Inr (base64_encode_loop input 0 output_len))"

definition hdr_base64_decode_block :: "char \<Rightarrow> char \<Rightarrow> char \<Rightarrow> char \<Rightarrow> byte list" where
  "hdr_base64_decode_block c0 c1 c2 c3 =
     (let v24 = push_bit 18 (of_int (from_base_64 c0) :: u32) OR push_bit 12 (of_int (from_base_64 c1))
                OR push_bit 6 (of_int (from_base_64 c2)) OR of_int (from_base_64 c3)
      in [ucast (drop_bit 16 v24 AND 0xFF), ucast (drop_bit 8 v24 AND 0xFF), ucast (v24 AND 0xFF)])"

fun base64_decode_loop :: "string \<Rightarrow> byte list" where
  "base64_decode_loop (c0 # c1 # c2 # c3 # rest) =
     hdr_base64_decode_block c0 c1 c2 c3 @ base64_decode_loop rest"
| "base64_decode_loop _ = []"

definition hdr_base64_decode :: "string \<Rightarrow> nat \<Rightarrow> int + byte list" where
  "hdr_base64_decode input output_len =
     (if length input < 4 \<or> length input AND 3 \<noteq> 0 \<or> (length input div 4) * 3 \<noteq> output_len
      then Inl (- EINVAL)
      else Inr (base64_decode_loop input))"

section \<open>ZigZag round trip\<close>

lemma bit_0x80: "bit (0x80 :: int) n \<longleftrightarrow> n = 7" "bit (0x80 :: u64) n \<longleftrightarrow> n = 7"
proof -
  have "bit (0x80 :: int) n = bit (2 ^ 7 :: int) n" "bit (0x80 :: u64) n = bit (2 ^ 7 :: u64) n"
    by simp_all
  then show "bit (0x80 :: int) n \<longleftrightarrow> n = 7" "bit (0x80 :: u64) n \<longleftrightarrow> n = 7"
    unfolding bit_exp_iff by auto
qed

lemma and_0x7F: "v AND (0x7F :: u64) = take_bit 7 v"
  by (simp add: take_bit_eq_mask mask_eq_exp_minus_1)

lemma signed_drop_zero_iff:
  fixes v :: u64
  assumes "k \<le> 63"
  shows "signed_drop_bit k v = 0 \<longleftrightarrow> take_bit k v = v"
proof
  assume z: "signed_drop_bit k v = 0"
  show "take_bit k v = v"
  proof (rule bit_word_eqI)
    fix n assume n: "n < LENGTH(64)"
    have "\<not> bit (signed_drop_bit k v) (n - k)" by (simp add: z)
    then have "\<not> bit v n" if "k \<le> n"
      using n assms that by (auto simp: bit_signed_drop_bit_iff split: if_splits)
    then show "bit (take_bit k v) n = bit v n"
      using n by (cases "n < k") (auto simp: bit_simps)
  qed
next
  assume t: "take_bit k v = v"
  have no: "\<not> bit v n" if "k \<le> n" for n
    using that by (subst t [symmetric]) (simp add: bit_simps)
  show "signed_drop_bit k v = 0"
    by (rule bit_word_eqI) (use no assms in \<open>auto simp: bit_signed_drop_bit_iff\<close>)
qed

lemma take_bit_chunk:
  fixes v :: u64
  shows "take_bit m v OR push_bit m (take_bit 7 (drop_bit m v)) = take_bit (m + 7) v"
  by (rule bit_word_eqI) (auto simp: bit_simps)

lemma continue_byte:
  fixes v :: u64
  assumes "m \<le> 56"
  shows "take_bit 7 (ucast (ucast (signed_drop_bit m v OR 0x80) :: byte) :: u64) = take_bit 7 (drop_bit m v)"
    "ucast (ucast (signed_drop_bit m v OR 0x80) :: byte) AND (0x80 :: u64) \<noteq> 0"
proof -
  show "take_bit 7 (ucast (ucast (signed_drop_bit m v OR 0x80) :: byte) :: u64) = take_bit 7 (drop_bit m v)"
    using assms by (intro bit_word_eqI) (auto simp: bit_simps bit_signed_drop_bit_iff bit_0x80)
  have "bit (ucast (ucast (signed_drop_bit m v OR 0x80) :: byte) AND (0x80 :: u64)) 7"
    by (simp add: bit_simps bit_0x80)
  then show "ucast (ucast (signed_drop_bit m v OR 0x80) :: byte) AND (0x80 :: u64) \<noteq> 0"
    by (metis bit_0_eq bot_apply bot_bool_def)
qed

lemma last_byte:
  fixes v :: u64
  assumes "m \<le> 49" "take_bit (m + 7) v = v"
  shows "take_bit 7 (ucast (ucast (signed_drop_bit m v) :: byte) :: u64) = take_bit 7 (drop_bit m v)"
    "ucast (ucast (signed_drop_bit m v) :: byte) AND (0x80 :: u64) = 0"
proof -
  have no: "\<not> bit v n" if "m + 7 \<le> n" for n
    using that by (subst assms(2) [symmetric]) (simp add: bit_simps)
  show "take_bit 7 (ucast (ucast (signed_drop_bit m v) :: byte) :: u64) = take_bit 7 (drop_bit m v)"
    using assms by (intro bit_word_eqI) (auto simp: bit_simps bit_signed_drop_bit_iff)
  show "ucast (ucast (signed_drop_bit m v) :: byte) AND (0x80 :: u64) = 0"
    using assms no by (intro bit_word_eqI) (auto simp: bit_simps bit_signed_drop_bit_iff bit_0x80)
qed

lemma top_byte:
  fixes v :: u64
  shows "take_bit 56 v OR push_bit 56 (ucast (ucast (signed_drop_bit 56 v) :: byte)) = v"
proof (rule bit_word_eqI)
  fix n assume "n < LENGTH(64)"
  then show "bit (take_bit 56 v OR push_bit 56 (ucast (ucast (signed_drop_bit 56 v) :: byte))) n = bit v n"
    by (cases "n < 56") (auto simp: bit_simps bit_signed_drop_bit_iff)
qed

lemma zig_zag_inverse:
  fixes w :: u64
  defines "z \<equiv> push_bit 1 w XOR signed_drop_bit 63 w"
  shows "drop_bit 1 z XOR - (z AND 1) = w"
proof -
  have bits: "bit z n \<longleftrightarrow> ((1 \<le> n \<and> bit w (n - 1)) \<noteq> bit w 63)" if "n < 64" for n
    using that unfolding z_def bit_xor_iff bit_push_bit_iff bit_signed_drop_bit_iff
    by (auto simp: not_less le_less_Suc_eq not_le)
  have low: "z AND 1 = (if bit w 63 then 1 else 0)"
    by (rule bit_word_eqI) (auto simp: bit_and_iff bit_1_iff bits)
  have "bit (drop_bit 1 z XOR - (z AND 1)) n = bit w n" if n: "n < 64" for n
  proof (cases "n = 63")
    case True
    moreover have "\<not> bit z 64" using bit_imp_le_length [of z 64] by auto
    ultimately show ?thesis
      by (simp add: low bit_xor_iff bit_drop_bit_eq bit_minus_1_iff)
  next
    case False
    then show ?thesis
      using n by (simp add: low bit_xor_iff bit_drop_bit_eq bit_minus_1_iff bits)
  qed
  then show ?thesis
    by (intro bit_word_eqI) simp
qed

lemma first_byte:
  fixes z :: u64
  shows "(ucast ((z AND 0x7F) OR 0x80) :: byte) = ucast (signed_drop_bit 0 z OR 0x80)"
  unfolding and_0x7F by (rule bit_word_eqI) (auto simp: bit_simps bit_0x80 bit_signed_drop_bit_iff)

text \<open>The nested conditionals as recursions over the position \<open>i\<close> of the byte.\<close>

function leb_encode :: "nat \<Rightarrow> u64 \<Rightarrow> byte list" where
  "leb_encode i z =
     (if 8 \<le> i then [to_u8 (signed_drop_bit (7 * i) z)]
      else if signed_drop_bit (7 * i + 7) z = 0 then [to_u8 (signed_drop_bit (7 * i) z)]
      else to_u8 (signed_drop_bit (7 * i) z OR 0x80) # leb_encode (i + 1) z)"
  by pat_completeness auto
termination by (relation "measure (\<lambda>(i, z). 8 - i)") auto

function leb_decode :: "nat \<Rightarrow> u64 \<Rightarrow> byte list \<Rightarrow> (u64 \<times> nat) option" where
  "leb_decode i acc buffer =
     (case byte_at buffer i of
        None \<Rightarrow> None
      | Some v \<Rightarrow>
          if 8 \<le> i then Some (acc OR push_bit (7 * i) v, i + 1)
          else if v AND 0x80 = 0 then Some (acc OR push_bit (7 * i) (v AND 0x7F), i + 1)
          else leb_decode (i + 1) (acc OR push_bit (7 * i) (v AND 0x7F)) buffer)"
  by pat_completeness auto
termination by (relation "measure (\<lambda>(i, acc, buffer). 8 - i)") auto

declare leb_encode.simps [simp del] leb_decode.simps [simp del]

lemma zig_zag_encode_leb:
  "zig_zag_encode_i64 w = leb_encode 0 (push_bit 1 w XOR signed_drop_bit 63 w)"
proof -
  define z where "z = push_bit 1 w XOR signed_drop_bit 63 w"
  have z0: "signed_drop_bit 0 z = z" by simp
  show ?thesis
    unfolding zig_zag_encode_i64_def Let_def first_byte z_def [symmetric]
    by (simp add: leb_encode.simps z0 [simplified])
qed

lemma leb_decode_steps:
  "leb_decode 0 0 buffer = do { v \<leftarrow> byte_at buffer 0;
     if v AND 0x80 = 0 then Some (v AND 0x7F, 1) else leb_decode 1 (v AND 0x7F) buffer }"
  "leb_decode 1 acc buffer = do { v \<leftarrow> byte_at buffer 1;
     if v AND 0x80 = 0 then Some (acc OR push_bit 7 (v AND 0x7F), 2)
     else leb_decode 2 (acc OR push_bit 7 (v AND 0x7F)) buffer }"
  "leb_decode 2 acc buffer = do { v \<leftarrow> byte_at buffer 2;
     if v AND 0x80 = 0 then Some (acc OR push_bit 14 (v AND 0x7F), 3)
     else leb_decode 3 (acc OR push_bit 14 (v AND 0x7F)) buffer }"
  "leb_decode 3 acc buffer = do { v \<leftarrow> byte_at buffer 3;
     if v AND 0x80 = 0 then Some (acc OR push_bit 21 (v AND 0x7F), 4)
     else leb_decode 4 (acc OR push_bit 21 (v AND 0x7F)) buffer }"
  "leb_decode 4 acc buffer = do { v \<leftarrow> byte_at buffer 4;
     if v AND 0x80 = 0 then Some (acc OR push_bit 28 (v AND 0x7F), 5)
     else leb_decode 5 (acc OR push_bit 28 (v AND 0x7F)) buffer }"
  "leb_decode 5 acc buffer = do { v \<leftarrow> byte_at buffer 5;
     if v AND 0x80 = 0 then Some (acc OR push_bit 35 (v AND 0x7F), 6)
     else leb_decode 6 (acc OR push_bit 35 (v AND 0x7F)) buffer }"
  "leb_decode 6 acc buffer = do { v \<leftarrow> byte_at buffer 6;
     if v AND 0x80 = 0 then Some (acc OR push_bit 42 (v AND 0x7F), 7)
     else leb_decode 7 (acc OR push_bit 42 (v AND 0x7F)) buffer }"
  "leb_decode 7 acc buffer = do { v \<leftarrow> byte_at buffer 7;
     if v AND 0x80 = 0 then Some (acc OR push_bit 49 (v AND 0x7F), 8)
     else leb_decode 8 (acc OR push_bit 49 (v AND 0x7F)) buffer }"
  "leb_decode 8 acc buffer = do { v \<leftarrow> byte_at buffer 8; Some (acc OR push_bit 56 v, 9) }"
  by (subst leb_decode.simps, simp split: option.split del: One_nat_def; fail)+

lemma zig_zag_decode_leb:
  "zig_zag_decode_i64 buffer =
     map_option (\<lambda>(value, bytesRead). (drop_bit 1 value XOR - (value AND 1), bytesRead))
       (leb_decode 0 0 buffer)"
  unfolding zig_zag_decode_i64_def Let_def leb_decode_steps by (rule refl)

lemma leb_round_trip:
  assumes "i \<le> 8" "length pre = i"
  shows "leb_decode i (take_bit (7 * i) z) (pre @ leb_encode i z @ rest)
    = Some (z, i + length (leb_encode i z))"
  using assms
proof (induction "8 - i" arbitrary: i pre)
  case 0
  then have i: "i = 8" by simp
  then show ?case
    using 0 top_byte [of z]
    by (simp add: leb_decode.simps [of 8] leb_encode.simps [of 8] byte_at_def nth_append)
next
  case (Suc d)
  from Suc have i: "i < 8" "d = 8 - (i + 1)" by simp_all
  let ?b = "to_u8 (signed_drop_bit (7 * i) z OR 0x80)"
  show ?case
  proof (cases "signed_drop_bit (7 * i + 7) z = 0")
    case True
    then have t: "take_bit (7 * i + 7) z = z"
      using signed_drop_zero_iff [of "7 * i + 7" z] i by simp
    have "take_bit (7 * i) z OR push_bit (7 * i) (take_bit 7 (drop_bit (7 * i) z)) = z"
      using take_bit_chunk [of "7 * i" z] t by simp
    then show ?thesis
      using True i Suc.prems last_byte [OF _ t] 
      by (simp add: leb_decode.simps [of i] leb_encode.simps [of i] byte_at_def nth_append and_0x7F)
  next
    case False
    have enc: "leb_encode i z = ?b # leb_encode (i + 1) z"
      using False i by (subst leb_encode.simps) simp
    have "leb_decode (i + 1) (take_bit (7 * (i + 1)) z) ((pre @ [?b]) @ leb_encode (i + 1) z @ rest)
        = Some (z, i + 1 + length (leb_encode (i + 1) z))"
      using i Suc.prems by (intro Suc.hyps(1)) auto
    then show ?thesis
      using enc i Suc.prems continue_byte [of "7 * i" z] take_bit_chunk [of "7 * i" z]
      by (simp add: leb_decode.simps [of i] byte_at_def nth_append and_0x7F add.commute)
  qed
qed

lemma zig_zag_round_trip:
  "zig_zag_decode_i64 (zig_zag_encode_i64 w @ rest) = Some (w, length (zig_zag_encode_i64 w))"
  using leb_round_trip [of 0 "[]" "push_bit 1 w XOR signed_drop_bit 63 w" rest] zig_zag_inverse [of w]
  by (simp add: zig_zag_decode_leb zig_zag_encode_leb)

lemma leb_encode_length:
  assumes "i \<le> 8"
  shows "0 < length (leb_encode i z) \<and> length (leb_encode i z) \<le> 9 - i"
  using assms
proof (induction "8 - i" arbitrary: i)
  case (Suc d)
  then have i: "i < 8" "d = 8 - (i + 1)" by simp_all
  have "length (leb_encode (i + 1) z) \<le> 8 - i"
    using Suc.hyps(1) [OF i(2)] i(1) by simp
  then show ?case
    using i(1) by (simp add: leb_encode.simps [of i]) arith
qed (simp add: leb_encode.simps)

interpretation zig_zag: prefix_codec zig_zag_encode_i64 zig_zag_decode_i64 9
proof
  fix w rest
  show "zig_zag_decode_i64 (zig_zag_encode_i64 w @ rest) = Some (w, length (zig_zag_encode_i64 w))"
    by (rule zig_zag_round_trip)
  show "0 < length (zig_zag_encode_i64 w)" "length (zig_zag_encode_i64 w) \<le> 9"
    using leb_encode_length [of 0] unfolding zig_zag_encode_leb by simp_all
qed

section \<open>Base64 round trip\<close>

lemma byte_bit: "bit (b :: byte) n \<Longrightarrow> n < 8"
  using bit_imp_le_length [of b n] by simp

lemma base64_table_inverse: "n < 64 \<Longrightarrow> from_base_64 (base64_table ! n) = int n"
proof -
  have "list_all (\<lambda>n. from_base_64 (base64_table ! n) = int n) [0..<64]" by code_simp
  then show "n < 64 \<Longrightarrow> from_base_64 (base64_table ! n) = int n" by (simp add: list_all_iff)
qed

lemma and_0x3F: "(0x3F :: u32) AND v = take_bit 6 v"
  by (simp add: take_bit_eq_mask mask_eq_exp_minus_1 and.commute)

lemma and_0xFF: "v AND (0xFF :: u32) = take_bit 8 v"
  by (simp add: take_bit_eq_mask mask_eq_exp_minus_1)

lemma from_get_base_64: "of_int (from_base_64 (get_base_64 v s)) = take_bit 6 (drop_bit s v)"
proof -
  have "unat (take_bit 6 (drop_bit s v)) < 64"
    using take_bit_nat_less_exp [of 6 "unat (drop_bit s v)"] by (simp add: unsigned_take_bit_eq)
  then show ?thesis
    by (simp add: get_base_64_def and_0x3F base64_table_inverse)
qed

lemma from_base_64_pad: "from_base_64 CHR ''='' = 0"
  by code_simp

lemma sextets:
  fixes v :: u32
  assumes "take_bit 24 v = v"
  shows "push_bit 18 (take_bit 6 (drop_bit 18 v)) OR push_bit 12 (take_bit 6 (drop_bit 12 v))
    OR push_bit 6 (take_bit 6 (drop_bit 6 v)) OR take_bit 6 (drop_bit 0 v) = v"
proof (rule bit_word_eqI)
  fix n assume n: "n < LENGTH(32)"
  have no: "\<not> bit v m" if "24 \<le> m" for m
    using that by (subst assms [symmetric]) (simp add: bit_simps)
  have "bit (push_bit 18 (take_bit 6 (drop_bit 18 v)) OR push_bit 12 (take_bit 6 (drop_bit 12 v))
    OR push_bit 6 (take_bit 6 (drop_bit 6 v)) OR take_bit 6 (drop_bit 0 v)) n
      \<longleftrightarrow> (18 \<le> n \<and> n < 24 \<or> 12 \<le> n \<and> n < 18 \<or> 6 \<le> n \<and> n < 12 \<or> n < 6) \<and> bit v n"
    using n by (auto simp: bit_simps)
  also have "\<dots> \<longleftrightarrow> bit v n" using no [of n] by (cases "n < 24") auto
  finally show "bit (push_bit 18 (take_bit 6 (drop_bit 18 v)) OR push_bit 12 (take_bit 6 (drop_bit 12 v))
    OR push_bit 6 (take_bit 6 (drop_bit 6 v)) OR take_bit 6 (drop_bit 0 v)) n = bit v n" .
qed

definition v24 :: "byte \<Rightarrow> byte \<Rightarrow> byte \<Rightarrow> u32" where
  "v24 b0 b1 b2 = push_bit 16 (ucast b0) OR push_bit 8 (ucast b1) OR ucast b2"

lemma v24_add: "push_bit 16 (ucast b0 :: u32) + push_bit 8 (ucast b1) + ucast b2 = v24 b0 b1 b2"
proof -
  have "push_bit 16 (ucast b0 :: u32) + push_bit 8 (ucast b1) = push_bit 16 (ucast b0) OR push_bit 8 (ucast b1)"
    by (rule disjunctive_add) (auto simp: bit_simps dest!: byte_bit)
  moreover have "(push_bit 16 (ucast b0 :: u32) OR push_bit 8 (ucast b1)) + ucast b2
      = (push_bit 16 (ucast b0) OR push_bit 8 (ucast b1)) OR ucast b2"
    by (rule disjunctive_add) (auto simp: bit_simps dest!: byte_bit)
  ultimately show ?thesis by (simp add: v24_def or.assoc)
qed

lemma v24_bytes:
  "take_bit 24 (v24 b0 b1 b2) = v24 b0 b1 b2"
  "ucast (take_bit 8 (drop_bit 16 (v24 b0 b1 b2))) = b0"
  "ucast (take_bit 8 (drop_bit 8 (v24 b0 b1 b2))) = b1"
  "ucast (take_bit 8 (v24 b0 b1 b2)) = b2"
  by (rule bit_word_eqI; auto simp: v24_def bit_simps dest: byte_bit; fail)+


lemma base64_decode_sextets:
  assumes "of_int (from_base_64 c0) = take_bit 6 (drop_bit 18 (v24 b0 b1 b2))"
    "of_int (from_base_64 c1) = take_bit 6 (drop_bit 12 (v24 b0 b1 b2))"
    "of_int (from_base_64 c2) = take_bit 6 (drop_bit 6 (v24 b0 b1 b2))"
    "of_int (from_base_64 c3) = take_bit 6 (drop_bit 0 (v24 b0 b1 b2))"
  shows "hdr_base64_decode_block c0 c1 c2 c3 = [b0, b1, b2]"
  unfolding hdr_base64_decode_block_def Let_def assms sextets [OF v24_bytes(1)] and_0xFF v24_bytes
  by (rule refl)

lemma base64_decode_block_encode:
  "base64_decode_loop (hdr_base64_encode_block b0 b1 b2 @ rest) = [b0, b1, b2] @ base64_decode_loop rest"
proof -
  let ?v = "v24 b0 b1 b2"
  have "hdr_base64_decode_block (get_base_64 ?v 18) (get_base_64 ?v 12) (get_base_64 ?v 6) (get_base_64 ?v 0)
      = [b0, b1, b2]"
    by (rule base64_decode_sextets) (rule from_get_base_64)+
  then show ?thesis
    by (simp add: hdr_base64_encode_block_def v24_add Let_def)
qed

lemma base64_decode_pad:
  "base64_decode_loop (hdr_base64_encode_block_pad [b0]) = [b0, 0, 0]"
  "base64_decode_loop (hdr_base64_encode_block_pad [b0, b1]) = [b0, b1, 0]"
proof -
  let ?v = "v24 b0 0 0" and ?w = "v24 b0 b1 0"
  have pad: "of_int (from_base_64 CHR ''='') = (0 :: u32)" by (simp add: from_base_64_pad)
  have z: "take_bit 6 (drop_bit 6 ?v) = 0" "take_bit 6 (drop_bit 0 ?v) = 0" "take_bit 6 (drop_bit 0 ?w) = 0"
    by (rule bit_word_eqI; auto simp: v24_def bit_simps; fail)+
  have eqs: "push_bit 16 (ucast b0 :: u32) = ?v" "push_bit 16 (ucast b0 :: u32) + push_bit 8 (ucast b1) = ?w"
    using v24_add [of b0 0 0] v24_add [of b0 b1 0] by simp_all
  have "hdr_base64_decode_block (get_base_64 ?v 18) (get_base_64 ?v 12) CHR ''='' CHR ''='' = [b0, 0, 0]"
    by (rule base64_decode_sextets) (simp_all only: from_get_base_64 pad z)
  then show "base64_decode_loop (hdr_base64_encode_block_pad [b0]) = [b0, 0, 0]"
    by (simp add: hdr_base64_encode_block_pad_def eqs(1) Let_def)
  have "hdr_base64_decode_block (get_base_64 ?w 18) (get_base_64 ?w 12) (get_base_64 ?w 6) CHR ''='' = [b0, b1, 0]"
    by (rule base64_decode_sextets) (simp_all only: from_get_base_64 pad z)
  then show "base64_decode_loop (hdr_base64_encode_block_pad [b0, b1]) = [b0, b1, 0]"
    unfolding hdr_base64_encode_block_pad_def list.case eqs(2) Let_def by simp
qed

lemma encoded_len_eq: "hdr_base64_encoded_len n = (n + 2) div 3 * 4"
proof -
  have "\<lceil>real n / 3\<rceil> = int ((n + 2) div 3)"
  proof (rule ceiling_unique)
    have "real n \<le> 3 * real ((n + 2) div 3)"
      using of_nat_mono [of n "3 * ((n + 2) div 3)", where 'a = real] by simp
    then show "real n / 3 \<le> real_of_int (int ((n + 2) div 3))" by simp
    have "3 * ((n + 2) div 3) < n + 3" by simp
    then have "real (3 * ((n + 2) div 3)) < real (n + 3)" unfolding of_nat_less_iff .
    then show "real_of_int (int ((n + 2) div 3)) - 1 < real n / 3" by simp
  qed
  then have "\<lfloor>real_of_int \<lceil>real n / 3\<rceil> * 4\<rfloor> = int ((n + 2) div 3 * 4)"
    by (metis floor_of_int of_int_mult of_int_numeral of_int_of_nat_eq of_nat_mult of_nat_numeral)
  then show ?thesis by (simp add: hdr_base64_encoded_len_def)
qed

lemma base64_loop_round_trip:
  "j + (length xs + 2) div 3 * 4 \<le> out \<Longrightarrow>
     length (base64_encode_loop xs j out) = (length xs + 2) div 3 * 4
     \<and> base64_decode_loop (base64_encode_loop xs j out) = xs @ replicate ((3 - length xs mod 3) mod 3) 0"
proof (induction xs j out rule: base64_encode_loop.induct)
  case (1 b0 b1 b2 rest j out)
  have l: "(length (b0 # b1 # b2 # rest) + 2) div 3 = Suc ((length rest + 2) div 3)"
    "length (b0 # b1 # b2 # rest) mod 3 = length rest mod 3"
    using div_add_self2 [of 3 "length rest + 2"] mod_add_self2 [of "length rest" 3] by simp_all
  have jo: "j < out" "j + 4 + (length rest + 2) div 3 * 4 \<le> out"
    using "1.prems" unfolding l(1) by simp_all
  have len: "length (hdr_base64_encode_block b0 b1 b2) = 4"
    by (simp add: hdr_base64_encode_block_def Let_def)
  have loop: "base64_encode_loop (b0 # b1 # b2 # rest) j out
      = hdr_base64_encode_block b0 b1 b2 @ base64_encode_loop rest (j + 4) out"
    using jo(1) by simp
  show ?case
    unfolding loop l base64_decode_block_encode length_append len
    using "1.IH" [OF jo] by simp
next
  case "2_1"
  then show ?case by (simp add: hdr_base64_encode_block_pad_def)
next
  case "2_2"
  then show ?case
    using base64_decode_pad(1) by (simp add: hdr_base64_encode_block_pad_def Let_def numeral_2_eq_2)
next
  case "2_3"
  then show ?case
    using base64_decode_pad(2) by (simp add: hdr_base64_encode_block_pad_def Let_def)
qed

section \<open>Properties\<close>

text \<open>ZigZag decoding at the front of a buffer gives back every 64-bit value that was encoded
  there and the number of bytes it takes, whatever bytes follow; an encoding is one to nine bytes.\<close>

theorem zig_zag_decode_encode:
  "zig_zag_decode_i64 (zig_zag_encode_i64 w @ rest) = Some (w, length (zig_zag_encode_i64 w))
   \<and> 0 < length (zig_zag_encode_i64 w) \<and> length (zig_zag_encode_i64 w) \<le> 9"
  using zig_zag.dec_enc zig_zag.enc_len by simp

text \<open>A buffer that holds the encodings of a sequence of values decodes to that sequence, and leaves
  the bytes after it.\<close>

theorem zig_zag_sequence_round_trip:
  "decode_many zig_zag_decode_i64 (length ws) (concat (map zig_zag_encode_i64 ws) @ rest) = Some (ws, rest)"
  by (rule zig_zag.decode_many_concat)

text \<open>Base64 encoding of a non-empty buffer into an output of the computed length succeeds, and
  decoding the text gives the buffer back, filled with zero bytes to a multiple of three; an output
  buffer of any other length is \<open>EINVAL\<close>.\<close>

theorem hdr_base64_round_trip:
  assumes "xs \<noteq> []"
  shows "\<exists>s. hdr_base64_encode xs (hdr_base64_encoded_len (length xs)) = Inr s
    \<and> length s = hdr_base64_encoded_len (length xs)
    \<and> hdr_base64_decode s (hdr_base64_decoded_len (length s))
        = Inr (xs @ replicate ((3 - length xs mod 3) mod 3) 0)
    \<and> (\<forall>n. n \<noteq> hdr_base64_encoded_len (length xs) \<longrightarrow> hdr_base64_encode xs n = Inl EINVAL)"
proof -
  let ?n = "(length xs + 2) div 3 * 4"
  let ?s = "base64_encode_loop xs 0 ?n"
  have s: "length ?s = ?n" "base64_decode_loop ?s = xs @ replicate ((3 - length xs mod 3) mod 3) 0"
    using base64_loop_round_trip [of 0 xs ?n] by simp_all
  have "1 \<le> (length xs + 2) div 3"
    using assms by (cases xs) (simp_all add: Suc_le_eq div_greater_zero_iff)
  moreover have "?n AND 3 = 0"
    using take_bit_eq_mask [of 2 ?n] by (simp add: mask_eq_exp_minus_1 take_bit_eq_mod)
  ultimately show ?thesis
    using s by (simp add: hdr_base64_encode_def hdr_base64_decode_def hdr_base64_decoded_len_def encoded_len_eq)
qed

theorem hdr_base64_round_trip_witness:
  "\<exists>s. hdr_base64_encode [77, 97] 4 = Inr s \<and> hdr_base64_decode s 3 = Inr [77, 97, 0]"
  using hdr_base64_round_trip [of "[77, 97]"]
  by (auto simp: hdr_base64_decoded_len_def encoded_len_eq)

text \<open>Decoding never reports a character that is not in the Base64 alphabet: any text of a length
  divisible by four is accepted, and a character outside the alphabet is read as \<open>W\<close>, since the error
  code is taken as a six-bit value.\<close>

theorem hdr_base64_decode_accepts_garbage:
  "(length s \<ge> 4 \<and> 4 dvd length s \<longrightarrow>
      (\<exists>bs. hdr_base64_decode s (hdr_base64_decoded_len (length s)) = Inr bs))
   \<and> from_base_64 CHR ''!'' = from_base_64 CHR ''W''"
proof
  have "length s AND 3 = length s mod 4"
    using take_bit_eq_mask [of 2 "length s"] by (simp add: mask_eq_exp_minus_1 take_bit_eq_mod)
  then show "length s \<ge> 4 \<and> 4 dvd length s \<longrightarrow>
      (\<exists>bs. hdr_base64_decode s (hdr_base64_decoded_len (length s)) = Inr bs)"
    by (auto simp: hdr_base64_decode_def hdr_base64_decoded_len_def)
  show "from_base_64 CHR ''!'' = from_base_64 CHR ''W''" by code_simp
qed

theorem hdr_base64_decode_accepts_garbage_witness:
  "\<exists>bs. hdr_base64_decode ''!!!!'' (hdr_base64_decoded_len 4) = Inr bs"
proof -
  have len: "length ''!!!!'' = 4" by simp
  show ?thesis
    using hdr_base64_decode_accepts_garbage [of "''!!!!''"] unfolding len by simp
qed

end
