(* ===== verification/Hdr_Log_Codec.thy ===== *)
theory Hdr_Log_Codec
  imports Hdr_Values Hdr_Encoding
begin

text \<open>
  The binary format of \<^verbatim>\<open>hdr_histogram_log.c\<close>: \<open>hdr_encode_compressed\<close> and the three decoders.
  The compression library, the allocator and the bit pattern of a \<open>double\<close> are the parameters
  \<open>codec_env\<close>; a \<open>z_stream\<close> is an abstract state \<open>'z\<close> with its unread input beside it. \<open>None\<close>
  is a run that reads or writes outside an array, divides by zero or reads uninitialised memory.
\<close>

section \<open>Environment\<close>

datatype z_flush = Z_SYNC_FLUSH | Z_FINISH

abbreviation (input) Z_OK :: int where "Z_OK \<equiv> 0"
abbreviation (input) Z_STREAM_END :: int where "Z_STREAM_END \<equiv> 1"

text \<open>
  \<open>z_inflate s input flush avail_out\<close> returns the code, the bytes written to \<open>next_out\<close>, the input
  that is left and the new state.
\<close>

record 'z codec_env =
  env_calloc :: "int \<Rightarrow> bool"
  z_compress :: "byte list \<Rightarrow> byte list option"
  z_compressBound :: "nat \<Rightarrow> nat"
  z_inflateInit :: "'z option"
  z_inflate :: "'z \<Rightarrow> byte list \<Rightarrow> z_flush \<Rightarrow> nat \<Rightarrow> int \<times> byte list \<times> byte list \<times> 'z"
  double_to_int64_bits :: "real \<Rightarrow> u64"
  int64_bits_to_double :: "u64 \<Rightarrow> real"

section \<open>Cookies and error codes\<close>

definition V0_ENCODING_COOKIE :: u32 where "V0_ENCODING_COOKIE = 0x1c849308"
definition V0_COMPRESSION_COOKIE :: u32 where "V0_COMPRESSION_COOKIE = 0x1c849309"
definition V1_ENCODING_COOKIE :: u32 where "V1_ENCODING_COOKIE = 0x1c849301"
definition V1_COMPRESSION_COOKIE :: u32 where "V1_COMPRESSION_COOKIE = 0x1c849302"
definition V2_ENCODING_COOKIE :: u32 where "V2_ENCODING_COOKIE = 0x1c849303"
definition V2_COMPRESSION_COOKIE :: u32 where "V2_COMPRESSION_COOKIE = 0x1c849304"

definition get_cookie_base :: "u32 \<Rightarrow> u32" where
  "get_cookie_base cookie = cookie AND NOT 0xf0"

definition word_size_from_cookie :: "u32 \<Rightarrow> u32" where
  "word_size_from_cookie cookie = drop_bit 4 (cookie AND 0xf0)"

abbreviation (input) HDR_COMPRESSION_COOKIE_MISMATCH :: int where "HDR_COMPRESSION_COOKIE_MISMATCH \<equiv> - 29999"
abbreviation (input) HDR_ENCODING_COOKIE_MISMATCH :: int where "HDR_ENCODING_COOKIE_MISMATCH \<equiv> - 29998"
abbreviation (input) HDR_DEFLATE_FAIL :: int where "HDR_DEFLATE_FAIL \<equiv> - 29996"
abbreviation (input) HDR_INFLATE_FAIL :: int where "HDR_INFLATE_FAIL \<equiv> - 29994"
abbreviation (input) HDR_LOG_INVALID_VERSION :: int where "HDR_LOG_INVALID_VERSION \<equiv> - 29993"
abbreviation (input) HDR_TRAILING_ZEROS_INVALID :: int where "HDR_TRAILING_ZEROS_INVALID \<equiv> - 29992"
abbreviation (input) HDR_VALUE_TRUNCATED :: int where "HDR_VALUE_TRUNCATED \<equiv> - 29991"
abbreviation (input) HDR_ENCODED_INPUT_TOO_LONG :: int where "HDR_ENCODED_INPUT_TOO_LONG \<equiv> - 29990"

section \<open>Big-endian integers\<close>

definition htobe32 :: "u32 \<Rightarrow> byte list" where
  "htobe32 w = [ucast (drop_bit 24 w), ucast (drop_bit 16 w), ucast (drop_bit 8 w), ucast w]"

definition htobe64 :: "u64 \<Rightarrow> byte list" where
  "htobe64 w =
     [ucast (drop_bit 56 w), ucast (drop_bit 48 w), ucast (drop_bit 40 w), ucast (drop_bit 32 w),
      ucast (drop_bit 24 w), ucast (drop_bit 16 w), ucast (drop_bit 8 w), ucast w]"

text \<open>Reading a big-endian unsigned integer of any width from its bytes.\<close>

definition be_to_word :: "byte list \<Rightarrow> ('a :: len) word" where
  "be_to_word bs = fold (\<lambda>b w. push_bit 8 w OR ucast b) bs 0"

definition be32_at :: "byte list \<Rightarrow> nat \<Rightarrow> u32" where
  "be32_at buf i = be_to_word (take 4 (drop i buf))"

definition be64_at :: "byte list \<Rightarrow> nat \<Rightarrow> u64" where
  "be64_at buf i = be_to_word (take 8 (drop i buf))"

section \<open>Encoding\<close>

text \<open>The loop over the counts: a run of zeros is one negative number.\<close>

function encode_counts :: "int list \<Rightarrow> byte list" where
  "encode_counts [] = []"
| "encode_counts (value # rest) =
     (if value = 0 then
        zig_zag_encode_i64 (word_of_int (- (1 + int (length (takeWhile (\<lambda>c. c = 0) rest)))))
          @ encode_counts (dropWhile (\<lambda>c. c = 0) rest)
      else zig_zag_encode_i64 (word_of_int value) @ encode_counts rest)"
  by pat_completeness auto
termination
  by (relation "measure length") (auto simp: le_imp_less_Suc length_dropWhile_le)

definition encoding_flyweight_v1 ::
    "'z codec_env \<Rightarrow> u32 \<Rightarrow> hdr_histogram \<Rightarrow> byte list \<Rightarrow> byte list" where
  "encoding_flyweight_v1 env cookie h payload =
     htobe32 cookie @ htobe32 (word_of_int (int (length payload)))
     @ htobe32 (word_of_int (normalizing_index_offset h))
     @ htobe32 (word_of_int (significant_figures h))
     @ htobe64 (word_of_int (lowest_discernible_value h))
     @ htobe64 (word_of_int (highest_trackable_value h))
     @ htobe64 (double_to_int64_bits env (conversion_ratio h)) @ payload"

definition hdr_encode_compressed :: "'z codec_env \<Rightarrow> hdr_histogram \<Rightarrow> (int + byte list) option" where
  "hdr_encode_compressed env h =
     (let len_to_max = counts_index_for h (max_value h) + 1;
          counts_limit = (if len_to_max < counts_len h then len_to_max else counts_len h)
      in if \<not> env_calloc env (40 + 9 * counts_limit) then Some (Inl ENOMEM)
         else if counts_limit > int (length (counts h)) then None
         else
           let payload = encode_counts (take (nat counts_limit) (counts h));
               encoded = encoding_flyweight_v1 env (V2_ENCODING_COOKIE OR 0x10) h payload
           in if \<not> env_calloc env (8 + int (z_compressBound env (length encoded)))
              then Some (Inl ENOMEM)
              else
                (case z_compress env encoded of
                   None \<Rightarrow> Some (Inl HDR_DEFLATE_FAIL)
                 | Some data \<Rightarrow>
                     Some (Inr (htobe32 (V2_COMPRESSION_COOKIE OR 0x10)
                                @ htobe32 (word_of_int (int (length data))) @ data))))"

section \<open>Applying decoded counts\<close>

definition counts_set :: "hdr_histogram \<Rightarrow> int \<Rightarrow> int \<Rightarrow> hdr_histogram option" where
  "counts_set h i v =
     (if 0 \<le> i \<and> i < int (length (counts h)) then Some (h\<lparr>counts := (counts h)[nat i := v]\<rparr>) else None)"

text \<open>
  The loops for fixed word sizes: element \<open>i\<close> is the big-endian unsigned integer at \<open>i * width\<close>,
  reinterpreted as a signed 64-bit value.
\<close>

function apply_fixed :: "nat \<Rightarrow> hdr_histogram \<Rightarrow> byte list \<Rightarrow> int \<Rightarrow> int \<Rightarrow> hdr_histogram option" where
  "apply_fixed width h counts_data i counts_limit =
     (if i < counts_limit then
        if nat i * width + width \<le> length counts_data then
          (case counts_set h i (sint (be_to_word (take width (drop (nat i * width) counts_data)) :: u64)) of
             None \<Rightarrow> None
           | Some h' \<Rightarrow> apply_fixed width h' counts_data (i + 1) counts_limit)
        else None
      else Some h)"
  by pat_completeness auto
termination
  by (relation "measure (\<lambda>(w, h, d, i, l). nat (l - i))") auto

declare apply_fixed.simps [simp del]

definition apply_to_counts_16 :: "hdr_histogram \<Rightarrow> byte list \<Rightarrow> int \<Rightarrow> hdr_histogram option" where
  "apply_to_counts_16 h counts_data counts_limit = apply_fixed 2 h counts_data 0 counts_limit"

definition apply_to_counts_32 :: "hdr_histogram \<Rightarrow> byte list \<Rightarrow> int \<Rightarrow> hdr_histogram option" where
  "apply_to_counts_32 h counts_data counts_limit = apply_fixed 4 h counts_data 0 counts_limit"

definition apply_to_counts_64 :: "hdr_histogram \<Rightarrow> byte list \<Rightarrow> int \<Rightarrow> hdr_histogram option" where
  "apply_to_counts_64 h counts_data counts_limit = apply_fixed 8 h counts_data 0 counts_limit"

partial_function (option) apply_zz_loop ::
    "hdr_histogram \<Rightarrow> byte list \<Rightarrow> int \<Rightarrow> nat \<Rightarrow> int \<Rightarrow> (int \<times> hdr_histogram) option" where
  "apply_zz_loop h counts_data data_limit data_index counts_idx =
     (if int data_index < data_limit \<and> counts_idx < counts_len h then
        do {
          (w, n) \<leftarrow> zig_zag_decode_i64 (drop data_index counts_data);
          if sint w < 0 then
            if sint w \<le> INT32_MIN \<or> counts_idx + (- sint w) > counts_len h
            then Some (HDR_TRAILING_ZEROS_INVALID, h)
            else apply_zz_loop h counts_data data_limit (data_index + n) (counts_idx + (- sint w))
          else do {
            h' \<leftarrow> counts_set h counts_idx (sint w);
            apply_zz_loop h' counts_data data_limit (data_index + n) (counts_idx + 1)
          }
        }
      else if int data_index > data_limit then Some (HDR_VALUE_TRUNCATED, h)
      else if int data_index < data_limit then Some (HDR_ENCODED_INPUT_TOO_LONG, h)
      else Some (0, h))"

declare apply_zz_loop.simps [code]

definition apply_to_counts_zz :: "hdr_histogram \<Rightarrow> byte list \<Rightarrow> int \<Rightarrow> (int \<times> hdr_histogram) option" where
  "apply_to_counts_zz h counts_data data_limit = apply_zz_loop h counts_data data_limit 0 0"

definition apply_to_counts ::
    "hdr_histogram \<Rightarrow> u32 \<Rightarrow> byte list \<Rightarrow> int \<Rightarrow> (int \<times> hdr_histogram) option" where
  "apply_to_counts h word_size counts_data counts_limit =
     (if word_size = 2 then map_option (Pair 0) (apply_to_counts_16 h counts_data counts_limit)
      else if word_size = 4 then map_option (Pair 0) (apply_to_counts_32 h counts_data counts_limit)
      else if word_size = 8 then map_option (Pair 0) (apply_to_counts_64 h counts_data counts_limit)
      else if word_size = 1 then apply_to_counts_zz h counts_data counts_limit
      else Some (- 1, h))"

section \<open>Decoding\<close>

type_synonym decode_result = "(int \<times> hdr_histogram option) option"

text \<open>
  The common beginning of the decoders: initialise the stream, check the length field and inflate
  the first \<open>fw_size\<close> bytes, the flyweight. \<open>Inl\<close> is the error code.
\<close>

definition inflate_flyweight ::
    "'z codec_env \<Rightarrow> byte list \<Rightarrow> nat \<Rightarrow> (int + byte list \<times> byte list \<times> 'z) option" where
  "inflate_flyweight env buf fw_size =
     (case z_inflateInit env of
        None \<Rightarrow> Some (Inl HDR_INFLATE_FAIL)
      | Some strm \<Rightarrow>
          let compressed_length = sint (be32_at buf 4) in
          if compressed_length < 0 \<or> int (length buf) - 8 < compressed_length then Some (Inl EINVAL)
          else
            (case z_inflate env strm (take (nat compressed_length) (drop 8 buf)) Z_SYNC_FLUSH fw_size of
               (rc, out, next_in, strm') \<Rightarrow>
                 if rc \<noteq> Z_OK then Some (Inl HDR_INFLATE_FAIL)
                 else if length out < fw_size then None
                 else Some (Inr (out, next_in, strm'))))"

text \<open>
  The second inflation into an array of \<open>alloc\<close> bytes, zeroed by \<open>calloc\<close>, of which
  \<open>avail_out\<close> may be written.
\<close>

definition inflate_counts ::
    "'z codec_env \<Rightarrow> 'z \<Rightarrow> byte list \<Rightarrow> int \<Rightarrow> int \<Rightarrow> (int + byte list) option" where
  "inflate_counts env strm next_in alloc avail_out =
     (if \<not> env_calloc env alloc then Some (Inl ENOMEM)
      else
        (case z_inflate env strm next_in Z_FINISH (nat (avail_out mod 2 ^ 32)) of
           (rc, out, _, _) \<Rightarrow>
             if int (length out) > alloc then None
             else if rc \<noteq> Z_STREAM_END then Some (Inl HDR_INFLATE_FAIL)
             else Some (Inr (out @ replicate (nat alloc - length out) 0))))"

text \<open>The common end: hand the histogram out, or merge it into the one that was passed in.\<close>

definition deliver_histogram :: "hdr_histogram option \<Rightarrow> hdr_histogram \<Rightarrow> decode_result" where
  "deliver_histogram histogram h =
     (case histogram of
        None \<Rightarrow> Some (0, Some h)
      | Some g \<Rightarrow> map_option (\<lambda>(g', dropped). (0, Some g')) (hdr_add g h))"

definition hdr_decode_compressed_v0 ::
    "'z codec_env \<Rightarrow> byte list \<Rightarrow> hdr_histogram option \<Rightarrow> decode_result" where
  "hdr_decode_compressed_v0 env buf histogram =
     (case inflate_flyweight env buf 32 of
        None \<Rightarrow> None
      | Some (Inl e) \<Rightarrow> Some (e, histogram)
      | Some (Inr (fw, next_in, strm)) \<Rightarrow>
          let cookie = be32_at fw 0; word_size = word_size_from_cookie cookie in
          if V0_ENCODING_COOKIE \<noteq> get_cookie_base cookie
          then Some (HDR_ENCODING_COOKIE_MISMATCH, histogram)
          else
            (case hdr_init (env_calloc env) (sint (be64_at fw 8)) (sint (be64_at fw 16))
                    (sint (be32_at fw 4)) of
               None \<Rightarrow> None
             | Some (Inl _) \<Rightarrow> Some (ENOMEM, histogram)
             | Some (Inr h) \<Rightarrow>
                 let counts_array_len = i32 (counts_len h * int (unat word_size)) in
                 (case inflate_counts env strm next_in (counts_array_len mod 2 ^ 64) counts_array_len of
                    None \<Rightarrow> None
                  | Some (Inl e) \<Rightarrow> Some (e, histogram)
                  | Some (Inr counts_array) \<Rightarrow>
                      do {
                        (_, h1) \<leftarrow> apply_to_counts h word_size counts_array (counts_len h);
                        h2 \<leftarrow> hdr_reset_internal_counters h1;
                        deliver_histogram histogram
                          (h2\<lparr>normalizing_index_offset := 0, conversion_ratio := 1\<rparr>)
                      })))"

definition hdr_decode_compressed_v1 ::
    "'z codec_env \<Rightarrow> byte list \<Rightarrow> hdr_histogram option \<Rightarrow> decode_result" where
  "hdr_decode_compressed_v1 env buf histogram =
     (case inflate_flyweight env buf 40 of
        None \<Rightarrow> None
      | Some (Inl e) \<Rightarrow> Some (e, histogram)
      | Some (Inr (fw, next_in, strm)) \<Rightarrow>
          let cookie = be32_at fw 0; word_size = word_size_from_cookie cookie in
          if V1_ENCODING_COOKIE \<noteq> get_cookie_base cookie
          then Some (HDR_ENCODING_COOKIE_MISMATCH, histogram)
          else if word_size = 0 then None
          else
            let counts_limit = i32 (int (unat (be32_at fw 4) div unat word_size)) in
            (case hdr_init (env_calloc env) (sint (be64_at fw 16)) (sint (be64_at fw 24))
                    (sint (be32_at fw 12)) of
               None \<Rightarrow> None
             | Some (Inl _) \<Rightarrow> Some (ENOMEM, histogram)
             | Some (Inr h) \<Rightarrow>
                 let counts_array_len = i32 (counts_limit * int (unat word_size)) in
                 (case inflate_counts env strm next_in (counts_array_len mod 2 ^ 64) counts_array_len of
                    None \<Rightarrow> None
                  | Some (Inl e) \<Rightarrow> Some (e, histogram)
                  | Some (Inr counts_array) \<Rightarrow>
                      do {
                        (_, h1) \<leftarrow> apply_to_counts h word_size counts_array counts_limit;
                        h2 \<leftarrow> hdr_reset_internal_counters
                                (h1\<lparr>normalizing_index_offset := sint (be32_at fw 8),
                                    conversion_ratio := int64_bits_to_double env (be64_at fw 32)\<rparr>);
                        deliver_histogram histogram h2
                      })))"

definition hdr_decode_compressed_v2 ::
    "'z codec_env \<Rightarrow> byte list \<Rightarrow> hdr_histogram option \<Rightarrow> decode_result" where
  "hdr_decode_compressed_v2 env buf histogram =
     (case inflate_flyweight env buf 40 of
        None \<Rightarrow> None
      | Some (Inl e) \<Rightarrow> Some (e, histogram)
      | Some (Inr (fw, next_in, strm)) \<Rightarrow>
          if V2_ENCODING_COOKIE \<noteq> get_cookie_base (be32_at fw 0)
          then Some (HDR_ENCODING_COOKIE_MISMATCH, histogram)
          else
            let counts_limit = sint (be32_at fw 4) in
            (case hdr_init (env_calloc env) (sint (be64_at fw 16)) (sint (be64_at fw 24))
                    (sint (be32_at fw 12)) of
               None \<Rightarrow> None
             | Some (Inl rc) \<Rightarrow> Some (rc, histogram)
             | Some (Inr h) \<Rightarrow>
                 (case inflate_counts env strm next_in ((counts_limit + 9) mod 2 ^ 64) counts_limit of
                    None \<Rightarrow> None
                  | Some (Inl e) \<Rightarrow> Some (e, histogram)
                  | Some (Inr counts_array) \<Rightarrow>
                      do {
                        (rc, h1) \<leftarrow> apply_to_counts_zz h counts_array counts_limit;
                        if rc \<noteq> 0 then Some (rc, histogram)
                        else do {
                          h2 \<leftarrow> hdr_reset_internal_counters
                                  (h1\<lparr>normalizing_index_offset := sint (be32_at fw 8),
                                      conversion_ratio := int64_bits_to_double env (be64_at fw 32)\<rparr>);
                          deliver_histogram histogram h2
                        }
                      })))"

definition hdr_decode_compressed ::
    "'z codec_env \<Rightarrow> byte list \<Rightarrow> hdr_histogram option \<Rightarrow> decode_result" where
  "hdr_decode_compressed env buf histogram =
     (if length buf < 8 then Some (EINVAL, histogram)
      else
        let compression_cookie = get_cookie_base (be32_at buf 0) in
        if V0_COMPRESSION_COOKIE = compression_cookie then hdr_decode_compressed_v0 env buf histogram
        else if V1_COMPRESSION_COOKIE = compression_cookie then hdr_decode_compressed_v1 env buf histogram
        else if V2_COMPRESSION_COOKIE = compression_cookie then hdr_decode_compressed_v2 env buf histogram
        else Some (HDR_COMPRESSION_COOKIE_MISMATCH, histogram))"

section \<open>Text form\<close>

definition hdr_log_encode :: "'z codec_env \<Rightarrow> hdr_histogram \<Rightarrow> (int + string) option" where
  "hdr_log_encode env histogram =
     (case hdr_encode_compressed env histogram of
        None \<Rightarrow> None
      | Some (Inl rc) \<Rightarrow> Some (Inl rc)
      | Some (Inr compressed) \<Rightarrow>
          let encoded_len = hdr_base64_encoded_len (length compressed) in
          if \<not> env_calloc env (int encoded_len + 1) then None
          else Some (hdr_base64_encode compressed encoded_len))"

definition hdr_log_decode :: "'z codec_env \<Rightarrow> string \<Rightarrow> hdr_histogram option \<Rightarrow> decode_result" where
  "hdr_log_decode env base64_histogram histogram =
     (let compressed_len = hdr_base64_decoded_len (length base64_histogram) in
      if \<not> env_calloc env (int compressed_len) then None
      else
        (case hdr_base64_decode base64_histogram compressed_len of
           Inl r \<Rightarrow> Some (r, histogram)
         | Inr compressed \<Rightarrow> hdr_decode_compressed env compressed histogram))"

section \<open>Integers in the flyweight\<close>

lemma length_htobe [simp]: "length (htobe32 w) = 4" "length (htobe64 v) = 8"
  by (simp_all add: htobe32_def htobe64_def)

lemma be_step:
  fixes w :: "('a :: len) word"
  shows "push_bit 8 (drop_bit (k + 8) w) OR ucast (ucast (drop_bit k w) :: byte) = drop_bit k w"
proof (rule bit_word_eqI)
  fix n assume "n < LENGTH('a)"
  then show "bit (push_bit 8 (drop_bit (k + 8) w) OR ucast (ucast (drop_bit k w) :: byte)) n = bit (drop_bit k w) n"
    by (cases "n < 8") (auto simp: bit_simps)
qed

lemma drop_bit_all: "drop_bit 32 (w :: u32) = 0" "drop_bit 64 (v :: u64) = 0"
  by (rule bit_word_eqI; simp add: bit_simps)+

lemma be_to_word_htobe32 [simp]: "be_to_word (htobe32 w) = (w :: u32)"
  using be_step [of 24 w] be_step [of 16 w] be_step [of 8 w] be_step [of 0 w] drop_bit_all(1) [of w]
  by (simp add: htobe32_def be_to_word_def)

lemma be_to_word_htobe64 [simp]: "be_to_word (htobe64 w) = (w :: u64)"
  using be_step [of 56 w] be_step [of 48 w] be_step [of 40 w] be_step [of 32 w] be_step [of 24 w]
    be_step [of 16 w] be_step [of 8 w] be_step [of 0 w] drop_bit_all(2) [of w]
  by (simp add: htobe64_def be_to_word_def)

interpretation be32: prefix_codec htobe32 "\<lambda>buf. if length buf < 4 then None else Some (be32_at buf 0, 4)" 4
  by standard (simp_all add: be32_at_def)

interpretation be64: prefix_codec htobe64 "\<lambda>buf. if length buf < 8 then None else Some (be64_at buf 0, 8)" 8
  by standard (simp_all add: be64_at_def)

lemma sint_word_of_int_64 [simp]:
  "INT64_MIN \<le> x \<Longrightarrow> x \<le> INT64_MAX \<Longrightarrow> sint (word_of_int x :: u64) = x"
  by (simp add: signed_of_int signed_take_bit_int_eq_self)

lemma sint_word_of_int_32 [simp]:
  "INT32_MIN \<le> x \<Longrightarrow> x \<le> INT32_MAX \<Longrightarrow> sint (word_of_int x :: u32) = x"
  by (simp add: signed_of_int signed_take_bit_int_eq_self)

section \<open>Counts round trip\<close>

lemma encode_counts_nonempty: "encode_counts (c # cs) \<noteq> []"
  using zig_zag.enc_len(1) by simp

lemma replicate_zero_prefix:
  "replicate (length (takeWhile (\<lambda>c. c = 0) xs)) 0 @ dropWhile (\<lambda>c. c = 0) xs = (xs :: int list)"
  by (induction xs) auto

lemma drop_consumed: "drop i xs = a @ b \<Longrightarrow> drop (i + length a) xs = b"
  by (metis add.commute append_eq_conv_conj drop_drop)

lemma apply_zz_run:
  assumes "drop di data = zig_zag_encode_i64 (word_of_int (- int k)) @ tail" "int di < limit" "0 < k" "k < 2 ^ 31"
    "0 \<le> i" "i + int k \<le> counts_len h"
  shows "apply_zz_loop h data limit di i
    = apply_zz_loop h data limit (di + length (zig_zag_encode_i64 (word_of_int (- int k)))) (i + int k)"
proof -
  let ?w = "word_of_int (- int k) :: u64"
  have s: "sint ?w = - int k" using assms(4) by (intro sint_word_of_int_64) auto
  have dec: "zig_zag_decode_i64 (drop di data) = Some (?w, length (zig_zag_encode_i64 ?w))"
    using assms(1) by (simp add: zig_zag.dec_enc)
  show ?thesis using assms(2-6) s dec by (simp add: apply_zz_loop.simps [of h data limit di])
qed

lemma apply_zz_count:
  assumes "drop di data = zig_zag_encode_i64 (word_of_int c) @ tail" "int di < limit" "0 < c" "c \<le> INT64_MAX"
    "i < counts_len h" "counts_set h i c = Some h'"
  shows "apply_zz_loop h data limit di i = apply_zz_loop h' data limit (di + length (zig_zag_encode_i64 (word_of_int c))) (i + 1)"
proof -
  let ?w = "word_of_int c :: u64"
  have s: "sint ?w = c" using assms(3,4) by (intro sint_word_of_int_64) auto
  have dec: "zig_zag_decode_i64 (drop di data) = Some (?w, length (zig_zag_encode_i64 ?w))"
    using assms(1) by (simp add: zig_zag.dec_enc)
  show ?thesis using assms(2-6) s dec by (simp add: apply_zz_loop.simps [of h data limit di])
qed

lemma apply_zz_encode_counts:
  assumes "drop di data = encode_counts cs @ rest" "int (di + length (encode_counts cs)) = limit"
    "counts h = pre @ replicate m 0" "counts_len h = int (length (counts h))"
    "length cs \<le> m" "length (counts h) < 2 ^ 31" "\<forall>c \<in> set cs. 0 \<le> c \<and> c \<le> INT64_MAX"
  shows "apply_zz_loop h data limit di (int (length pre))
    = Some (0, h\<lparr>counts := pre @ cs @ replicate (m - length cs) 0\<rparr>)"
  using assms
proof (induction cs arbitrary: h di pre m rule: encode_counts.induct)
  case 1
  then show ?case by (simp add: apply_zz_loop.simps)
next
  case (2 c cs)
  have "0 < length (encode_counts (c # cs))"
    using encode_counts_nonempty [of c cs] by (simp only: length_greater_0_conv not_False_eq_True)
  then have "int di < limit" using "2.prems"(2) by linarith
  moreover have "int (length pre) < counts_len h" using "2.prems"(3-5) by simp
  ultimately have room: "int di < limit" "int (length pre) < counts_len h" by simp_all
  show ?case
  proof (cases "c = 0")
    case True
    let ?zs = "takeWhile (\<lambda>c. c = 0) cs" and ?rest = "dropWhile (\<lambda>c. c = 0) cs"
    define k where "k = Suc (length ?zs)"
    let ?e = "zig_zag_encode_i64 (word_of_int (- int k))"
    have len: "length cs = length ?zs + length ?rest" by (metis length_append takeWhile_dropWhile_id)
    have enc: "encode_counts (c # cs) = ?e @ encode_counts ?rest" using True by (simp add: k_def)
    have km: "k \<le> m" "k < 2 ^ 31" "m = k + (m - k)" using "2.prems"(3,5,6) len by (simp_all add: k_def)
    have zs: "replicate k 0 @ ?rest = c # cs" using True replicate_zero_prefix [of cs] by (simp add: k_def)
    have di: "drop di data = ?e @ encode_counts ?rest @ rest" using "2.prems"(1) enc by simp
    have "counts h = (pre @ replicate k 0) @ replicate (m - k) 0"
      using "2.prems"(3) km(3) by (metis append.assoc replicate_add)
    moreover have "\<forall>c \<in> set ?rest. 0 \<le> c \<and> c \<le> INT64_MAX" using "2.prems"(7) by (auto dest: set_dropWhileD)
    ultimately have "apply_zz_loop h data limit (di + length ?e) (int (length (pre @ replicate k 0)))
        = Some (0, h\<lparr>counts := (pre @ replicate k 0) @ ?rest @ replicate (m - k - length ?rest) 0\<rparr>)"
      using "2.prems" enc len drop_consumed [OF di] by (intro "2.IH"(1) [OF True]) (auto simp: k_def)
    moreover have "(pre @ replicate k 0) @ ?rest @ replicate (m - k - length ?rest) 0
        = pre @ (c # cs) @ replicate (m - length (c # cs)) 0"
      using zs len by (simp add: k_def)
    moreover have "0 < k" "int (length pre) + int k \<le> counts_len h" using "2.prems"(3,4) km(1) by (simp_all add: k_def)
    ultimately show ?thesis using apply_zz_run [OF di room(1) _ km(2), of "int (length pre)"] by simp
  next
    case False
    then have c: "0 < c" "c \<le> INT64_MAX" using "2.prems"(7) by auto
    let ?e = "zig_zag_encode_i64 (word_of_int c)"
    have m: "replicate m (0::int) = 0 # replicate (m - 1) 0" using "2.prems"(5) by (cases m) auto
    let ?h = "h\<lparr>counts := (pre @ [c]) @ replicate (m - 1) 0\<rparr>"
    have set: "counts_set h (int (length pre)) c = Some ?h" using "2.prems"(3) m by (simp add: counts_set_def)
    have di: "drop di data = ?e @ encode_counts cs @ rest" using "2.prems"(1) False by simp
    have "apply_zz_loop ?h data limit (di + length ?e) (int (length (pre @ [c])))
        = Some (0, ?h\<lparr>counts := (pre @ [c]) @ cs @ replicate (m - 1 - length cs) 0\<rparr>)"
      by (rule "2.IH"(2) [OF False drop_consumed [OF di]]) (use "2.prems" False m in auto)
    then show ?thesis using apply_zz_count [OF di room(1) c room(2) set] by (simp add: add.commute)
  qed
qed

section \<open>Histogram round trip\<close>

text \<open>
  What the format relies on of the compression library, for inputs of at most \<open>2 ^ 27\<close> bytes: the
  initialisation and the compression succeed, an inflation of the compressed data with room for a
  proper prefix delivers that prefix with \<open>Z_OK\<close>, and a finishing inflation with room for what is
  left delivers it with \<open>Z_STREAM_END\<close>.
\<close>

definition zlib_ok :: "'z codec_env \<Rightarrow> bool" where
  "zlib_ok env \<longleftrightarrow>
     (\<exists>s0. z_inflateInit env = Some s0 \<and>
       (\<forall>plain. length plain \<le> 2 ^ 27 \<longrightarrow>
         (\<exists>c. z_compress env plain = Some c \<and> length c \<le> 2 ^ 28 \<and>
           (\<forall>n < length plain. \<exists>c' s'.
              z_inflate env s0 c Z_SYNC_FLUSH n = (Z_OK, take n plain, c', s') \<and>
              (\<forall>m \<ge> length plain - n. \<exists>c'' s''.
                 z_inflate env s' c' Z_FINISH m = (Z_STREAM_END, drop n plain, c'', s''))))))"

text \<open>A histogram that \<open>hdr_init\<close> configured and that was only recorded into since.\<close>

definition recorded_into :: "(int \<Rightarrow> bool) \<Rightarrow> hdr_histogram \<Rightarrow> bool" where
  "recorded_into calloc h \<longleftrightarrow>
     (\<exists>h0. hdr_init calloc (lowest_discernible_value h) (highest_trackable_value h) (significant_figures h)
             = Some (Inr h0) \<and>
           h = h0\<lparr>counts := counts h, total_count := total_count h, min_value := min_value h,
                  max_value := max_value h\<rparr>)"

lemma encode_counts_length: "length (encode_counts cs) \<le> 9 * length cs"
proof (induction cs rule: encode_counts.induct)
  case (2 c cs)
  have "length (dropWhile (\<lambda>c. c = 0) cs) \<le> length cs" by (rule length_dropWhile_le)
  then show ?case
    using 2 zig_zag.enc_len(2) [of "word_of_int c"]
      zig_zag.enc_len(2) [of "word_of_int (- (1 + int (length (takeWhile (\<lambda>c. c = 0) cs))))"]
    by (cases "c = 0") auto
qed simp

lemma counts_after_max:
  assumes abs: "hdr_abs h M" and off: "normalizing_index_offset h = 0"
  defines "l \<equiv> nat (counts_index_for h (max_value h) + 1)"
  shows "0 \<le> counts_index_for h (max_value h)" "counts_index_for h (max_value h) < counts_len h"
    "counts h = take l (counts h) @ replicate (length (counts h) - l) 0"
proof -
  note wf = hdr_absD(1) [OF abs] and len = hdr_config_wfD(11) [OF hdr_absD(1) [OF abs]]
  have mx: "max_value h = 0 \<or> max_value h \<in># M"
    using Max_in [of "insert 0 (set_mset M)"] hdr_absD(8) [OF abs] by auto
  have tr: "trackable h (max_value h)"
  proof (cases "max_value h = 0")
    case True
    then show ?thesis
      using lowest_equivalent_zero(2) [OF wf] counts_len_bound(1) [OF wf] by (simp add: trackable_def)
  qed (use mx hdr_absD(3) [OF abs] in auto)
  show idx: "0 \<le> counts_index_for h (max_value h)" "counts_index_for h (max_value h) < counts_len h"
    using trackableD [OF wf tr] by simp_all
  have "counts h ! j = 0" if j: "l \<le> j" "j < length (counts h)" for j
  proof -
    have i: "0 \<le> int j" "int j < counts_len h" "counts_index_for h (max_value h) < int j"
      using j len idx by (auto simp: l_def)
    have "counts_index_for h v \<noteq> int j" if "v \<in># M" for v
    proof -
      have "v \<le> max_value h" using that hdr_absD(8) [OF abs] by simp
      then have "counts_index_for h v \<le> counts_index_for h (max_value h)"
        using trackableD [OF wf hdr_absD(3) [OF abs that]] trackableD [OF wf tr]
        by (intro hdr.idx_mono [OF wf]) auto
      with i show ?thesis by simp
    qed
    then have "slot_count h (int j) = 0"
      using hdr_abs_slot_count [OF abs i(1,2)] by (auto simp: filter_mset_eq_conv)
    then show ?thesis using off by (simp add: slot_count_def normalize_index_def)
  qed
  then show "counts h = take l (counts h) @ replicate (length (counts h) - l) 0"
    by (intro nth_equalityI) (auto simp: nth_append)
qed

lemma cookie_bases:
  "get_cookie_base (V2_ENCODING_COOKIE OR 0x10) = V2_ENCODING_COOKIE"
  "get_cookie_base (V2_COMPRESSION_COOKIE OR 0x10) = V2_COMPRESSION_COOKIE"
  "V0_COMPRESSION_COOKIE \<noteq> V2_COMPRESSION_COOKIE" "V1_COMPRESSION_COOKIE \<noteq> V2_COMPRESSION_COOKIE"
  by code_simp+

lemma flyweight_fields:
  fixes env :: "'z codec_env" and cookie h payload
  defines "enc \<equiv> encoding_flyweight_v1 env cookie h payload"
  shows "length enc = 40 + length payload" "drop 40 enc = payload"
    "be32_at (take 40 enc) 0 = cookie"
    "be32_at (take 40 enc) 4 = word_of_int (int (length payload))"
    "be32_at (take 40 enc) 8 = word_of_int (normalizing_index_offset h)"
    "be32_at (take 40 enc) 12 = word_of_int (significant_figures h)"
    "be64_at (take 40 enc) 16 = word_of_int (lowest_discernible_value h)"
    "be64_at (take 40 enc) 24 = word_of_int (highest_trackable_value h)"
    "be64_at (take 40 enc) 32 = double_to_int64_bits env (conversion_ratio h)"
  by (simp_all add: enc_def encoding_flyweight_v1_def be32_at_def be64_at_def)

lemma compressed_fields:
  "be32_at (htobe32 c @ htobe32 l @ data) 0 = c" "be32_at (htobe32 c @ htobe32 l @ data) 4 = l"
  "drop 8 (htobe32 c @ htobe32 l @ data) = data"
  by (simp_all add: be32_at_def)

lemma recorded_into_abs:
  assumes rec: "recorded_into calloc h" and abs: "hdr_abs h M"
    and hi: "lowest_discernible_value h \<le> INT64_MAX" "highest_trackable_value h \<le> INT64_MAX"
  obtains h0 where
    "hdr_init calloc (lowest_discernible_value h) (highest_trackable_value h) (significant_figures h)
       = Some (Inr h0)"
    "h = h0\<lparr>counts := counts h, total_count := total_count h, min_value := min_value h,
            max_value := max_value h\<rparr>"
    "counts h0 = replicate (length (counts h)) 0" "counts_len h0 = int (length (counts h))"
    "normalizing_index_offset h = 0" "1 \<le> lowest_discernible_value h"
    "1 \<le> significant_figures h" "significant_figures h \<le> 5"
proof -
  obtain h0 where h0: "hdr_init calloc (lowest_discernible_value h) (highest_trackable_value h)
        (significant_figures h) = Some (Inr h0)"
      "h = h0\<lparr>counts := counts h, total_count := total_count h, min_value := min_value h,
              max_value := max_value h\<rparr>"
    using rec by (auto simp: recorded_into_def)
  note i = hdr_init_success [OF hi h0(1)]
  have "counts_len h = counts_len h0" by (subst h0(2)) simp
  then have len: "counts_len h0 = int (length (counts h))"
    using hdr_config_wfD(11) [OF hdr_absD(1) [OF abs]] by simp
  moreover have "normalizing_index_offset h = 0"
    using i(6) by (subst h0(2)) simp
  moreover have "1 \<le> lowest_discernible_value h \<and> 1 \<le> significant_figures h \<and> significant_figures h \<le> 5"
    using h0(1) by (auto simp: hdr_init_def hdr_calculate_bucket_config_def split: if_splits)
  ultimately show thesis
    using that [OF h0] i(2) by simp
qed

lemma reset_counters_scan_cong:
  assumes "counts_len h' = counts_len h" "counts h' = counts h"
  shows "reset_counters_scan h' i a b c = reset_counters_scan h i a b c"
proof (induction "nat (counts_len h - i)" arbitrary: i a b c)
  case 0
  then show ?case
    using assms by (simp add: reset_counters_scan.simps [of _ i])
next
  case (Suc d)
  then have d: "d = nat (counts_len h - (i + 1))" by simp
  have "counts_get_direct h' i = counts_get_direct h i"
    using assms by (simp add: counts_get_direct_def)
  then show ?case
    using assms Suc.hyps(1) [OF d] by (simp add: reset_counters_scan.simps [of _ i] split: option.split)
qed

lemma hdr_reset_internal_counters_frame [simp]:
  "hdr_reset_internal_counters (h\<lparr>total_count := x\<rparr>) = hdr_reset_internal_counters h"
  "hdr_reset_internal_counters (h\<lparr>min_value := x\<rparr>) = hdr_reset_internal_counters h"
  "hdr_reset_internal_counters (h\<lparr>max_value := x\<rparr>) = hdr_reset_internal_counters h"
proof -
  have "reset_counters_scan (h\<lparr>total_count := x\<rparr>) i a b c = reset_counters_scan h i a b c"
    "reset_counters_scan (h\<lparr>min_value := x\<rparr>) i a b c = reset_counters_scan h i a b c"
    "reset_counters_scan (h\<lparr>max_value := x\<rparr>) i a b c = reset_counters_scan h i a b c" for i a b c
    by (rule reset_counters_scan_cong; simp)+
  then show "hdr_reset_internal_counters (h\<lparr>total_count := x\<rparr>) = hdr_reset_internal_counters h"
    "hdr_reset_internal_counters (h\<lparr>min_value := x\<rparr>) = hdr_reset_internal_counters h"
    "hdr_reset_internal_counters (h\<lparr>max_value := x\<rparr>) = hdr_reset_internal_counters h"
    by (simp_all add: hdr_reset_internal_counters_def Let_def split: option.split prod.split)
qed

text \<open>The counts up to the greatest recorded value, which are those that are encoded.\<close>

definition recorded_counts :: "hdr_histogram \<Rightarrow> int list" where
  "recorded_counts h = take (nat (counts_index_for h (max_value h) + 1)) (counts h)"

lemma recorded_counts_bounds:
  assumes abs: "hdr_abs h M" and off: "normalizing_index_offset h = 0"
  shows "1 \<le> length (recorded_counts h)" "length (recorded_counts h) \<le> length (counts h)"
    "int (length (recorded_counts h)) = counts_index_for h (max_value h) + 1"
    "0 < length (encode_counts (recorded_counts h))" "length (encode_counts (recorded_counts h)) \<le> 9 * 8388608"
    "length (counts h) \<le> 8388608"
proof -
  note mx = counts_after_max [OF abs off] and len = hdr_config_wfD(11) [OF hdr_absD(1) [OF abs]]
  show l: "1 \<le> length (recorded_counts h)" "length (recorded_counts h) \<le> length (counts h)"
    "int (length (recorded_counts h)) = counts_index_for h (max_value h) + 1"
    using mx(1,2) len by (simp_all add: recorded_counts_def)
  obtain c cs where "recorded_counts h = c # cs" using l by (cases "recorded_counts h") auto
  then show "0 < length (encode_counts (recorded_counts h))"
    using encode_counts_nonempty [of c cs] by (simp only: length_greater_0_conv not_False_eq_True)
  show n: "length (counts h) \<le> 8388608" using counts_len_bound(2) [OF hdr_absD(1) [OF abs]] len by simp
  show "length (encode_counts (recorded_counts h)) \<le> 9 * 8388608"
    using encode_counts_length [of "recorded_counts h"] l n by simp
qed

lemma recorded_counts_range:
  assumes "hdr_abs h M" "c \<in> set (recorded_counts h)"
  shows "0 \<le> c \<and> c \<le> INT64_MAX"
proof -
  have c: "c \<in> set (counts h)" using assms(2) by (auto simp: recorded_counts_def dest: in_set_takeD)
  note ok = hdr_counts_okD [OF hdr_abs_counts_ok [OF assms(1)]]
  obtain j where "j < length (counts h)" "c = counts h ! j" using c by (auto simp: in_set_conv_nth)
  then have "c \<le> sum_list (counts h)" using nth_le_sum_list [of "counts h" j] ok(5) by auto
  with ok(3-5) c show ?thesis by auto
qed

lemma apply_recorded_counts:
  assumes abs: "hdr_abs h M" and off: "normalizing_index_offset h = 0"
    and h0: "counts h0 = replicate (length (counts h)) 0" "counts_len h0 = int (length (counts h))"
  shows "apply_to_counts_zz h0 (encode_counts (recorded_counts h) @ replicate 9 0) (int (length (encode_counts (recorded_counts h))))
    = Some (0, h0\<lparr>counts := counts h\<rparr>)"
proof -
  let ?cs = "recorded_counts h" and ?arr = "encode_counts (recorded_counts h) @ replicate 9 0"
  note b = recorded_counts_bounds [OF abs off]
  have "apply_zz_loop h0 ?arr (int (length (encode_counts ?cs))) 0 (int (length ([] :: int list)))
      = Some (0, h0\<lparr>counts := [] @ ?cs @ replicate (length (counts h) - length ?cs) 0\<rparr>)"
    by (rule apply_zz_encode_counts) (use h0 b recorded_counts_range [OF abs] in auto)
  moreover have "length ?cs = nat (counts_index_for h (max_value h) + 1)" using b(3) by simp
  ultimately show ?thesis
    using counts_after_max(3) [OF abs off] by (simp add: apply_to_counts_zz_def recorded_counts_def)
qed

text \<open>The compressed stream gives back the header and then the payload.\<close>

lemma zlib_ok_two_steps:
  assumes "zlib_ok env" "length enc \<le> 2 ^ 27" "40 < length enc"
  obtains s0 c c' s' c'' s'' where "z_inflateInit env = Some s0" "z_compress env enc = Some c" "length c \<le> 2 ^ 28"
    "z_inflate env s0 c Z_SYNC_FLUSH 40 = (Z_OK, take 40 enc, c', s')"
    "z_inflate env s' c' Z_FINISH (length enc - 40) = (Z_STREAM_END, drop 40 enc, c'', s'')"
  using assms unfolding zlib_ok_def by (metis order_refl)

lemma initialised_same:
  assumes "h = h0\<lparr>counts := counts h, total_count := total_count h, min_value := min_value h, max_value := max_value h\<rparr>"
    "normalizing_index_offset h = 0"
  shows "h0\<lparr>counts := counts h, normalizing_index_offset := 0, conversion_ratio := conversion_ratio h\<rparr>
      = h\<lparr>total_count := total_count h0, min_value := min_value h0, max_value := max_value h0\<rparr>"
proof -
  have "normalizing_index_offset h0 = normalizing_index_offset h" "conversion_ratio h0 = conversion_ratio h"
    by (subst assms(1), simp)+
  with assms(2) show ?thesis by (subst (2) assms(1)) simp
qed

lemma histogram_round_trip:
  fixes env :: "'z codec_env"
  assumes rec: "recorded_into (env_calloc env) h" and abs: "hdr_abs h M"
    and rng: "lowest_discernible_value h \<le> INT64_MAX" "0 \<le> highest_trackable_value h"
      "highest_trackable_value h \<le> INT64_MAX"
    and mem: "\<And>n. env_calloc env n" and zlib: "zlib_ok env"
    and dbl: "int64_bits_to_double env (double_to_int64_bits env (conversion_ratio h)) = conversion_ratio h"
  shows "\<exists>buf. hdr_encode_compressed env h = Some (Inr buf) \<and> 8 \<le> length buf
    \<and> (\<forall>pad. hdr_decode_compressed env (buf @ pad) g
          = (case hdr_reset_internal_counters h of None \<Rightarrow> None | Some h' \<Rightarrow> deliver_histogram g h'))"
proof -
  obtain h0 where h0: "hdr_init (env_calloc env) (lowest_discernible_value h) (highest_trackable_value h)
        (significant_figures h) = Some (Inr h0)"
      "h = h0\<lparr>counts := counts h, total_count := total_count h, min_value := min_value h,
              max_value := max_value h\<rparr>"
      "counts h0 = replicate (length (counts h)) 0" "counts_len h0 = int (length (counts h))"
      "normalizing_index_offset h = 0" "1 \<le> lowest_discernible_value h"
      "1 \<le> significant_figures h" "significant_figures h \<le> 5"
    using recorded_into_abs [OF rec abs rng(1,3)] by blast
  define payload where "payload = encode_counts (recorded_counts h)"
  define enc where "enc = encoding_flyweight_v1 env (V2_ENCODING_COOKIE OR 0x10) h payload"
  note b = recorded_counts_bounds [OF abs h0(5), folded payload_def]
    and fw = flyweight_fields [of env "V2_ENCODING_COOKIE OR 0x10" h payload, folded enc_def]
  have enc_len: "length enc \<le> 2 ^ 27" "40 < length enc" using fw(1) b(4,5) by simp_all
  obtain s0 c c' s' c'' s'' where z: "z_inflateInit env = Some s0" "z_compress env enc = Some c" "length c \<le> 2 ^ 28"
      "z_inflate env s0 c Z_SYNC_FLUSH 40 = (Z_OK, take 40 enc, c', s')"
      "z_inflate env s' c' Z_FINISH (length enc - 40) = (Z_STREAM_END, drop 40 enc, c'', s'')"
    by (rule zlib_ok_two_steps [OF zlib enc_len])
  define buf where "buf = htobe32 (V2_COMPRESSION_COOKIE OR 0x10) @ htobe32 (word_of_int (int (length c))) @ c"
  have limit: "(if counts_index_for h (max_value h) + 1 < counts_len h then counts_index_for h (max_value h) + 1
      else counts_len h) = int (length (recorded_counts h))"
    using b(2,3) counts_after_max(1,2) [OF abs h0(5)] by simp
  have encode: "hdr_encode_compressed env h = Some (Inr buf)"
    unfolding hdr_encode_compressed_def Let_def limit
    using b(1,2,3) mem z(2) by (simp add: recorded_counts_def payload_def enc_def buf_def)
  have "sint (word_of_int (int (length c)) :: u32) = int (length c)" using z(3) by (intro sint_word_of_int_32) auto
  then have flyweight: "inflate_flyweight env (buf @ pad) 40 = Some (Inr (take 40 enc, c', s'))" for pad
    using z(1,4) enc_len(2) by (simp add: inflate_flyweight_def buf_def compressed_fields Let_def)
  have plen32: "sint (word_of_int (int (length payload)) :: u32) = int (length payload)"
    using b(5) by (intro sint_word_of_int_32) auto
  have inflated: "inflate_counts env s' c' ((int (length payload) + 9) mod 2 ^ 64) (int (length payload))
      = Some (Inr (payload @ replicate 9 0))"
    using z(5) fw(1,2) mem b(5) by (simp add: inflate_counts_def)
  have sints: "sint (word_of_int (lowest_discernible_value h) :: u64) = lowest_discernible_value h"
    "sint (word_of_int (highest_trackable_value h) :: u64) = highest_trackable_value h"
    "sint (word_of_int (significant_figures h) :: u32) = significant_figures h"
    "sint (word_of_int (normalizing_index_offset h) :: u32) = 0"
    using rng h0(5-8) by simp_all
  have "hdr_decode_compressed_v2 env (buf @ pad) g
      = (case hdr_reset_internal_counters h of None \<Rightarrow> None | Some h' \<Rightarrow> deliver_histogram g h')" for pad
    unfolding hdr_decode_compressed_v2_def flyweight option.case sum.case prod.case Let_def
      fw(3-9) plen32 sints cookie_bases
    using h0(1) inflated apply_recorded_counts [OF abs h0(5,3,4), folded payload_def] initialised_same [OF h0(2,5)] dbl
    by (simp split: option.split)
  then show ?thesis
    using encode cookie_bases
    by (auto simp: hdr_decode_compressed_def buf_def compressed_fields)
qed

section \<open>Corrupt input\<close>

lemma leb_decode_total:
  assumes "i \<le> 8" "9 \<le> length buf"
  shows "\<exists>z n. leb_decode i acc buf = Some (z, n) \<and> i < n \<and> n \<le> 9"
  using assms(1)
proof (induction "8 - i" arbitrary: i acc)
  case 0
  then show ?case
    using assms(2) by (simp add: leb_decode.simps [of 8] byte_at_def)
next
  case (Suc d)
  then have i: "i < 8" "d = 8 - (i + 1)" by simp_all
  then show ?case
    using Suc.hyps(1) [OF i(2)] assms(2) by (fastforce simp: leb_decode.simps [of i] byte_at_def)
qed

lemma zig_zag_decode_total:
  assumes "9 \<le> length buf"
  shows "\<exists>w n. zig_zag_decode_i64 buf = Some (w, n) \<and> 0 < n \<and> n \<le> 9"
  using leb_decode_total [OF _ assms, of 0 0] by (auto simp: zig_zag_decode_leb)

lemma apply_zz_total:
  assumes "counts_len h = int (length (counts h))" "limit + 9 \<le> int (length data)" "0 \<le> ci"
  shows "\<exists>rc h'. apply_zz_loop h data limit di ci = Some (rc, h') \<and>
    rc \<in> {0, HDR_TRAILING_ZEROS_INVALID, HDR_VALUE_TRUNCATED, HDR_ENCODED_INPUT_TOO_LONG} \<and>
    length (counts h') = length (counts h)"
  using assms
proof (induction "nat (limit - int di)" arbitrary: di ci h rule: less_induct)
  case less
  show ?case
  proof (cases "int di < limit \<and> ci < counts_len h")
    case False
    then show ?thesis by (simp add: apply_zz_loop.simps [of h data limit di ci])
  next
    case True
    then have "9 \<le> length (drop di data)" using less.prems(2) unfolding length_drop by linarith
    then obtain w n where dec: "zig_zag_decode_i64 (drop di data) = Some (w, n)" "0 < n"
      using zig_zag_decode_total by blast
    have smaller: "nat (limit - int (di + n)) < nat (limit - int di)"
      using True dec(2) by simp
    show ?thesis
    proof (cases "sint w < 0")
      case True
      then show ?thesis
        using less.hyps [OF smaller, of h "ci + - sint w"] less.prems
          \<open>int di < limit \<and> ci < counts_len h\<close> dec(1)
        by (simp add: apply_zz_loop.simps [of h data limit di ci])
    next
      case False
      let ?h = "h\<lparr>counts := (counts h)[nat ci := sint w]\<rparr>"
      have "counts_set h ci (sint w) = Some ?h"
        using True less.prems by (simp add: counts_set_def)
      then show ?thesis
        using less.hyps [OF smaller, of ?h "ci + 1"] less.prems True dec(1) False
        by (simp add: apply_zz_loop.simps [of h data limit di ci])
    qed
  qed
qed

section \<open>Properties\<close>

text \<open>C38: Encoding a histogram that \<open>hdr_init\<close> configured and that was recorded into succeeds when memory
  suffices, and decoding the result gives a histogram with the same configuration, counts and total,
  its extremes recomputed from the counts. The compression library is assumed to inflate what it
  compressed.\<close>

theorem hdr_compressed_round_trip:
  assumes "recorded_into (env_calloc env) h" "hdr_abs h M"
    "lowest_discernible_value h \<le> INT64_MAX" "0 \<le> highest_trackable_value h"
    "highest_trackable_value h \<le> INT64_MAX"
    and "\<And>n. env_calloc env n" and "zlib_ok env"
    and "int64_bits_to_double env (double_to_int64_bits env (conversion_ratio h)) = conversion_ratio h"
  shows "\<exists>buf h'. hdr_encode_compressed env h = Some (Inr buf)
    \<and> hdr_decode_compressed env buf None = Some (0, Some h')
    \<and> hdr_reset_internal_counters h = Some h'
    \<and> h' = h\<lparr>min_value := min_value h', max_value := max_value h'\<rparr>"
proof -
  obtain buf where buf: "hdr_encode_compressed env h = Some (Inr buf)"
      "\<And>pad. hdr_decode_compressed env (buf @ pad) None
         = (case hdr_reset_internal_counters h of None \<Rightarrow> None | Some h' \<Rightarrow> deliver_histogram None h')"
    using histogram_round_trip [OF assms, of None] by blast
  have "normalizing_index_offset h = 0"
    using recorded_into_abs [OF assms(1,2,3,5)] by blast
  then obtain mn mx where "hdr_reset_internal_counters h =
      Some (h\<lparr>max_value := (if mx = - 1 then 0 else highest_equivalent_value h (hdr_value_at_index h mx)),
             min_value := (if mn = - 1 then INT64_MAX else hdr_value_at_index h mn)\<rparr>)"
    using hdr_reset_internal_counters_abs [OF assms(2)] by blast
  then show ?thesis
    using buf(1) buf(2) [of "[]"] by (simp add: deliver_histogram_def)
qed

text \<open>An environment that stores instead of compressing, with unlimited memory.\<close>

definition stored_env :: "unit codec_env" where
  "stored_env =
     \<lparr>env_calloc = (\<lambda>_. True), z_compress = Some, z_compressBound = (\<lambda>n. n), z_inflateInit = Some (),
      z_inflate = (\<lambda>_ inp flush n. (if flush = Z_FINISH \<and> length inp \<le> n then Z_STREAM_END else Z_OK,
                                   take n inp, drop n inp, ())),
      double_to_int64_bits = (\<lambda>_. 0x3ff0000000000000), int64_bits_to_double = (\<lambda>_. 1)\<rparr>"

lemma stored_env_ok: "zlib_ok stored_env" "env_calloc stored_env n"
  by (simp_all add: zlib_ok_def stored_env_def)

lemma sample_histogram_recorded_into: "recorded_into (env_calloc stored_env) sample_histogram"
proof -
  have "lowest_discernible_value sample_histogram = 1" "highest_trackable_value sample_histogram = 100"
    "significant_figures sample_histogram = 1"
    by code_simp+
  then show ?thesis
    using small_histogram_init by (auto simp: recorded_into_def stored_env_def sample_histogram_def)
qed

theorem hdr_compressed_round_trip_witness:
  "\<exists>buf h'. hdr_encode_compressed stored_env sample_histogram = Some (Inr buf)
     \<and> hdr_decode_compressed stored_env buf None = Some (0, Some h')"
proof -
  have "lowest_discernible_value sample_histogram = 1" "highest_trackable_value sample_histogram = 100"
    "conversion_ratio sample_histogram = 1"
    by code_simp+
  then show ?thesis
    using hdr_compressed_round_trip [OF sample_histogram_recorded_into sample_histogram_abs] stored_env_ok
    by (auto simp: stored_env_def)
qed

text \<open>The text form round trips as well: \<open>hdr_log_decode\<close> of what \<open>hdr_log_encode\<close> wrote delivers the
  histogram into an empty slot, and into a given histogram it merges it with \<open>hdr_add\<close>.\<close>

theorem hdr_log_text_round_trip:
  assumes "recorded_into (env_calloc env) h" "hdr_abs h M"
    "lowest_discernible_value h \<le> INT64_MAX" "0 \<le> highest_trackable_value h"
    "highest_trackable_value h \<le> INT64_MAX"
    and "\<And>n. env_calloc env n" and "zlib_ok env"
    and "int64_bits_to_double env (double_to_int64_bits env (conversion_ratio h)) = conversion_ratio h"
  shows "\<exists>txt. hdr_log_encode env h = Some (Inr txt)
    \<and> hdr_log_decode env txt g
        = (case hdr_reset_internal_counters h of None \<Rightarrow> None | Some h' \<Rightarrow> deliver_histogram g h')"
proof -
  obtain buf where buf: "hdr_encode_compressed env h = Some (Inr buf)" "8 \<le> length buf"
      "\<And>pad. hdr_decode_compressed env (buf @ pad) g
         = (case hdr_reset_internal_counters h of None \<Rightarrow> None | Some h' \<Rightarrow> deliver_histogram g h')"
    using histogram_round_trip [OF assms, of g] by blast
  let ?n = "(length buf + 2) div 3 * 4"
  let ?s = "base64_encode_loop buf 0 ?n"
  have s: "length ?s = ?n" "base64_decode_loop ?s = buf @ replicate ((3 - length buf mod 3) mod 3) 0"
    using base64_loop_round_trip [of 0 buf ?n] by simp_all
  have "4 \<le> ?n" using buf(2) by (auto simp: Suc_le_eq div_greater_zero_iff)
  moreover have "?n AND 3 = 0"
    using take_bit_eq_mask [of 2 ?n] by (simp add: mask_eq_exp_minus_1 take_bit_eq_mod)
  ultimately show ?thesis
    using s buf assms(6)
    by (simp add: hdr_log_encode_def hdr_log_decode_def hdr_base64_encode_def hdr_base64_decode_def
        hdr_base64_decoded_len_def encoded_len_eq)
qed

theorem hdr_log_text_round_trip_witness:
  "\<exists>txt. hdr_log_encode stored_env sample_histogram = Some (Inr txt)"
proof -
  have "lowest_discernible_value sample_histogram = 1" "highest_trackable_value sample_histogram = 100"
    "conversion_ratio sample_histogram = 1"
    by code_simp+
  then show ?thesis
    using hdr_log_text_round_trip [OF sample_histogram_recorded_into sample_histogram_abs] stored_env_ok
    by (auto simp: stored_env_def)
qed

text \<open>Applying ZigZag counts from any bytes returns one of the four documented codes and stays inside
  both arrays, provided nine bytes follow the data, which the version 2 decoder allocates.\<close>

theorem apply_to_counts_zz_safe:
  assumes "counts_len h = int (length (counts h))" "limit + 9 \<le> int (length data)"
  shows "\<exists>rc h'. apply_to_counts_zz h data limit = Some (rc, h') \<and>
    rc \<in> {0, HDR_TRAILING_ZEROS_INVALID, HDR_VALUE_TRUNCATED, HDR_ENCODED_INPUT_TOO_LONG} \<and>
    length (counts h') = length (counts h)"
  unfolding apply_to_counts_zz_def using apply_zz_total [OF assms, of 0 0] by simp

theorem apply_to_counts_zz_safe_witness:
  "\<exists>rc h'. apply_to_counts_zz small_histogram (replicate 12 255) 3 = Some (rc, h')"
proof -
  have "counts_len small_histogram = int (length (counts small_histogram))" by code_simp
  then show ?thesis
    using apply_to_counts_zz_safe [of small_histogram 3 "replicate 12 255"] by auto
qed

text \<open>When decoding reports an error, the histogram of the caller is untouched.\<close>

theorem hdr_decode_error_keeps_histogram:
  assumes "hdr_decode_compressed env buf g = Some (rc, g')" "rc \<noteq> 0"
  shows "g' = g"
proof -
  have deliver: "deliver_histogram g h = Some (rc, g') \<Longrightarrow> False" for h
    using assms(2) by (auto simp: deliver_histogram_def split: option.splits)
  from assms show ?thesis
    by (auto simp: hdr_decode_compressed_def hdr_decode_compressed_v0_def hdr_decode_compressed_v1_def
        hdr_decode_compressed_v2_def Let_def Option.bind_eq_Some_conv deliver
        split: if_splits option.splits sum.splits prod.splits dest!: deliver)
qed

theorem hdr_decode_error_keeps_histogram_witness:
  "hdr_decode_compressed stored_env [] (Some small_histogram) = Some (EINVAL, Some small_histogram)"
  using hdr_decode_error_keeps_histogram [of stored_env "[]" "Some small_histogram" EINVAL]
  by (auto simp: hdr_decode_compressed_def)

text \<open>The version 1 decoder divides by the word size of the cookie without checking it: a flyweight
  whose cookie has the word size 0 has no defined outcome.\<close>

theorem hdr_decode_v1_zero_word_size:
  assumes "inflate_flyweight env buf 40 = Some (Inr (fw, next_in, strm))" "be32_at fw 0 = V1_ENCODING_COOKIE"
  shows "hdr_decode_compressed_v1 env buf g = None"
proof -
  have "get_cookie_base V1_ENCODING_COOKIE = V1_ENCODING_COOKIE" "word_size_from_cookie V1_ENCODING_COOKIE = 0"
    by code_simp+
  then show ?thesis
    using assms by (simp add: hdr_decode_compressed_v1_def Let_def)
qed

theorem hdr_decode_v1_zero_word_size_witness:
  "hdr_decode_compressed_v1 stored_env
     (htobe32 V1_COMPRESSION_COOKIE @ htobe32 41 @ htobe32 V1_ENCODING_COOKIE @ replicate 37 0) None = None"
proof (rule hdr_decode_v1_zero_word_size)
  show "inflate_flyweight stored_env
      (htobe32 V1_COMPRESSION_COOKIE @ htobe32 41 @ htobe32 V1_ENCODING_COOKIE @ replicate 37 0) 40
    = Some (Inr (htobe32 V1_ENCODING_COOKIE @ replicate 36 0, [0], ()))"
    by code_simp
  show "be32_at (htobe32 V1_ENCODING_COOKIE @ replicate 36 0) 0 = V1_ENCODING_COOKIE"
    by code_simp
qed

end
