(* ===== verification/Ycsb_Coding.thy ===== *)
theory Ycsb_Coding
  imports Codecs
begin

text \<open>
  The fixed-width integers of \<open>lib/coding.h\<close> and the record format built from them,
  \<open>SerializeValues\<close> and \<open>DeSerializeValues\<close> of \<open>db/rocksdb_cloud_db.cc\<close>. The constant
  \<open>KLittleEndian\<close> makes the copies of an object's bytes little-endian, like the other branch.
  \<open>None\<close> is a read outside the buffer or a loop whose index never reaches its bound.
\<close>

section \<open>Fixed-width integers\<close>

definition EncodeFixed32 :: "u32 \<Rightarrow> byte list" where
  "EncodeFixed32 v =
     [ucast (v AND 0xff), ucast (drop_bit 8 v AND 0xff), ucast (drop_bit 16 v AND 0xff),
      ucast (drop_bit 24 v AND 0xff)]"

definition EncodeFixed64 :: "u64 \<Rightarrow> byte list" where
  "EncodeFixed64 v =
     [ucast (v AND 0xff), ucast (drop_bit 8 v AND 0xff), ucast (drop_bit 16 v AND 0xff),
      ucast (drop_bit 24 v AND 0xff), ucast (drop_bit 32 v AND 0xff), ucast (drop_bit 40 v AND 0xff),
      ucast (drop_bit 48 v AND 0xff), ucast (drop_bit 56 v AND 0xff)]"

fun DecodeFixed32 :: "byte list \<Rightarrow> u32 option" where
  "DecodeFixed32 (b0 # b1 # b2 # b3 # _) =
     Some (ucast b0 OR push_bit 8 (ucast b1) OR push_bit 16 (ucast b2) OR push_bit 24 (ucast b3))"
| "DecodeFixed32 _ = None"

definition DecodeFixed64 :: "byte list \<Rightarrow> u64 option" where
  "DecodeFixed64 ptr = do {
     lo \<leftarrow> DecodeFixed32 ptr;
     hi \<leftarrow> DecodeFixed32 (drop 4 ptr);
     Some (push_bit 32 (ucast hi) OR ucast lo)
   }"

definition PutFixed32 :: "byte list \<Rightarrow> u32 \<Rightarrow> byte list" where
  "PutFixed32 dst v = dst @ EncodeFixed32 v"

definition PutFixed64 :: "byte list \<Rightarrow> u64 \<Rightarrow> byte list" where
  "PutFixed64 dst v = dst @ EncodeFixed64 v"

section \<open>Records\<close>

type_synonym kvpair = "string \<times> string"

definition string_bytes :: "string \<Rightarrow> byte list" where
  "string_bytes s = map (\<lambda>c. of_nat (of_char c)) s"

definition bytes_string :: "byte list \<Rightarrow> string" where
  "bytes_string bs = map (\<lambda>b. char_of (unat b)) bs"

fun serialize_loop :: "kvpair list \<Rightarrow> byte list \<Rightarrow> byte list" where
  "serialize_loop [] out = out"
| "serialize_loop ((k, v) # kvs) out =
     (let out1 = PutFixed64 out (of_nat (length k)) @ string_bytes k;
          out2 = PutFixed64 out1 (of_nat (length v)) @ string_bytes v
      in serialize_loop kvs out2)"

text \<open>The index is an \<open>unsigned int\<close>: it reaches every size below \<open>2 ^ 32\<close> and no other.\<close>

definition SerializeValues :: "kvpair list \<Rightarrow> byte list option" where
  "SerializeValues kvs =
     (if length kvs < 2 ^ 32 then Some (serialize_loop kvs (PutFixed64 [] (of_nat (length kvs))))
      else None)"

text \<open>\<open>assign\<close> from a pointer and a length.\<close>

definition assign_from :: "byte list \<Rightarrow> nat \<Rightarrow> u64 \<Rightarrow> string option" where
  "assign_from buf offset n =
     (if offset + unat n \<le> length buf then Some (bytes_string (take (unat n) (drop offset buf))) else None)"

primrec deserialize_loop :: "nat \<Rightarrow> byte list \<Rightarrow> nat \<Rightarrow> kvpair list \<Rightarrow> kvpair list option" where
  "deserialize_loop 0 buf offset kvs = Some kvs"
| "deserialize_loop (Suc n) buf offset kvs = do {
     key_size \<leftarrow> DecodeFixed64 (drop offset buf);
     key \<leftarrow> assign_from buf (offset + 8) key_size;
     value_size \<leftarrow> DecodeFixed64 (drop (offset + 8 + unat key_size) buf);
     v \<leftarrow> assign_from buf (offset + 8 + unat key_size + 8) value_size;
     deserialize_loop n buf (offset + 8 + unat key_size + 8 + unat value_size) (kvs @ [(key, v)])
   }"

text \<open>\<open>c_str()\<close> is the string's bytes and a terminating NUL; the pairs are appended to \<open>kvs\<close>.\<close>

definition DeSerializeValues :: "byte list \<Rightarrow> kvpair list \<Rightarrow> kvpair list option" where
  "DeSerializeValues v kvs =
     (let buf = v @ [0] in do {
        kv_num \<leftarrow> DecodeFixed64 buf;
        deserialize_loop (unat kv_num) buf 8 kvs
      })"

section \<open>Round trips\<close>

lemma and_0xff: "w AND 0xff = take_bit 8 (w :: 'a :: len word)"
  by (simp add: take_bit_eq_mask mask_eq_exp_minus_1)

lemma DecodeFixed32_Encode [simp]: "DecodeFixed32 (EncodeFixed32 w @ rest) = Some w"
proof -
  have "(ucast (ucast (take_bit 8 w) :: byte) :: u32) OR push_bit 8 (ucast (ucast (take_bit 8 (drop_bit 8 w)) :: byte))
      OR push_bit 16 (ucast (ucast (take_bit 8 (drop_bit 16 w)) :: byte))
      OR push_bit 24 (ucast (ucast (take_bit 8 (drop_bit 24 w)) :: byte)) = w"
  proof (rule bit_word_eqI)
    fix n
    assume "n < LENGTH(32)"
    then consider "n < 8" | "8 \<le> n" "n < 16" | "16 \<le> n" "n < 24" | "24 \<le> n" "n < 32" by fastforce
    then show "bit ((ucast (ucast (take_bit 8 w) :: byte) :: u32) OR push_bit 8 (ucast (ucast (take_bit 8 (drop_bit 8 w)) :: byte))
      OR push_bit 16 (ucast (ucast (take_bit 8 (drop_bit 16 w)) :: byte))
      OR push_bit 24 (ucast (ucast (take_bit 8 (drop_bit 24 w)) :: byte))) n = bit w n"
      by cases (auto simp: bit_simps)
  qed
  then show ?thesis by (simp add: EncodeFixed32_def and_0xff)
qed

lemma EncodeFixed_length [simp]: "length (EncodeFixed32 v) = 4" "length (EncodeFixed64 w) = 8"
  by (simp_all add: EncodeFixed32_def EncodeFixed64_def)

lemma EncodeFixed64_halves: "EncodeFixed64 w = EncodeFixed32 (ucast w) @ EncodeFixed32 (ucast (drop_bit 32 w))"
proof -
  have lo: "ucast (take_bit 8 (drop_bit n (ucast w :: u32))) = (ucast (take_bit 8 (drop_bit n w)) :: byte)"
    if "n \<le> 24" for n
    by (rule bit_word_eqI) (use that in \<open>auto simp: bit_simps\<close>)
  have hi: "ucast (take_bit 8 (drop_bit n (ucast (drop_bit 32 w) :: u32)))
      = (ucast (take_bit 8 (drop_bit (32 + n) w)) :: byte)" if "n \<le> 24" for n
    by (rule bit_word_eqI) (use that in \<open>auto simp: bit_simps ac_simps\<close>)
  show ?thesis
    using lo [of 0] lo [of 8] lo [of 16] lo [of 24] hi [of 0] hi [of 8] hi [of 16] hi [of 24]
    by (simp add: EncodeFixed64_def EncodeFixed32_def and_0xff)
qed

lemma DecodeFixed64_Encode [simp]: "DecodeFixed64 (EncodeFixed64 w @ rest) = Some w"
proof -
  have "push_bit 32 (ucast (ucast (drop_bit 32 w) :: u32)) OR ucast (ucast w :: u32) = w"
    by (rule bit_word_eqI) (auto simp: bit_simps not_less)
  then show ?thesis
    by (simp add: DecodeFixed64_def EncodeFixed64_halves)
qed

interpretation fixed32: prefix_codec EncodeFixed32 "\<lambda>buf. map_option (\<lambda>w. (w, 4)) (DecodeFixed32 buf)" 4
  by unfold_locales simp_all

interpretation fixed64: prefix_codec EncodeFixed64 "\<lambda>buf. map_option (\<lambda>w. (w, 8)) (DecodeFixed64 buf)" 8
  by unfold_locales simp_all

lemma string_bytes_length [simp]: "length (string_bytes s) = length s"
  by (simp add: string_bytes_def)

lemma bytes_string_bytes [simp]: "bytes_string (string_bytes s) = s"
proof -
  have "char_of (unat (of_nat (of_char c) :: byte)) = c" for c
  proof -
    have "(of_char c :: nat) < 2 ^ 8" by simp
    then show ?thesis by (simp add: unsigned_of_nat take_bit_nat_eq_self)
  qed
  then show ?thesis by (simp add: bytes_string_def string_bytes_def map_idI)
qed

section \<open>The record format\<close>

text \<open>The bytes of one pair, and the size bound under which a length fits its field.\<close>

definition pair_bytes :: "kvpair \<Rightarrow> byte list" where
  "pair_bytes kv = EncodeFixed64 (of_nat (length (fst kv))) @ string_bytes (fst kv)
     @ EncodeFixed64 (of_nat (length (snd kv))) @ string_bytes (snd kv)"

definition pair_fits :: "kvpair \<Rightarrow> bool" where
  "pair_fits kv \<longleftrightarrow> length (fst kv) < 2 ^ 64 \<and> length (snd kv) < 2 ^ 64"

lemma serialize_loop_eq: "serialize_loop kvs out = out @ concat (map pair_bytes kvs)"
  by (induction kvs out rule: serialize_loop.induct) (simp_all add: PutFixed64_def pair_bytes_def)

lemma unat_of_length: "n < 2 ^ 64 \<Longrightarrow> unat (of_nat n :: u64) = n"
  by (simp add: unsigned_of_nat take_bit_nat_eq_self)

lemma drop_append_eq: "drop offset buf = xs @ rest \<Longrightarrow> drop (offset + length xs) buf = rest"
  by (metis add.commute append_eq_conv_conj drop_drop)

lemma assign_from_prefix:
  assumes "drop offset buf = string_bytes s @ rest" "length s < 2 ^ 64" "offset \<le> length buf"
  shows "assign_from buf offset (of_nat (length s)) = Some s"
proof -
  have "length (drop offset buf) = length s + length rest" by (simp add: assms(1))
  then have "offset + length s \<le> length buf" using assms(3) by simp
  then show ?thesis
    using assms(1,2) by (simp add: assign_from_def unat_of_length)
qed

lemma deserialize_loop_pairs:
  "list_all pair_fits kvs \<Longrightarrow> drop offset buf = concat (map pair_bytes kvs) @ rest \<Longrightarrow> offset \<le> length buf \<Longrightarrow>
     deserialize_loop (length kvs) buf offset acc = Some (acc @ kvs)"
proof (induction kvs arbitrary: offset acc)
  case (Cons kv kvs)
  obtain k v where kv: "kv = (k, v)" by (cases kv)
  let ?n = "of_nat (length k) :: u64" and ?m = "of_nat (length v) :: u64"
  let ?tail = "concat (map pair_bytes kvs) @ rest"
  have fits: "length k < 2 ^ 64" "length v < 2 ^ 64"
    using Cons.prems(1) kv by (simp_all add: pair_fits_def)
  have d0: "drop offset buf = EncodeFixed64 ?n @ string_bytes k @ EncodeFixed64 ?m @ string_bytes v @ ?tail"
    using Cons.prems(2) kv by (simp add: pair_bytes_def [of "(k, v)"])
  have d1: "drop (offset + 8) buf = string_bytes k @ EncodeFixed64 ?m @ string_bytes v @ ?tail"
    using drop_append_eq [OF d0] by simp
  have d2: "drop (offset + 8 + length k) buf = EncodeFixed64 ?m @ string_bytes v @ ?tail"
    using drop_append_eq [OF d1] by simp
  have d3: "drop (offset + 8 + length k + 8) buf = string_bytes v @ ?tail"
    using drop_append_eq [OF d2] by simp
  have d4: "drop (offset + 8 + length k + 8 + length v) buf = ?tail"
    using drop_append_eq [OF d3] by simp
  have len: "offset + 8 + length k + 8 + length v \<le> length buf"
  proof -
    have "length (drop offset buf) = 8 + length k + 8 + length v + length ?tail" unfolding d0 by simp
    then show ?thesis using Cons.prems(3) by simp
  qed
  have a1: "assign_from buf (offset + 8) ?n = Some k"
    using assign_from_prefix [OF d1 fits(1)] len by simp
  have a2: "assign_from buf (offset + 8 + length k + 8) ?m = Some v"
    using assign_from_prefix [OF d3 fits(2)] len by simp
  have "deserialize_loop (length kvs) buf (offset + 8 + length k + 8 + length v) (acc @ [(k, v)])
      = Some ((acc @ [(k, v)]) @ kvs)"
    using Cons.prems(1) d4 len by (intro Cons.IH) simp_all
  then show ?case
    using kv a1 a2 fits by (simp add: d0 d2 unat_of_length)
qed simp

lemma serialized_record:
  assumes "length kvs < 2 ^ 32" "list_all pair_fits kvs"
  shows "\<exists>bytes. SerializeValues kvs = Some bytes \<and> (\<forall>acc. DeSerializeValues bytes acc = Some (acc @ kvs))"
proof -
  let ?bytes = "EncodeFixed64 (of_nat (length kvs)) @ concat (map pair_bytes kvs)"
  have ser: "SerializeValues kvs = Some ?bytes"
    using assms(1) by (simp add: SerializeValues_def serialize_loop_eq PutFixed64_def)
  have "drop 8 (?bytes @ [0]) = concat (map pair_bytes kvs) @ [0]" by simp
  from deserialize_loop_pairs [OF assms(2) this]
  have "deserialize_loop (length kvs) (?bytes @ [0]) 8 acc = Some (acc @ kvs)" for acc by simp
  moreover have "unat (of_nat (length kvs) :: u64) = length kvs"
    using assms(1) by (intro unat_of_length) simp
  ultimately have "DeSerializeValues ?bytes acc = Some (acc @ kvs)" for acc
    by (simp add: DeSerializeValues_def Let_def)
  with ser show ?thesis by blast
qed

section \<open>Properties\<close>

text \<open>C27: Deserialising a serialised record gives its pairs back, appended to the result vector,
  for every record of fewer than \<open>2 ^ 32\<close> pairs whose strings are shorter than \<open>2 ^ 64\<close> bytes;
  no read leaves the buffer.\<close>

theorem DeSerialize_Serialize:
  assumes "length kvs < 2 ^ 32" "list_all pair_fits kvs"
  shows "\<exists>bytes. SerializeValues kvs = Some bytes \<and> DeSerializeValues bytes acc = Some (acc @ kvs)"
  using serialized_record [OF assms] by blast

theorem DeSerialize_Serialize_witness:
  "\<exists>bytes. SerializeValues [(''field0'', ''abc''), (''field1'', '''')] = Some bytes
     \<and> DeSerializeValues bytes [] = Some [(''field0'', ''abc''), (''field1'', '''')]"
  using DeSerialize_Serialize [of "[(''field0'', ''abc''), (''field1'', '''')]" "[]"]
  by (simp add: pair_fits_def)

end
