(* ===== verification/Dictionaries.thy ===== *)
theory Dictionaries
  imports Prelude "HOL-Library.Char_ord" "HOL-Library.List_Lexorder"
begin

text \<open>
  The contract of a key-value table (what a lookup returns after an update) and what follows for
  a sequence of updates; and the ordered association list that models \<open>std::map\<close>, which keeps its
  keys strictly ascending and is an instance of the contract.
\<close>

section \<open>Ordered association lists\<close>

text \<open>\<open>m[k] = v\<close> of a \<open>std::map\<close>: overwrite the binding, or insert it at its place in the order.\<close>

fun map_put :: "('k :: linorder) \<Rightarrow> 'v \<Rightarrow> ('k \<times> 'v) list \<Rightarrow> ('k \<times> 'v) list" where
  "map_put k v [] = [(k, v)]"
| "map_put k v ((k', v') # m) =
     (if k = k' then (k, v) # m
      else if k < k' then (k, v) # (k', v') # m
      else (k', v') # map_put k v m)"

abbreviation ordered_keys :: "(('k :: linorder) \<times> 'v) list \<Rightarrow> bool" where
  "ordered_keys m \<equiv> sorted_wrt (<) (map fst m)"

lemma set_keys_map_put [simp]: "fst ` set (map_put k v m) = insert k (fst ` set m)"
  by (induction m rule: map_put.induct) auto

lemma map_of_map_put [simp]: "map_of (map_put k v m) = (map_of m)(k \<mapsto> v)"
  by (induction m rule: map_put.induct) (auto simp: fun_eq_iff)

lemma ordered_keys_map_put: "ordered_keys m \<Longrightarrow> ordered_keys (map_put k v m)"
proof (induction m rule: map_put.induct)
  case (2 k v k' v' m)
  then have "\<forall>x \<in> fst ` set (map_put k v m). k' < x" if "k' < k"
    using that by simp
  with 2 show ?case by (auto simp: image_iff)
qed simp

section \<open>The contract\<close>

locale dictionary =
  fixes find :: "'m \<Rightarrow> 'k \<Rightarrow> 'v option" and put :: "'k \<Rightarrow> 'v \<Rightarrow> 'm \<Rightarrow> 'm" and wf :: "'m \<Rightarrow> bool"
  assumes find_put: "wf m \<Longrightarrow> find (put k v m) = (find m)(k \<mapsto> v)"
    and wf_put: "wf m \<Longrightarrow> wf (put k v m)"
begin

lemma wf_puts: "wf m \<Longrightarrow> wf (fold (\<lambda>(k, v). put k v) kvs m)"
  by (induction kvs arbitrary: m) (auto intro: wf_put)

text \<open>After a sequence of updates a lookup finds the last value that was put.\<close>

lemma find_puts:
  "wf m \<Longrightarrow> find (fold (\<lambda>(k, v). put k v) kvs m) = find m ++ map_of (rev kvs)"
proof (induction kvs arbitrary: m)
  case (Cons kv kvs)
  then have "find (fold (\<lambda>(k, v). put k v) kvs (put (fst kv) (snd kv) m))
      = find (put (fst kv) (snd kv) m) ++ map_of (rev kvs)"
    by (intro Cons.IH wf_put)
  then show ?case
    using Cons.prems by (cases kv) (simp add: find_put map_add_def fun_eq_iff split: option.splits)
qed simp

end

interpretation ordered_map: dictionary map_of map_put ordered_keys
  by unfold_locales (simp_all add: ordered_keys_map_put)

end
