(* ===== verification/Ycsb_Utils.thy ===== *)
theory Ycsb_Utils
  imports Dictionaries
begin

text \<open>
  The utilities of the benchmark (\<open>core/utils.h\<close>, \<open>core/properties.h\<close>) and its command line
  (\<open>ycsbc.cc\<close>): the FNV hash, booleans and trimming, the property table with its file format, and
  the option parser. A thrown exception is the left injection of a result; \<open>exit\<close> of the command
  line parser is an error value. An open file is its text, a file that could not be opened is
  \<open>None\<close>. A \<open>std::string\<close> is a character list, \<open>std::map\<close> an association list in key order.
\<close>

datatype ycsb_exn =
    Ycsb_Exception string
  | Out_Of_Range
  | Invalid_Argument
  | System_Error

section \<open>Hashing, booleans and trimming\<close>

definition kFNVOffsetBasis64 :: u64 where
  "kFNVOffsetBasis64 = 0xCBF29CE484222325"

definition kFNVPrime64 :: u64 where
  "kFNVPrime64 = 1099511628211"

text \<open>The loop of \<open>FNVHash64\<close>; the first argument counts the remaining rounds.\<close>

fun fnv_loop :: "nat \<Rightarrow> u64 \<Rightarrow> u64 \<Rightarrow> u64" where
  "fnv_loop 0 val hash = hash"
| "fnv_loop (Suc n) val hash =
     (let octet = val AND 0x00ff
      in fnv_loop n (drop_bit 8 val) ((hash XOR octet) * kFNVPrime64))"

definition FNVHash64 :: "u64 \<Rightarrow> u64" where
  "FNVHash64 val = fnv_loop 8 val kFNVOffsetBasis64"

text \<open>\<open>tolower\<close> and \<open>isspace\<close> of the C locale.\<close>

definition c_tolower :: "char \<Rightarrow> char" where
  "c_tolower c = (let n = of_char c :: nat in if 65 \<le> n \<and> n \<le> 90 then char_of (n + 32) else c)"

definition c_isspace :: "char \<Rightarrow> bool" where
  "c_isspace c = (let n = of_char c :: nat in n = 32 \<or> (9 \<le> n \<and> n \<le> 13))"

definition StrToBool :: "string \<Rightarrow> ycsb_exn + bool" where
  "StrToBool str =
     (let str = map c_tolower str in
      if str = ''true'' \<or> str = ''1'' then Inr True
      else if str = ''false'' \<or> str = ''0'' then Inr False
      else Inl (Ycsb_Exception (''Invalid bool string: '' @ str)))"

definition Trim :: "string \<Rightarrow> string" where
  "Trim str = (let front = dropWhile c_isspace str in rev (dropWhile c_isspace (rev front)))"

text \<open>The remainder of \<open>rand()\<close> selects one of the 94 printable characters.\<close>

definition RandomPrintChar :: "nat \<Rightarrow> char" where
  "RandomPrintChar rand = char_of (rand mod 94 + 33)"

section \<open>Properties\<close>

type_synonym properties = "(string \<times> string) list"

definition GetProperty :: "properties \<Rightarrow> string \<Rightarrow> string \<Rightarrow> string" where
  "GetProperty props key default_value =
     (case map_of props key of None \<Rightarrow> default_value | Some v \<Rightarrow> v)"

definition property_at :: "properties \<Rightarrow> string \<Rightarrow> ycsb_exn + string" where
  "property_at props key = (case map_of props key of None \<Rightarrow> Inl Out_Of_Range | Some v \<Rightarrow> Inr v)"

definition SetProperty :: "string \<Rightarrow> string \<Rightarrow> properties \<Rightarrow> properties" where
  "SetProperty key v props = map_put key v props"

text \<open>\<open>std::getline\<close>: the line and what is left, \<open>None\<close> when the end of the file was reached.\<close>

definition c_getline :: "string \<Rightarrow> string \<times> string option" where
  "c_getline input =
     (let line = takeWhile (\<lambda>c. c \<noteq> CHR 0x0A) input; rest = drop (length line) input
      in (line, if rest = [] then None else Some (tl rest)))"

text \<open>The body of the loop of \<open>Load\<close>. The first character of an empty line is the terminating NUL.\<close>

definition load_line :: "string \<Rightarrow> properties \<Rightarrow> properties" where
  "load_line line props =
     (if line \<noteq> [] \<and> hd line = CHR ''#'' then props
      else
        let pos = length (takeWhile (\<lambda>c. c \<noteq> CHR ''='') line) in
        if pos = length line then props
        else SetProperty (Trim (take pos line)) (Trim (drop (pos + 1) line)) props)"

lemma c_getline_rest [termination_simp]: "snd (c_getline input) = Some rest \<Longrightarrow> length rest < length input"
proof -
  assume "snd (c_getline input) = Some rest"
  then have "drop (length (takeWhile (\<lambda>c. c \<noteq> CHR 0x0A) input)) input \<noteq> []"
    and "rest = tl (drop (length (takeWhile (\<lambda>c. c \<noteq> CHR 0x0A) input)) input)"
    by (auto simp: c_getline_def Let_def split: if_splits)
  then show ?thesis by auto
qed

function load_loop :: "string \<Rightarrow> properties \<Rightarrow> properties" where
  "load_loop input props =
     (let props' = load_line (fst (c_getline input)) props
      in case snd (c_getline input) of None \<Rightarrow> props' | Some rest \<Rightarrow> load_loop rest props')"
  by pat_completeness auto
termination
  by (relation "measure (\<lambda>(input, props). length input)") (auto dest: c_getline_rest)

declare load_loop.simps [simp del]

definition Load :: "string option \<Rightarrow> properties \<Rightarrow> ycsb_exn + properties" where
  "Load file props =
     (case file of
        None \<Rightarrow> Inl (Ycsb_Exception ''File not open!'')
      | Some input \<Rightarrow> Inr (load_loop input props))"

definition DebugString :: "properties \<Rightarrow> string" where
  "DebugString props = concat (map (\<lambda>(k, v). k @ '':'' @ v @ [CHR 0x0A]) props)"

section \<open>The command line\<close>

datatype cmd_exit =
    Cmd_Usage
  | Cmd_Unknown string
  | Cmd_Uncaught ycsb_exn

definition StrStartWith :: "string \<Rightarrow> string \<Rightarrow> bool" where
  "StrStartWith str pre = (take (length pre) str = pre)"

definition default_properties :: "properties \<Rightarrow> properties" where
  "default_properties props =
     fold (\<lambda>(k, v). SetProperty k v)
       [(''dbname'', ''basic''), (''dbpath'', ''''), (''load'', ''false''), (''run'', ''false''),
        (''threadcount'', ''1''), (''dboption'', ''0''), (''dbstatistics'', ''false''),
        (''dbwaitforbalance'', ''false'')] props"

text \<open>The options that set a property, with the property they set.\<close>

definition option_property :: "string \<Rightarrow> string option" where
  "option_property =
     map_of [(''-threads'', ''threadcount''), (''-db'', ''dbname''), (''-host'', ''host''),
             (''-port'', ''port''), (''-slaves'', ''slaves''), (''-dbpath'', ''dbpath''),
             (''-load'', ''load''), (''-run'', ''run''), (''-dboption'', ''dboption''),
             (''-dbstatistics'', ''dbstatistics''), (''-dbwaitforbalance'', ''dbwaitforbalance'')]"

text \<open>
  The loop of \<open>ParseCommandLine\<close> on the arguments from \<open>argindex\<close> on. The handler around
  \<open>props.Load\<close> catches a \<open>std::string\<close>, which \<open>Load\<close> never throws, so its exception escapes.
\<close>

fun parse_options ::
    "(string \<Rightarrow> string option) \<Rightarrow> string list \<Rightarrow> string \<Rightarrow> properties
       \<Rightarrow> cmd_exit + string list \<times> string \<times> properties" where
  "parse_options files [] filename props = Inr ([], filename, props)"
| "parse_options files (arg # args) filename props =
     (if \<not> StrStartWith arg ''-'' then Inr (arg # args, filename, props)
      else
        (case option_property arg of
           Some key \<Rightarrow>
             (case args of
                [] \<Rightarrow> Inl Cmd_Usage
              | v # rest \<Rightarrow> parse_options files rest filename (SetProperty key v props))
         | None \<Rightarrow>
             if arg = ''-P'' then
               (case args of
                  [] \<Rightarrow> Inl Cmd_Usage
                | f # rest \<Rightarrow>
                    (case Load (files f) props of
                       Inl e \<Rightarrow> Inl (Cmd_Uncaught e)
                     | Inr props' \<Rightarrow> parse_options files rest f props'))
             else Inl (Cmd_Unknown arg)))"

definition ParseCommandLine ::
    "(string \<Rightarrow> string option) \<Rightarrow> string list \<Rightarrow> properties \<Rightarrow> cmd_exit + string \<times> properties" where
  "ParseCommandLine files argv props =
     (case parse_options files (tl argv) '''' props of
        Inl e \<Rightarrow> Inl e
      | Inr (rest, filename, props') \<Rightarrow>
          if length rest = length (tl argv) \<or> rest \<noteq> [] then Inl Cmd_Usage
          else Inr (filename, props'))"

text \<open>What the program prints before it leaves at the command line.\<close>

definition UsageMessage :: "string \<Rightarrow> string list" where
  "UsageMessage command =
     [''Usage: '' @ command @ '' [options]'',
      ''Options:'',
      ''  -threads n: execute using n threads (default: 1)'',
      ''  -db dbname: specify the name of the DB to use (default: basic)'',
      ''  -P propertyfile: load properties from the given file. Multiple files can'',
      ''                   be specified, and will be processed in the order specified'']"

definition cmd_message :: "string \<Rightarrow> cmd_exit \<Rightarrow> string list" where
  "cmd_message command e =
     (case e of
        Cmd_Usage \<Rightarrow> UsageMessage command
      | Cmd_Unknown arg \<Rightarrow> [''Unknown option '' @ [CHR 0x27] @ arg @ [CHR 0x27]]
      | Cmd_Uncaught _ \<Rightarrow> [])"

section \<open>Property files\<close>

text \<open>The lines of a text, and a file as a sequence of comments and settings with arbitrary padding.\<close>

fun file_lines :: "string \<Rightarrow> string list" where
  "file_lines [] = [[]]"
| "file_lines (c # cs) =
     (if c = CHR 0x0A then [] # file_lines cs
      else (case file_lines cs of [] \<Rightarrow> [[c]] | line # rest \<Rightarrow> (c # line) # rest))"

lemma file_lines_not_Nil [simp]: "file_lines s \<noteq> []"
  by (induction s) (auto split: list.splits)

lemma file_lines_append:
  "CHR 0x0A \<notin> set line \<Longrightarrow> file_lines (line @ CHR 0x0A # rest) = line # file_lines rest"
  by (induction line) auto

lemma file_lines_c_getline:
  "file_lines s = (case c_getline s of (line, None) \<Rightarrow> [line] | (line, Some rest) \<Rightarrow> line # file_lines rest)"
proof (induction s)
  case (Cons c s)
  then show ?case
    by (cases "c = CHR 0x0A") (auto simp: c_getline_def Let_def split: option.splits if_splits)
qed (simp add: c_getline_def)

lemma load_loop_eq: "load_loop input props = fold load_line (file_lines input) props"
proof (induction input props rule: load_loop.induct)
  case (1 input props)
  show ?case
  proof (cases "snd (c_getline input)")
    case None
    then show ?thesis
      by (subst load_loop.simps, subst file_lines_c_getline) (simp add: case_prod_beta)
  next
    case (Some rest)
    with 1 [OF refl Some] show ?thesis
      by (subst load_loop.simps, subst file_lines_c_getline) (simp add: case_prod_beta)
  qed
qed

datatype file_item =
    Comment_Line string
  | Setting_Line string string string string string string

fun item_text :: "file_item \<Rightarrow> string" where
  "item_text (Comment_Line t) = CHR ''#'' # t"
| "item_text (Setting_Line a k b c v d) = a @ k @ b @ ''='' @ c @ v @ d"

fun item_setting :: "file_item \<Rightarrow> (string \<times> string) list" where
  "item_setting (Comment_Line t) = []"
| "item_setting (Setting_Line a k b c v d) = [(k, v)]"

definition trimmed :: "string \<Rightarrow> bool" where
  "trimmed s = (s = [] \<or> \<not> c_isspace (hd s) \<and> \<not> c_isspace (last s))"

text \<open>Padding is blank, names and values have no padding of their own, a name has no equals sign,
  and a setting does not begin like a comment.\<close>

fun item_ok :: "file_item \<Rightarrow> bool" where
  "item_ok (Comment_Line t) = (CHR 0x0A \<notin> set t)"
| "item_ok (Setting_Line a k b c v d) =
     (list_all c_isspace (a @ b @ c @ d) \<and> trimmed k \<and> trimmed v
      \<and> CHR 0x0A \<notin> set (a @ k @ b @ c @ v @ d) \<and> CHR ''='' \<notin> set k
      \<and> (a = [] \<longrightarrow> k = [] \<or> hd k \<noteq> CHR ''#''))"

definition file_text :: "file_item list \<Rightarrow> string" where
  "file_text items = concat (map (\<lambda>i. item_text i @ [CHR 0x0A]) items)"

lemma Trim_padded:
  assumes "list_all c_isspace a" "list_all c_isspace b" "trimmed s"
  shows "Trim (a @ s @ b) = s"
proof (cases "s = []")
  case True
  with assms have "dropWhile c_isspace (a @ s @ b) = []"
    unfolding dropWhile_eq_Nil_conv list_all_iff by auto
  then show ?thesis unfolding Trim_def Let_def True by (simp only: dropWhile.simps rev.simps)
next
  case False
  with assms(3) have s: "\<not> c_isspace (hd s)" "\<not> c_isspace (last s)" by (simp_all add: trimmed_def)
  from False s(1) have "dropWhile c_isspace (a @ s @ b) = s @ b"
    using assms(1) by (cases s) (auto simp: list_all_iff dropWhile_append)
  moreover have "dropWhile c_isspace (rev b @ rev s) = rev s"
    using False s(2) assms(2) by (cases "rev s") (auto simp: list_all_iff dropWhile_append last_rev)
  ultimately show ?thesis by (simp add: Trim_def)
qed

lemma isspace_special [simp]: "\<not> c_isspace CHR ''#''" "\<not> c_isspace CHR ''=''"
  by (simp_all add: c_isspace_def)

lemma not_space_eq: "list_all c_isspace s \<Longrightarrow> CHR ''='' \<notin> set s"
  using isspace_special(2) unfolding list_all_iff by blast

lemma load_line_item:
  assumes "item_ok i"
  shows "load_line (item_text i) props = fold (\<lambda>(k, v). SetProperty k v) (item_setting i) props"
proof (cases i)
  case (Setting_Line a k b c v d)
  let ?line = "a @ k @ b @ ''='' @ c @ v @ d"
  have blank: "list_all c_isspace a" "list_all c_isspace b" "list_all c_isspace c" "list_all c_isspace d"
    using assms Setting_Line by simp_all
  have no_eq: "CHR ''='' \<notin> set (a @ k @ b)"
    using assms Setting_Line not_space_eq [OF blank(1)] not_space_eq [OF blank(2)] by simp
  have tk: "takeWhile (\<lambda>x. x \<noteq> CHR ''='') ?line = a @ k @ b"
  proof -
    have "takeWhile (\<lambda>x. x \<noteq> CHR ''='') ((a @ k @ b) @ CHR ''='' # c @ v @ d) = a @ k @ b"
      unfolding takeWhile_tail [of "\<lambda>x. x \<noteq> CHR ''=''" "CHR ''=''", simplified] takeWhile_eq_all_conv
      using no_eq by blast
    then show ?thesis by simp
  qed
  have "\<not> (?line \<noteq> [] \<and> hd ?line = CHR ''#'')"
  proof (cases a)
    case Nil
    show ?thesis
    proof (cases k)
      case Nil
      with \<open>a = []\<close> blank(2) show ?thesis by (cases b) auto
    next
      case (Cons x k')
      with \<open>a = []\<close> assms Setting_Line show ?thesis by auto
    qed
  next
    case (Cons x a')
    with blank(1) show ?thesis by auto
  qed
  then have "load_line ?line props = SetProperty (Trim (a @ k @ b)) (Trim (c @ v @ d)) props"
    unfolding load_line_def Let_def tk by simp
  then show ?thesis
    using assms Setting_Line blank by (simp add: Trim_padded)
qed (simp add: load_line_def)

lemma load_loop_file_text:
  assumes "list_all item_ok items"
  shows "load_loop (file_text items) props
    = fold (\<lambda>(k, v). SetProperty k v) (concat (map item_setting items)) props"
proof -
  have "file_lines (file_text items) = map item_text items @ [[]]"
    using assms
  proof (induction items)
    case (Cons i items)
    have "CHR 0x0A \<notin> set (item_text i)"
      using Cons.prems by (cases i) auto
    then show ?case using Cons by (simp add: file_text_def file_lines_append)
  qed (simp add: file_text_def)
  then have "load_loop (file_text items) props = fold load_line (map item_text items) props"
    by (simp add: load_loop_eq load_line_def)
  also have "\<dots> = fold (\<lambda>(k, v). SetProperty k v) (concat (map item_setting items)) props"
    using assms by (induction items arbitrary: props) (simp_all add: load_line_item)
  finally show ?thesis .
qed

lemma SetProperty_fold: "fold (\<lambda>(k, v). SetProperty k v) kvs props = fold (\<lambda>(k, v). map_put k v) kvs props"
  by (rule fold_cong) (auto simp: SetProperty_def)

section \<open>The grammar of the command line\<close>

datatype cmd_option =
    Property_Option string string
  | File_Option string

fun option_args :: "cmd_option \<Rightarrow> string list" where
  "option_args (Property_Option opt v) = [opt, v]"
| "option_args (File_Option f) = [''-P'', f]"

fun option_ok :: "(string \<Rightarrow> string option) \<Rightarrow> cmd_option \<Rightarrow> bool" where
  "option_ok files (Property_Option opt v) = (option_property opt \<noteq> None)"
| "option_ok files (File_Option f) = (files f \<noteq> None)"

fun apply_option :: "(string \<Rightarrow> string option) \<Rightarrow> cmd_option \<Rightarrow> string \<times> properties \<Rightarrow> string \<times> properties" where
  "apply_option files (Property_Option opt v) (f, props) = (f, SetProperty (the (option_property opt)) v props)"
| "apply_option files (File_Option g) (f, props) = (g, load_loop (the (files g)) props)"

lemma option_property_dash: "option_property arg = Some key \<Longrightarrow> StrStartWith arg ''-''"
  by (auto simp: option_property_def StrStartWith_def split: if_splits)

lemma option_property_file: "option_property ''-P'' = None"
  by (simp add: option_property_def)

lemma parse_options_complete:
  "list_all (option_ok files) opts \<Longrightarrow>
     parse_options files (concat (map option_args opts)) f props
       = (case fold (apply_option files) opts (f, props) of (f', props') \<Rightarrow> Inr ([], f', props'))"
proof (induction opts arbitrary: f props)
  case (Cons opt opts)
  then show ?case
    by (cases opt)
      (auto simp: Load_def option_property_file dest: option_property_dash, simp add: StrStartWith_def)
qed simp

lemma parse_options_sound:
  "parse_options files args f props = Inr ([], f', props') \<Longrightarrow>
     \<exists>opts. list_all (option_ok files) opts \<and> args = concat (map option_args opts)
       \<and> fold (apply_option files) opts (f, props) = (f', props')"
proof (induction files args f props rule: parse_options.induct)
  case (1 files f props)
  then show ?case by (intro exI [of _ "[]"]) simp
next
  case (2 files arg args f props)
  from "2.prems" have dash: "StrStartWith arg ''-''" by (simp split: if_splits)
  show ?case
  proof (cases "option_property arg")
    case (Some key)
    with "2.prems" dash obtain v rest where args: "args = v # rest"
      and rest: "parse_options files rest f (SetProperty key v props) = Inr ([], f', props')"
      by (auto split: list.splits)
    from "2.IH"(2) [OF _ Some args rest] dash obtain opts where
      "list_all (option_ok files) opts" "rest = concat (map option_args opts)"
      "fold (apply_option files) opts (f, SetProperty key v props) = (f', props')" by auto
    then show ?thesis
      using Some args by (intro exI [of _ "Property_Option arg v # opts"]) simp
  next
    case None
    with "2.prems" dash obtain g rest props1 where args: "arg = ''-P''" "args = g # rest"
      and ld: "Load (files g) props = Inr props1"
      and rest: "parse_options files rest g props1 = Inr ([], f', props')"
      by (auto split: list.splits sum.splits if_splits)
    from "2.IH"(1) [OF _ None args ld rest] dash obtain opts where
      "list_all (option_ok files) opts" "rest = concat (map option_args opts)"
      "fold (apply_option files) opts (g, props1) = (f', props')" by auto
    then show ?thesis
      using None args ld
      by (intro exI [of _ "File_Option g # opts"]) (auto simp: Load_def split: option.splits)
  qed
qed

section \<open>Properties\<close>

text \<open>C31: Loading a property file made of comments and settings, with any blank padding around
  names and values, succeeds; afterwards each name has the value of its last setting in the file, the
  names the file does not set keep theirs, and the table stays ordered.\<close>

theorem Load_file:
  assumes "list_all item_ok items" "ordered_keys props"
  shows "\<exists>props'. Load (Some (file_text items)) props = Inr props' \<and> ordered_keys props'
    \<and> (\<forall>key d. GetProperty props' key d
          = (case map_of (rev (concat (map item_setting items))) key of
               None \<Rightarrow> GetProperty props key d | Some v \<Rightarrow> v))"
proof -
  let ?props' = "fold (\<lambda>(k, v). map_put k v) (concat (map item_setting items)) props"
  have "Load (Some (file_text items)) props = Inr ?props'"
    using assms(1) by (simp add: Load_def load_loop_file_text SetProperty_fold)
  moreover have "ordered_keys ?props'" "map_of ?props' = map_of props ++ map_of (rev (concat (map item_setting items)))"
    using ordered_map.wf_puts ordered_map.find_puts assms(2) by blast+
  ultimately show ?thesis
    by (auto simp: GetProperty_def map_add_def split: option.splits)
qed

theorem Load_file_witness:
  "let items = [Comment_Line ''x=1'', Setting_Line '''' ''db'' '' '' '' '' ''a=b'' '''',
                Setting_Line '' '' ''db'' '''' '''' ''c'' '' ''];
       props = default_properties []
   in list_all item_ok items \<and> ordered_keys props
      \<and> (\<exists>props'. Load (Some (file_text items)) props = Inr props' \<and> GetProperty props' ''db'' '''' = ''c''
           \<and> GetProperty props' ''load'' '''' = ''false'')"
proof -
  let ?items = "[Comment_Line ''x=1'', Setting_Line '''' ''db'' '' '' '' '' ''a=b'' '''',
                 Setting_Line '' '' ''db'' '''' '''' ''c'' '' '']"
  have items: "list_all item_ok ?items" by code_simp
  have props: "ordered_keys (default_properties [])" by code_simp
  have load: "GetProperty (default_properties []) ''load'' '''' = ''false''" by code_simp
  show ?thesis
    using Load_file [OF items props] items props load unfolding Let_def by auto
qed

text \<open>C33: The command line is accepted exactly when it is a non-empty sequence of options, each a
  known option with its argument or \<open>-P\<close> with a file that can be opened; the result is then the
  effect of the options from left to right, and the last file that was named.\<close>

theorem ParseCommandLine_accepts:
  "ParseCommandLine files (command # args) props = Inr (filename, props')
   \<longleftrightarrow> (\<exists>opts. opts \<noteq> [] \<and> list_all (option_ok files) opts \<and> args = concat (map option_args opts)
          \<and> fold (apply_option files) opts ('''', props) = (filename, props'))"
    (is "?l = ?r")
proof
  assume ?l
  then have parse: "parse_options files args '''' props = Inr ([], filename, props')" and ne: "args \<noteq> []"
    unfolding ParseCommandLine_def list.sel by (auto split: sum.splits if_splits prod.splits)
  from parse_options_sound [OF parse] obtain opts where opts: "list_all (option_ok files) opts"
    "args = concat (map option_args opts)" "fold (apply_option files) opts ('''', props) = (filename, props')"
    by blast
  moreover have "opts \<noteq> []" using ne opts(2) by auto
  ultimately show ?r by blast
next
  assume ?r
  then obtain opts where opts: "opts \<noteq> []" "list_all (option_ok files) opts" "args = concat (map option_args opts)"
    "fold (apply_option files) opts ('''', props) = (filename, props')" by blast
  have "args \<noteq> []"
    using opts(1,3) by (cases opts; cases "hd opts") auto
  moreover have "parse_options files args '''' props = Inr ([], filename, props')"
    unfolding opts(3) parse_options_complete [OF opts(2)] opts(4) by simp
  ultimately show ?l
    unfolding ParseCommandLine_def list.sel by simp
qed

end
