(* ===== verification/Ycsb_Numbers.thy ===== *)
theory Ycsb_Numbers
  imports Ycsb_Utils
begin

text \<open>
  The number conversions of the C++ standard library the benchmark uses: \<open>std::to_string\<close> of an
  unsigned number, \<open>std::stoi\<close> and \<open>std::stod\<close> (the decimal forms; hexadecimal, infinity and NaN
  are not read). They throw \<open>invalid_argument\<close> when no number starts the text and \<open>out_of_range\<close>
  when the number does not fit. \<open>to_string\<close> is injective, and \<open>stoi\<close> reads what it prints.
\<close>

definition digit_char :: "nat \<Rightarrow> char" where
  "digit_char d = char_of (48 + d)"

fun to_string :: "nat \<Rightarrow> string" where
  "to_string n = (if n < 10 then [digit_char n] else to_string (n div 10) @ [digit_char (n mod 10)])"

declare to_string.simps [simp del]

definition is_digit :: "char \<Rightarrow> bool" where
  "is_digit c \<longleftrightarrow> (48 :: nat) \<le> of_char c \<and> of_char c \<le> (57 :: nat)"

definition digits_value :: "string \<Rightarrow> nat" where
  "digits_value ds = foldl (\<lambda>a c. 10 * a + (of_char c - 48)) 0 ds"

text \<open>An optional sign after blanks.\<close>

definition split_sign :: "string \<Rightarrow> int \<times> string" where
  "split_sign s =
     (case dropWhile c_isspace s of
        [] \<Rightarrow> (1, [])
      | c # cs \<Rightarrow> if c = CHR ''-'' then (-1, cs) else if c = CHR ''+'' then (1, cs) else (1, c # cs))"

definition c_stoi :: "string \<Rightarrow> ycsb_exn + int" where
  "c_stoi s =
     (case split_sign s of (sign, rest) \<Rightarrow>
        let ds = takeWhile is_digit rest; v = sign * int (digits_value ds) in
        if ds = [] then Inl Invalid_Argument
        else if INT32_MIN \<le> v \<and> v \<le> INT32_MAX then Inr v
        else Inl Out_Of_Range)"

text \<open>The exponent part, absent unless digits follow the letter and its sign.\<close>

definition exponent_of :: "string \<Rightarrow> int" where
  "exponent_of s =
     (case s of
        [] \<Rightarrow> 0
      | c # cs \<Rightarrow>
          if c \<noteq> CHR ''e'' \<and> c \<noteq> CHR ''E'' then 0
          else
            let (sign, ds) =
              (case cs of
                 [] \<Rightarrow> (1, [])
               | x # xs \<Rightarrow> if x = CHR ''-'' then (-1, xs) else if x = CHR ''+'' then (1, xs) else (1, x # xs))
            in sign * int (digits_value (takeWhile is_digit ds)))"

definition c_stod :: "string \<Rightarrow> ycsb_exn + real" where
  "c_stod s =
     (case split_sign s of (sign, rest) \<Rightarrow>
        let whole = takeWhile is_digit rest; rest1 = dropWhile is_digit rest;
            (frac, rest2) =
              (case rest1 of
                 [] \<Rightarrow> ([], [])
               | c # cs \<Rightarrow>
                   if c = CHR ''.'' then (takeWhile is_digit cs, dropWhile is_digit cs) else ([], c # cs))
        in if whole = [] \<and> frac = [] then Inl Invalid_Argument
           else Inr (real_of_int sign * real (digits_value (whole @ frac)) / 10 ^ length frac
                      * 10 powr real_of_int (exponent_of rest2)))"

section \<open>Printing and reading\<close>

lemma digit_char_props [simp]:
  assumes "d < 10"
  shows "of_char (digit_char d) = (48 + d :: nat)" "is_digit (digit_char d)" "\<not> c_isspace (digit_char d)"
    "digit_char d \<noteq> CHR ''-''" "digit_char d \<noteq> CHR ''+''"
proof -
  show of: "of_char (digit_char d) = (48 + d :: nat)"
    using assms by (simp add: digit_char_def)
  show "is_digit (digit_char d)" "\<not> c_isspace (digit_char d)"
    using of assms by (simp_all add: is_digit_def c_isspace_def Let_def)
  have "digit_char d \<noteq> c" if "of_char c < (48 :: nat)" for c
    using of that by auto
  then show "digit_char d \<noteq> CHR ''-''" "digit_char d \<noteq> CHR ''+''" by simp_all
qed

lemma to_string_digits: "list_all is_digit (to_string n)"
  by (induction n rule: to_string.induct) (subst to_string.simps, simp)

lemma to_string_not_Nil [simp]: "to_string n \<noteq> []"
  by (subst to_string.simps) simp

lemma digits_value_snoc: "digits_value (ds @ [c]) = 10 * digits_value ds + (of_char c - 48)"
  by (simp add: digits_value_def)

lemma digits_value_to_string [simp]: "digits_value (to_string n) = n"
proof (induction n rule: to_string.induct)
  case (1 n)
  show ?case
  proof (cases "n < 10")
    case True
    then show ?thesis by (subst to_string.simps) (simp add: digits_value_def)
  next
    case False
    with 1 show ?thesis by (subst to_string.simps) (simp add: digits_value_snoc)
  qed
qed

lemma to_string_inject [simp]: "to_string m = to_string n \<longleftrightarrow> m = n"
  by (metis digits_value_to_string)

lemma to_string_head: "\<not> c_isspace (hd (to_string n)) \<and> hd (to_string n) \<noteq> CHR ''-'' \<and> hd (to_string n) \<noteq> CHR ''+''"
proof (induction n rule: to_string.induct)
  case (1 n)
  then show ?case by (subst (1 2 3) to_string.simps) (simp add: hd_append)
qed

lemma split_sign_to_string: "split_sign (to_string n) = (1, to_string n)"
  using to_string_head [of n] to_string_not_Nil [of n]
  by (cases "to_string n") (simp_all add: split_sign_def)

lemma c_stoi_to_string: "int n \<le> INT32_MAX \<Longrightarrow> c_stoi (to_string n) = Inr (int n)"
proof -
  assume "int n \<le> INT32_MAX"
  have tw: "takeWhile is_digit (to_string n) = to_string n"
    unfolding takeWhile_eq_all_conv using to_string_digits [of n] by (simp add: list_all_iff)
  show ?thesis
    unfolding c_stoi_def split_sign_to_string Let_def prod.case tw using \<open>int n \<le> INT32_MAX\<close> by simp
qed

lemma length_to_string: "n < 10 ^ Suc k \<Longrightarrow> length (to_string n) \<le> Suc k"
proof (induction k arbitrary: n)
  case 0
  then show ?case by (subst to_string.simps) simp
next
  case (Suc k)
  have "n div 10 < 10 ^ Suc k" using Suc.prems by (simp add: less_mult_imp_div_less)
  from Suc.IH [OF this] show ?case by (subst to_string.simps) simp
qed

lemma length_to_string_u64: "length (to_string (unat (w :: u64))) \<le> 20"
proof -
  have "unat w < 2 ^ 64" using unsigned_less [of w] by simp
  also have "(2 :: nat) ^ 64 < 10 ^ Suc 19" by simp
  finally show ?thesis using length_to_string [of "unat w" 19] by simp
qed

lemma to_string_small: "to_string 0 = ''0''" "to_string 1 = ''1''"
  by code_simp+

end
