(* ===== verification/Ycsb_Db.thy ===== *)
theory Ycsb_Db
  imports Ycsb_Coding Ycsb_Numbers
begin

text \<open>
  The database interface (\<open>core/db.h\<close>) and the database that only reports its calls
  (\<open>db/basic_db.h\<close>). The virtual methods of \<open>DB\<close> are the fields of a record of functions on the state
  of the database; a method that takes a result vector gives the new vector back. A call that does not
  return is a \<open>run_stop\<close>: an exit of the process, a failed assertion, an escaping exception, undefined
  behaviour or a loop that does not end.
\<close>

section \<open>Runs that stop\<close>

datatype run_stop =
    Stop_Exit
  | Stop_Assert
  | Stop_Undefined
  | Stop_Diverges
  | Stop_Exn ycsb_exn

text \<open>Sequencing of calls, and the reading of an optional result as one that may stop.\<close>

definition andthen :: "'e + 'a \<Rightarrow> ('a \<Rightarrow> 'e + 'b) \<Rightarrow> 'e + 'b" where
  "andthen r f = (case r of Inl e \<Rightarrow> Inl e | Inr x \<Rightarrow> f x)"

definition or_stop :: "'e \<Rightarrow> 'a option \<Rightarrow> 'e + 'a" where
  "or_stop e r = (case r of None \<Rightarrow> Inl e | Some x \<Rightarrow> Inr x)"

definition or_throw :: "ycsb_exn + 'a \<Rightarrow> run_stop + 'a" where
  "or_throw r = (case r of Inl e \<Rightarrow> Inl (Stop_Exn e) | Inr x \<Rightarrow> Inr x)"

lemma andthen_simps [simp]: "andthen (Inl e) f = Inl e" "andthen (Inr x) f = f x"
  by (simp_all add: andthen_def)

lemma or_stop_simps [simp]: "or_stop e None = Inl e" "or_stop e (Some x) = Inr x"
  by (simp_all add: or_stop_def)

lemma or_throw_simps [simp]: "or_throw (Inl x) = Inl (Stop_Exn x)" "or_throw (Inr y) = Inr y"
  by (simp_all add: or_throw_def)

lemma or_throw_eq_Inr: "or_throw r = Inr y \<longleftrightarrow> r = Inr y"
  by (cases r) auto

lemma andthen_eq_Inr: "andthen r f = Inr y \<longleftrightarrow> (\<exists>x. r = Inr x \<and> f x = Inr y)"
  by (cases r) auto

section \<open>The interface\<close>

definition kOK :: int where "kOK = 0"
definition kErrorNoData :: int where "kErrorNoData = 1"
definition kErrorConflict :: int where "kErrorConflict = 2"

record 's db_ops =
  db_Init :: "'s \<Rightarrow> run_stop + 's"
  db_Close :: "'s \<Rightarrow> run_stop + 's"
  db_Read :: "string \<Rightarrow> string \<Rightarrow> string list option \<Rightarrow> kvpair list \<Rightarrow> 's \<Rightarrow> run_stop + int \<times> kvpair list \<times> 's"
  db_Scan :: "string \<Rightarrow> string \<Rightarrow> int \<Rightarrow> string list option \<Rightarrow> kvpair list list \<Rightarrow> 's
    \<Rightarrow> run_stop + int \<times> kvpair list list \<times> 's"
  db_Update :: "string \<Rightarrow> string \<Rightarrow> kvpair list \<Rightarrow> 's \<Rightarrow> run_stop + int \<times> 's"
  db_Insert :: "string \<Rightarrow> string \<Rightarrow> kvpair list \<Rightarrow> 's \<Rightarrow> run_stop + int \<times> 's"
  db_Delete :: "string \<Rightarrow> string \<Rightarrow> 's \<Rightarrow> run_stop + int \<times> 's"
  db_HaveBalancedDistribution :: "'s \<Rightarrow> bool"
  db_PrintStats :: "'s \<Rightarrow> run_stop + 's"
  db_RecordTime :: "int \<Rightarrow> u64 \<Rightarrow> 's \<Rightarrow> run_stop + 's"
  db_latency_hiccup :: "u64 \<Rightarrow> 's \<Rightarrow> run_stop + 's"

text \<open>
  What the client relies on: from a state that satisfies the invariant every call it makes returns a
  non-negative code in such a state. The number is how many more times may be recorded; records are
  read under known keys only.
\<close>

locale database =
  fixes db :: "'s db_ops" and inv :: "nat \<Rightarrow> 's \<Rightarrow> bool" and known :: "string \<Rightarrow> bool"
  assumes init: "inv n s \<Longrightarrow> \<exists>s'. db_Init db s = Inr s' \<and> inv n s'"
    and close: "inv n s \<Longrightarrow> \<exists>s'. db_Close db s = Inr s' \<and> inv n s'"
    and read: "known key \<Longrightarrow> inv n s \<Longrightarrow> \<exists>c r s'. db_Read db table key flds result s = Inr (c, r, s') \<and> 0 \<le> c \<and> inv n s'"
    and scan: "inv n s \<Longrightarrow> \<exists>c r s'. db_Scan db table key len flds results s = Inr (c, r, s') \<and> 0 \<le> c \<and> inv n s'"
    and update: "inv n s \<Longrightarrow> length kvs < 2 ^ 32 \<Longrightarrow> list_all pair_fits kvs \<Longrightarrow>
      \<exists>c s'. db_Update db table key kvs s = Inr (c, s') \<and> 0 \<le> c \<and> inv n s'"
    and insert: "inv n s \<Longrightarrow> length kvs < 2 ^ 32 \<Longrightarrow> list_all pair_fits kvs \<Longrightarrow>
      \<exists>c s'. db_Insert db table key kvs s = Inr (c, s') \<and> 0 \<le> c \<and> inv n s'"
    and record_time: "inv (Suc n) s \<Longrightarrow> \<exists>s'. db_RecordTime db op t s = Inr s' \<and> inv n s'"
    and hiccup: "inv n s \<Longrightarrow> \<exists>s'. db_latency_hiccup db iops s = Inr s' \<and> inv n s'"

section \<open>The reporting database\<close>

text \<open>The state is the text written to the standard output.\<close>

type_synonym basic_db = string

definition newline :: string where
  "newline = [CHR 0x0A]"

definition print_fields :: "string list option \<Rightarrow> string" where
  "print_fields flds =
     (case flds of
        Some fs \<Rightarrow> '' [ '' @ concat (map (\<lambda>f. f @ '' '') fs) @ '']'' @ newline
      | None \<Rightarrow> '' < all fields >'' @ newline)"

definition print_values :: "kvpair list \<Rightarrow> string" where
  "print_values kvs = '' [ '' @ concat (map (\<lambda>(k, v). k @ ''='' @ v @ '' '') kvs) @ '']'' @ newline"

definition Basic_Init :: "basic_db \<Rightarrow> run_stop + basic_db" where
  "Basic_Init out = Inr (out @ ''A new thread begins working.'' @ newline)"

definition Basic_Read ::
    "string \<Rightarrow> string \<Rightarrow> string list option \<Rightarrow> kvpair list \<Rightarrow> basic_db \<Rightarrow> run_stop + int \<times> kvpair list \<times> basic_db" where
  "Basic_Read table key flds result out =
     Inr (0, result, out @ ''READ '' @ table @ '' '' @ key @ print_fields flds)"

definition print_int :: "int \<Rightarrow> string" where
  "print_int i = (if i < 0 then ''-'' else '''') @ to_string (nat \<bar>i\<bar>)"

definition Basic_Scan ::
    "string \<Rightarrow> string \<Rightarrow> int \<Rightarrow> string list option \<Rightarrow> kvpair list list \<Rightarrow> basic_db
       \<Rightarrow> run_stop + int \<times> kvpair list list \<times> basic_db" where
  "Basic_Scan table key len flds results out =
     Inr (0, results, out @ ''SCAN '' @ table @ '' '' @ key @ '' '' @ print_int len @ print_fields flds)"

definition Basic_Update :: "string \<Rightarrow> string \<Rightarrow> kvpair list \<Rightarrow> basic_db \<Rightarrow> run_stop + int \<times> basic_db" where
  "Basic_Update table key kvs out =
     Inr (0, out @ ''UPDATE '' @ table @ '' '' @ key @ print_values kvs)"

definition Basic_Insert :: "string \<Rightarrow> string \<Rightarrow> kvpair list \<Rightarrow> basic_db \<Rightarrow> run_stop + int \<times> basic_db" where
  "Basic_Insert table key kvs out =
     Inr (0, out @ ''INSERT '' @ table @ '' '' @ key @ print_values kvs)"

definition Basic_Delete :: "string \<Rightarrow> string \<Rightarrow> basic_db \<Rightarrow> run_stop + int \<times> basic_db" where
  "Basic_Delete table key out = Inr (0, out @ ''DELETE '' @ table @ '' '' @ key @ newline)"

text \<open>The methods \<open>BasicDB\<close> inherits do nothing.\<close>

definition BasicDB :: "basic_db db_ops" where
  "BasicDB =
     \<lparr>db_Init = Basic_Init, db_Close = Inr, db_Read = Basic_Read, db_Scan = Basic_Scan,
      db_Update = Basic_Update, db_Insert = Basic_Insert, db_Delete = Basic_Delete,
      db_HaveBalancedDistribution = (\<lambda>_. True), db_PrintStats = Inr,
      db_RecordTime = (\<lambda>_ _. Inr), db_latency_hiccup = (\<lambda>_. Inr)\<rparr>"

interpretation basic_db: database BasicDB "\<lambda>_ _. True" "\<lambda>_. True"
  by unfold_locales
    (simp_all add: BasicDB_def Basic_Init_def Basic_Read_def Basic_Scan_def Basic_Update_def Basic_Insert_def Basic_Delete_def)

end
