(* ===== verification/Zeta_Sums.thy ===== *)
theory Zeta_Sums
  imports Prelude
begin

text \<open>
  The partial sums \<open>1 + 2 powr - t + ... + n powr - t\<close> that normalise the Zipf distribution, for an
  exponent between 0 and 1: they grow at least like \<open>n powr (1 - t)\<close>, because the average of a
  decreasing convex function over the right end points of an equidistant grid grows with the grid.
\<close>

definition zsum :: "real \<Rightarrow> nat \<Rightarrow> real" where
  "zsum t n = (\<Sum>i = 1..n. real i powr - t)"

lemma zsum_0 [simp]: "zsum t 0 = 0"
  by (simp add: zsum_def)

lemma zsum_Suc [simp]: "zsum t (Suc n) = zsum t n + real (Suc n) powr - t"
  by (simp add: zsum_def)

lemma zsum_strict_mono: "m < n \<Longrightarrow> zsum t m < zsum t n"
  by (rule lift_Suc_mono_less [of "zsum t"]) simp_all

lemma zsum_mono: "m \<le> n \<Longrightarrow> zsum t m \<le> zsum t n"
  by (rule lift_Suc_mono_le [of "zsum t"]) simp_all

lemma zsum_pos: "0 < n \<Longrightarrow> 0 < zsum t n"
  using zsum_strict_mono [of 0 n t] by simp

text \<open>The tangent at 1 lies below the power function, so the function is convex.\<close>

lemma powr_tangent:
  assumes "0 < (x :: real)" "0 \<le> t"
  shows "1 - t * (x - 1) \<le> x powr - t"
proof -
  have "1 - t * (x - 1) \<le> 1 + - t * ln x"
    using ln_le_minus_one [OF assms(1)] assms(2) by (simp add: mult_left_mono)
  also have "\<dots> \<le> exp (- t * ln x)"
    by (rule exp_ge_add_one_self)
  finally show ?thesis
    using assms(1) by (simp add: powr_def)
qed

lemma powr_convex:
  assumes "0 < (a :: real)" "0 < b" "0 \<le> p" "0 \<le> q" "p + q = 1" "0 \<le> t"
  shows "(p * a + q * b) powr - t \<le> p * a powr - t + q * b powr - t"
proof -
  define m where "m = p * a + q * b"
  have m: "0 < m"
    using assms by (cases "p = 0") (auto simp: m_def intro: add_pos_nonneg)
  have scaled: "m powr - t * (1 - t * (x / m - 1)) \<le> x powr - t" if "0 < x" for x
  proof -
    have "m powr - t * (1 - t * (x / m - 1)) \<le> m powr - t * (x / m) powr - t"
      using powr_tangent [of "x / m" t] m that assms(6) by (intro mult_left_mono) simp_all
    also have "\<dots> = x powr - t"
      using m that by (simp add: powr_mult [symmetric])
    finally show ?thesis .
  qed
  have "p * (x / m - 1) + q * (y / m - 1) = (p * x + q * y) / m - 1" for x y
    using assms(5) by (simp add: algebra_simps add_divide_distrib)
  then have zero: "p * (a / m - 1) + q * (b / m - 1) = 0"
    using m by (simp add: m_def)
  have "p * (1 - t * (a / m - 1)) + q * (1 - t * (b / m - 1))
      = (p + q) - t * (p * (a / m - 1) + q * (b / m - 1))"
    by (simp only: algebra_simps)
  with zero assms(5) have one: "p * (1 - t * (a / m - 1)) + q * (1 - t * (b / m - 1)) = 1" by simp
  have "m powr - t = m powr - t * (p * (1 - t * (a / m - 1)) + q * (1 - t * (b / m - 1)))"
    unfolding one by simp
  also have "\<dots> = p * (m powr - t * (1 - t * (a / m - 1))) + q * (m powr - t * (1 - t * (b / m - 1)))"
    by (simp only: algebra_simps)
  also have "\<dots> \<le> p * a powr - t + q * b powr - t"
    using assms by (intro add_mono mult_left_mono scaled)
  finally show ?thesis unfolding m_def .
qed

lemma grid_algebra:
  fixes N M i s :: real
  assumes "N \<noteq> 0" "M \<noteq> 0" "M = N + 1"
  shows "(1 - i / N) * (i / M) + i / N * ((i + 1) / M) = i / N"
    and "(1 - 1 / N) * s + 1 / N * (s / M) = s * (N / M)"
proof -
  have "i / N = i * (N + 1) / (N * M)" "s * (N / M) = (s * N * N) / (N * M)"
    using assms by simp_all
  moreover have "(1 - i / N) * (i / M) + i / N * ((i + 1) / M) = ((N - i) * i + i * (i + 1)) / (N * M)"
    "(1 - 1 / N) * s + 1 / N * (s / M) = ((N - 1) * M * s + s) / (N * M)"
    using assms(1,2) by (simp_all add: field_simps)
  ultimately show "(1 - i / N) * (i / M) + i / N * ((i + 1) / M) = i / N"
    and "(1 - 1 / N) * s + 1 / N * (s / M) = s * (N / M)"
    using assms(3) by (simp_all add: algebra_simps)
qed

text \<open>Each grid point of the coarse grid is an average of two neighbours of the fine grid.\<close>

lemma grid_step:
  assumes "0 < i" "i \<le> n" "0 \<le> t"
  shows "(real i / real n) powr - t \<le>
    (1 - real i / real n) * (real i / real (Suc n)) powr - t
      + real i / real n * (real (Suc i) / real (Suc n)) powr - t"
proof -
  let ?p = "1 - real i / real n" and ?q = "real i / real n"
    and ?a = "real i / real (Suc n)" and ?b = "real (Suc i) / real (Suc n)"
  have n: "0 < real n" using assms by simp
  have eq: "?p * ?a + ?q * ?b = ?q"
    using grid_algebra(1) [of "real n" "real (Suc n)" "real i"] n by (simp add: add.commute)
  have "(?p * ?a + ?q * ?b) powr - t \<le> ?p * ?a powr - t + ?q * ?b powr - t"
    using assms n by (intro powr_convex) simp_all
  then show ?thesis unfolding eq .
qed

lemma grid_sum:
  fixes g :: "nat \<Rightarrow> real"
  shows "(\<Sum>i = 1..k. (1 - real i / r) * g i + real i / r * g (Suc i))
    = (1 - 1 / r) * (\<Sum>j = 1..k. g j) + real k / r * g (Suc k)"
  by (induction k) (simp_all add: algebra_simps add_divide_distrib)

lemma grid_average_mono:
  assumes "0 < n" "0 \<le> t"
  shows "(\<Sum>i = 1..n. (real i / real n) powr - t) / real n
    \<le> (\<Sum>i = 1..Suc n. (real i / real (Suc n)) powr - t) / real (Suc n)"
proof -
  define g where "g j = (real j / real (Suc n)) powr - t" for j
  define S' where "S' = (\<Sum>j = 1..Suc n. g j)"
  let ?S = "\<Sum>i = 1..n. (real i / real n) powr - t"
  have n: "0 < real n" using assms by simp
  have "1 \<le> g j" if "j \<in> {1..Suc n}" for j
    using that assms(2) powr_mono2' [of "- t" "real j / real (Suc n)" 1] by (simp add: g_def)
  then have "(\<Sum>j = 1..Suc n. 1) \<le> S'" unfolding S'_def by (intro sum_mono)
  then have S': "real n + 1 \<le> S'" by simp
  have last: "g (Suc n) = 1" by (simp add: g_def)
  have "?S \<le> (\<Sum>i = 1..n. (1 - real i / real n) * g i + real i / real n * g (Suc i))"
    unfolding g_def using assms(2) by (intro sum_mono grid_step) simp_all
  also have "\<dots> = (1 - 1 / real n) * S' + 1 / real n"
    using n unfolding grid_sum S'_def by (simp add: last algebra_simps)
  also have "\<dots> \<le> (1 - 1 / real n) * S' + 1 / real n * (S' / (real n + 1))"
    using S' n mult_left_mono [of 1 "S' / (real n + 1)" "1 / real n"] by simp
  also have "\<dots> = S' * (real n / (real n + 1))"
    using n by (intro grid_algebra(2)) simp_all
  finally have "?S \<le> S' * (real n / (real n + 1))" .
  then have "?S / real n \<le> S' / (real n + 1)"
    using n by (simp add: field_simps)
  then show ?thesis by (simp add: S'_def g_def add.commute)
qed

lemma zsum_average: "0 < n \<Longrightarrow> zsum t n / real n powr (1 - t) = (\<Sum>i = 1..n. (real i / real n) powr - t) / real n"
proof -
  assume "0 < n"
  then have n: "0 < real n" by simp
  have "(\<Sum>i = 1..n. (real i / real n) powr - t) = zsum t n * real n powr t"
    unfolding zsum_def sum_distrib_right using n
    by (intro sum.cong refl) (simp add: powr_divide powr_minus field_simps)
  with n show ?thesis by (simp add: powr_diff)
qed

lemma zsum_ratio_mono:
  assumes "0 < m" "m \<le> n" "0 \<le> t"
  shows "zsum t m / real m powr (1 - t) \<le> zsum t n / real n powr (1 - t)"
  using assms(2)
proof (induction n rule: dec_induct)
  case (step k)
  then have "zsum t k / real k powr (1 - t) \<le> zsum t (Suc k) / real (Suc k) powr (1 - t)"
    using assms zsum_average [of k t] zsum_average [of "Suc k" t] grid_average_mono [of k t] by simp
  with step.IH show ?case by simp
qed simp

text \<open>The bound behind the Zipf generator's interpolation constant.\<close>

lemma zsum_ratio_le_powr:
  assumes "0 < m" "m \<le> n" "0 \<le> t"
  shows "zsum t m / zsum t n \<le> (real m / real n) powr (1 - t)"
proof -
  have "zsum t m * real n powr (1 - t) \<le> zsum t n * real m powr (1 - t)"
    using zsum_ratio_mono [OF assms] assms by (simp add: field_simps)
  then show ?thesis
    using assms zsum_pos [of n t] by (simp add: powr_divide field_simps)
qed

end
