(* ===== verification/Ycsb_Generators.thy ===== *)
theory Ycsb_Generators
  imports Ycsb_Utils Zeta_Sums
begin

text \<open>
  The number generators of the workload (\<open>core/*_generator.h\<close>). A generator is a record with one
  field per member; \<open>Next\<close> takes the generator (and, for the generators that call \<open>RandomDouble\<close>, the
  number drawn in \<open>[0, 1)\<close>) and gives the value and the new state; \<open>None\<close> is a failed assertion or
  an undefined conversion from \<open>double\<close>. The standard library's distributions are parameters.
  The locks make each call atomic and are not modelled.
\<close>

section \<open>The standard library's random numbers\<close>

text \<open>
  \<open>'e\<close> is the state of an engine: \<open>lib_seed\<close> is the default-constructed engine, the other fields draw
  from \<open>std::uniform_int_distribution\<close>, \<open>std::uniform_real_distribution\<close> on \<open>[0, 1)\<close> and \<open>rand\<close>.
\<close>

record 'e random_lib =
  lib_seed :: 'e
  lib_uniform_int :: "u64 \<Rightarrow> u64 \<Rightarrow> 'e \<Rightarrow> u64 \<times> 'e"
  lib_uniform_real :: "'e \<Rightarrow> real \<times> 'e"
  lib_rand :: "'e \<Rightarrow> nat \<times> 'e"

text \<open>What the standard documents of the two distributions.\<close>

definition random_lib_ok :: "'e random_lib \<Rightarrow> bool" where
  "random_lib_ok lib \<longleftrightarrow>
     (\<forall>a b e. a \<le> b \<longrightarrow> a \<le> fst (lib_uniform_int lib a b e) \<and> fst (lib_uniform_int lib a b e) \<le> b)
     \<and> (\<forall>e. 0 \<le> fst (lib_uniform_real lib e) \<and> fst (lib_uniform_real lib e) < 1)"

section \<open>Constant and counting generators\<close>

record const_generator =
  c_constant :: u64

definition ConstGenerator :: "int \<Rightarrow> const_generator" where
  "ConstGenerator c = \<lparr>c_constant = word_of_int c\<rparr>"

definition Const_Next :: "const_generator \<Rightarrow> u64 \<times> const_generator" where
  "Const_Next g = (c_constant g, g)"

definition Const_Last :: "const_generator \<Rightarrow> u64" where
  "Const_Last g = c_constant g"

record counter_generator =
  c_counter :: u64

definition CounterGenerator :: "u64 \<Rightarrow> counter_generator" where
  "CounterGenerator start = \<lparr>c_counter = start\<rparr>"

definition Counter_Next :: "counter_generator \<Rightarrow> u64 \<times> counter_generator" where
  "Counter_Next g = (c_counter g, g\<lparr>c_counter := c_counter g + 1\<rparr>)"

definition Counter_Last :: "counter_generator \<Rightarrow> u64" where
  "Counter_Last g = c_counter g - 1"

definition Counter_Set :: "u64 \<Rightarrow> counter_generator \<Rightarrow> counter_generator" where
  "Counter_Set start g = g\<lparr>c_counter := start\<rparr>"

section \<open>The uniform generator\<close>

record 'e uniform_generator =
  u_generator :: 'e
  u_min :: u64
  u_max :: u64
  u_last_int :: u64

definition Uniform_Next :: "'e random_lib \<Rightarrow> 'e uniform_generator \<Rightarrow> u64 \<times> 'e uniform_generator" where
  "Uniform_Next lib g =
     (case lib_uniform_int lib (u_min g) (u_max g) (u_generator g) of
        (v, e) \<Rightarrow> (v, g\<lparr>u_generator := e, u_last_int := v\<rparr>))"

definition Uniform_Last :: "'e uniform_generator \<Rightarrow> u64" where
  "Uniform_Last g = u_last_int g"

definition UniformGenerator :: "'e random_lib \<Rightarrow> u64 \<Rightarrow> u64 \<Rightarrow> 'e uniform_generator" where
  "UniformGenerator lib a b =
     snd (Uniform_Next lib \<lparr>u_generator = lib_seed lib, u_min = a, u_max = b, u_last_int = 0\<rparr>)"

section \<open>The discrete generator\<close>

record 'v discrete_generator =
  d_values :: "('v \<times> real) list"
  d_sum :: real
  d_last :: "'v option"

definition DiscreteGenerator :: "'v discrete_generator" where
  "DiscreteGenerator = \<lparr>d_values = [], d_sum = 0, d_last = None\<rparr>"

definition AddValue :: "'v \<Rightarrow> real \<Rightarrow> 'v discrete_generator \<Rightarrow> 'v discrete_generator" where
  "AddValue v weight g =
     (let g1 = (if d_values g = [] then g\<lparr>d_last := Some v\<rparr> else g)
      in g1\<lparr>d_values := d_values g1 @ [(v, weight)], d_sum := d_sum g1 + weight\<rparr>)"

text \<open>The loop over the values; running out of them is the failed assertion.\<close>

fun discrete_loop :: "('v \<times> real) list \<Rightarrow> real \<Rightarrow> real \<Rightarrow> 'v option" where
  "discrete_loop [] wsum chooser = None"
| "discrete_loop ((v, w) # ps) wsum chooser =
     (if chooser < w / wsum then Some v else discrete_loop ps wsum (chooser - w / wsum))"

definition Discrete_Next :: "real \<Rightarrow> 'v discrete_generator \<Rightarrow> ('v \<times> 'v discrete_generator) option" where
  "Discrete_Next chooser g =
     map_option (\<lambda>v. (v, g\<lparr>d_last := Some v\<rparr>)) (discrete_loop (d_values g) (d_sum g) chooser)"

definition Discrete_Last :: "'v discrete_generator \<Rightarrow> 'v option" where
  "Discrete_Last g = d_last g"

section \<open>The Zipfian generator\<close>

definition kZipfianConst :: real where
  "kZipfianConst = 99 / 100"

definition kMaxNumItems :: u64 where
  "kMaxNumItems = drop_bit 24 0xFFFFFFFFFFFFFFFF"

record zipfian_generator =
  z_num_items :: u64
  z_base :: u64
  z_theta :: real
  z_zeta_n :: real
  z_eta :: real
  z_alpha :: real
  z_zeta_2 :: real
  z_n_for_zeta :: u64
  z_last_value :: u64

text \<open>The loop of \<open>Zeta\<close> from \<open>last_num + 1\<close> to \<open>cur_num\<close>.\<close>

definition Zeta :: "u64 \<Rightarrow> u64 \<Rightarrow> real \<Rightarrow> real \<Rightarrow> real" where
  "Zeta last_num cur_num theta last_zeta =
     foldl (\<lambda>zeta i. zeta + 1 / real i powr theta) last_zeta [unat last_num + 1..<unat cur_num + 1]"

definition RaiseZeta :: "u64 \<Rightarrow> zipfian_generator \<Rightarrow> zipfian_generator option" where
  "RaiseZeta num g =
     (if num \<ge> z_n_for_zeta g
      then Some (g\<lparr>z_zeta_n := Zeta (z_n_for_zeta g) num (z_theta g) (z_zeta_n g), z_n_for_zeta := num\<rparr>)
      else None)"

definition Eta :: "zipfian_generator \<Rightarrow> real" where
  "Eta g = (1 - (2 / real (unat (z_num_items g))) powr (1 - z_theta g)) / (1 - z_zeta_2 g / z_zeta_n g)"

text \<open>The conversion of a \<open>double\<close> to \<open>uint64_t\<close>, undefined outside the range of the type.\<close>

definition double_to_u64 :: "real \<Rightarrow> u64 option" where
  "double_to_u64 x = (if -1 < x \<and> x < 2 ^ 64 then Some (word_of_int (c_trunc x)) else None)"

text \<open>
  \<open>pow\<close> of a negative base and a fractional exponent is not a number, which has no conversion
  either.
\<close>

definition zipf_sample :: "u64 \<Rightarrow> real \<Rightarrow> zipfian_generator \<Rightarrow> u64 option" where
  "zipf_sample num u g =
     (let uz = u * z_zeta_n g in
      if uz < 1 then Some 0
      else if uz < 1 + (1 / 2) powr z_theta g then Some 1
      else
        let x = z_eta g * u - z_eta g + 1 in
        if x < 0 then None
        else double_to_u64 (real (unat (z_base g)) + real (unat num) * x powr z_alpha g))"

definition Zipfian_Next_num ::
    "u64 \<Rightarrow> real \<Rightarrow> zipfian_generator \<Rightarrow> (u64 \<times> zipfian_generator) option" where
  "Zipfian_Next_num num u g =
     (if \<not> (2 \<le> num \<and> num < kMaxNumItems) then None
      else do {
        g1 \<leftarrow> (if num > z_n_for_zeta g
               then map_option (\<lambda>g'. g'\<lparr>z_eta := Eta g'\<rparr>) (RaiseZeta num g)
               else Some g);
        v \<leftarrow> zipf_sample num u g1;
        Some (v, g1\<lparr>z_last_value := v\<rparr>)
      })"

definition Zipfian_Next :: "real \<Rightarrow> zipfian_generator \<Rightarrow> (u64 \<times> zipfian_generator) option" where
  "Zipfian_Next u g = Zipfian_Next_num (z_num_items g) u g"

definition Zipfian_Last :: "zipfian_generator \<Rightarrow> u64" where
  "Zipfian_Last g = z_last_value g"

definition ZipfianGenerator :: "u64 \<Rightarrow> u64 \<Rightarrow> real \<Rightarrow> real \<Rightarrow> zipfian_generator option" where
  "ZipfianGenerator a b zipfian_const u =
     (let n = b - a + 1 in
      if \<not> (2 \<le> n \<and> n < kMaxNumItems) then None
      else do {
        g \<leftarrow> RaiseZeta n
               \<lparr>z_num_items = n, z_base = a, z_theta = zipfian_const, z_zeta_n = 0, z_eta = 0,
                z_alpha = 1 / (1 - zipfian_const), z_zeta_2 = Zeta 0 2 zipfian_const 0,
                z_n_for_zeta = 0, z_last_value = 0\<rparr>;
        (v, g') \<leftarrow> Zipfian_Next u (g\<lparr>z_eta := Eta g\<rparr>);
        Some g'
      })"

definition ZipfianGenerator_items :: "u64 \<Rightarrow> real \<Rightarrow> zipfian_generator option" where
  "ZipfianGenerator_items num_items u = ZipfianGenerator 0 (num_items - 1) kZipfianConst u"

section \<open>The scrambled and the latest-first generator\<close>

record scrambled_generator =
  s_base :: u64
  s_num_items :: u64
  s_generator :: zipfian_generator

definition ScrambledZipfianGenerator :: "u64 \<Rightarrow> u64 \<Rightarrow> real \<Rightarrow> real \<Rightarrow> scrambled_generator option" where
  "ScrambledZipfianGenerator a b zipfian_const u =
     map_option (\<lambda>g. \<lparr>s_base = a, s_num_items = b - a + 1, s_generator = g\<rparr>)
       (ZipfianGenerator a b zipfian_const u)"

definition ScrambledZipfianGenerator_items :: "u64 \<Rightarrow> real \<Rightarrow> scrambled_generator option" where
  "ScrambledZipfianGenerator_items num_items u =
     ScrambledZipfianGenerator 0 (num_items - 1) kZipfianConst u"

definition Scramble :: "scrambled_generator \<Rightarrow> u64 \<Rightarrow> u64" where
  "Scramble g v = s_base g + FNVHash64 v mod s_num_items g"

definition Scrambled_Next :: "real \<Rightarrow> scrambled_generator \<Rightarrow> (u64 \<times> scrambled_generator) option" where
  "Scrambled_Next u g =
     map_option (\<lambda>(v, z). (Scramble g v, g\<lparr>s_generator := z\<rparr>)) (Zipfian_Next u (s_generator g))"

definition Scrambled_Last :: "scrambled_generator \<Rightarrow> u64" where
  "Scrambled_Last g = Scramble g (Zipfian_Last (s_generator g))"

text \<open>The referenced counter is an argument, since its owner goes on using it.\<close>

record skewed_generator =
  k_zipfian :: zipfian_generator
  k_last :: u64

definition Skewed_Next ::
    "counter_generator \<Rightarrow> real \<Rightarrow> skewed_generator \<Rightarrow> (u64 \<times> skewed_generator) option" where
  "Skewed_Next basis u g =
     (let m = Counter_Last basis in
      map_option (\<lambda>(v, z). (m - v, g\<lparr>k_zipfian := z, k_last := m - v\<rparr>))
        (Zipfian_Next_num m u (k_zipfian g)))"

definition Skewed_Last :: "skewed_generator \<Rightarrow> u64" where
  "Skewed_Last g = k_last g"

definition SkewedLatestGenerator :: "counter_generator \<Rightarrow> real \<Rightarrow> real \<Rightarrow> skewed_generator option" where
  "SkewedLatestGenerator basis u u' = do {
     z \<leftarrow> ZipfianGenerator_items (Counter_Last basis) u;
     (v, g) \<leftarrow> Skewed_Next basis u' \<lparr>k_zipfian = z, k_last = 0\<rparr>;
     Some g
   }"

section \<open>The contract of a generator\<close>

text \<open>
  A generator on which \<open>Next\<close>, given an admissible draw, never fails, stays within a fixed range and
  is remembered by \<open>Last\<close>.
\<close>

fun gen_run :: "('i \<Rightarrow> 'g \<Rightarrow> ('v \<times> 'g) option) \<Rightarrow> 'i list \<Rightarrow> 'g \<Rightarrow> ('v list \<times> 'g) option" where
  "gen_run nxt [] g = Some ([], g)"
| "gen_run nxt (i # is) g =
     (case nxt i g of
        None \<Rightarrow> None
      | Some (v, g') \<Rightarrow> map_option (\<lambda>(vs, g''). (v # vs, g'')) (gen_run nxt is g'))"

locale generator =
  fixes nxt :: "'i \<Rightarrow> 'g \<Rightarrow> ('v \<times> 'g) option" and lst :: "'g \<Rightarrow> 'v"
    and inv :: "'g \<Rightarrow> bool" and draw :: "'i \<Rightarrow> bool" and rng :: "'g \<Rightarrow> 'v set"
  assumes step: "inv g \<Longrightarrow> draw i \<Longrightarrow>
    \<exists>v g'. nxt i g = Some (v, g') \<and> inv g' \<and> v \<in> rng g \<and> rng g' = rng g \<and> lst g' = v"
begin

lemma run:
  "inv g \<Longrightarrow> list_all draw is \<Longrightarrow>
     \<exists>vs g'. gen_run nxt is g = Some (vs, g') \<and> inv g' \<and> length vs = length is \<and> set vs \<subseteq> rng g
       \<and> (vs \<noteq> [] \<longrightarrow> lst g' = last vs)"
proof (induction "is" arbitrary: g)
  case (Cons i "is")
  obtain v g1 where s: "nxt i g = Some (v, g1)" "inv g1" "v \<in> rng g" "rng g1 = rng g" "lst g1 = v"
    using step [of g i] Cons.prems by auto
  obtain vs g' where r: "gen_run nxt is g1 = Some (vs, g')" "inv g'" "length vs = length is"
    "set vs \<subseteq> rng g1" "vs \<noteq> [] \<longrightarrow> lst g' = last vs"
    using Cons.IH [OF s(2)] Cons.prems(2) by auto
  have "lst g' = last (v # vs)"
    using r s(5) by (cases "is") auto
  with s r show ?case by auto
qed simp

end

section \<open>Zeta sums in the generator\<close>

lemma Zeta_eq: "last_num \<le> cur_num \<Longrightarrow>
  Zeta last_num cur_num t z = z + (zsum t (unat cur_num) - zsum t (unat last_num))"
proof -
  assume le: "last_num \<le> cur_num"
  have "foldl (\<lambda>zeta i. zeta + 1 / real i powr t) z [m + 1..<n + 1] = z + (zsum t n - zsum t m)"
    if "m \<le> n" for m n
    using that by (induction n rule: dec_induct) (simp_all add: powr_minus_divide)
  from this [of "unat last_num" "unat cur_num"] le show ?thesis
    by (simp add: Zeta_def word_le_nat_alt)
qed

lemma zsum_2: "zsum t 2 = 1 + (1 / 2) powr t"
  by (simp add: numeral_2_eq_2 powr_minus_divide powr_divide)

text \<open>The invariant of a Zipfian generator whose exponent is between 0 and 1.\<close>

definition zipf_inv :: "zipfian_generator \<Rightarrow> bool" where
  "zipf_inv g \<longleftrightarrow>
     2 \<le> unat (z_num_items g) \<and> z_num_items g \<le> z_n_for_zeta g
     \<and> 0 < z_theta g \<and> z_theta g < 1 \<and> z_alpha g = 1 / (1 - z_theta g)
     \<and> z_zeta_2 g = zsum (z_theta g) 2 \<and> z_zeta_n g = zsum (z_theta g) (unat (z_n_for_zeta g))
     \<and> z_eta g = Eta g"

lemma Eta_bounds:
  assumes "zipf_inv g" "2 < unat (z_n_for_zeta g)"
  shows "0 \<le> z_eta g" "z_eta g \<le> 1" "2 < unat (z_num_items g) \<Longrightarrow> 0 < z_eta g"
proof -
  define t N n where "t = z_theta g" and "N = unat (z_num_items g)" and "n = unat (z_n_for_zeta g)"
  have inv: "2 \<le> N" "N \<le> n" "0 < t" "t < 1"
    using assms(1) by (simp_all add: zipf_inv_def word_le_nat_alt t_def N_def n_def)
  have eta: "z_eta g = (1 - (2 / real N) powr (1 - t)) / (1 - zsum t 2 / zsum t n)"
    using assms(1) unfolding zipf_inv_def Eta_def t_def N_def n_def by metis
  have "zsum t 2 / zsum t n \<le> zsum t 2 / zsum t N"
    using inv zsum_mono [of N n t] zsum_pos [of N t] zsum_pos [of 2 t] by (intro divide_left_mono) simp_all
  also have "\<dots> \<le> (2 / real N) powr (1 - t)"
    using zsum_ratio_le_powr [of 2 N t] inv by simp
  finally have le: "zsum t 2 / zsum t n \<le> (2 / real N) powr (1 - t)" .
  have den: "0 < 1 - zsum t 2 / zsum t n"
    using assms(2) [folded n_def] zsum_strict_mono [of 2 n t] zsum_pos [of n t] by (simp add: field_simps)
  have "(2 / real N) powr (1 - t) \<le> 1 powr (1 - t)"
    using inv by (intro powr_mono2) simp_all
  then show "0 \<le> z_eta g" unfolding eta using den by (intro divide_nonneg_pos) simp_all
  show "z_eta g \<le> 1" unfolding eta using den le by simp
  assume "2 < unat (z_num_items g)"
  then have "2 < N" by (simp add: N_def)
  then have "(2 / real N) powr (1 - t) < 1 powr (1 - t)"
    using inv by (intro powr_less_mono2) simp_all
  then show "0 < z_eta g" unfolding eta using den by simp
qed

lemma double_to_u64_nonneg:
  assumes "0 \<le> x" "x < 2 ^ 64"
  shows "double_to_u64 x = Some (word_of_int \<lfloor>x\<rfloor>)" "unat (word_of_int \<lfloor>x\<rfloor> :: u64) = nat \<lfloor>x\<rfloor>"
proof -
  have "\<lfloor>x\<rfloor> < 2 ^ 64" using assms(2) by (simp add: floor_less_iff)
  moreover have "0 \<le> \<lfloor>x\<rfloor>" using assms(1) by simp
  ultimately show "unat (word_of_int \<lfloor>x\<rfloor> :: u64) = nat \<lfloor>x\<rfloor>"
    by (simp add: unsigned_of_int take_bit_int_eq_self)
  show "double_to_u64 x = Some (word_of_int \<lfloor>x\<rfloor>)"
    using assms by (simp add: double_to_u64_def)
qed

text \<open>A sample is 0, 1 or a number of the interval of \<open>num\<close> values from the base on.\<close>

definition zipf_range :: "u64 \<Rightarrow> u64 \<Rightarrow> u64 \<Rightarrow> u64 set" where
  "zipf_range b num n =
     {v. v = 0 \<or> v = 1 \<or> unat b \<le> unat v \<and> unat v \<le> unat b + unat num
           \<and> (2 < unat n \<longrightarrow> unat v < unat b + unat num)}"

lemma zipf_third_branch:
  assumes "zipf_inv g" "0 \<le> u" "u < 1" "\<not> u * z_zeta_n g < 1 + (1 / 2) powr z_theta g"
  shows "2 < unat (z_n_for_zeta g)" "0 \<le> z_eta g * u - z_eta g + 1" "z_eta g * u - z_eta g + 1 \<le> 1"
    "2 < unat (z_num_items g) \<Longrightarrow> z_eta g * u - z_eta g + 1 < 1"
proof -
  let ?t = "z_theta g"
  define n where "n = unat (z_n_for_zeta g)"
  have n: "2 \<le> n" and zn: "z_zeta_n g = zsum ?t n"
    using assms(1) by (auto simp: zipf_inv_def n_def word_le_nat_alt)
  have pos: "0 < zsum ?t n" using zsum_pos n by simp
  have "zsum ?t 2 \<le> u * zsum ?t n"
    using assms(4) by (simp add: zn zsum_2)
  also have "\<dots> < zsum ?t n" using assms(3) pos by simp
  finally have "n \<noteq> 2" by auto
  with n show big: "2 < unat (z_n_for_zeta g)" by (simp add: n_def)
  note eta = Eta_bounds [OF assms(1) big]
  have x: "z_eta g * u - z_eta g + 1 = 1 - z_eta g * (1 - u)" by (simp add: algebra_simps)
  have "z_eta g * (1 - u) \<le> 1 * 1" using eta assms(2,3) by (intro mult_mono) simp_all
  then show "0 \<le> z_eta g * u - z_eta g + 1" unfolding x by simp
  show "z_eta g * u - z_eta g + 1 \<le> 1" unfolding x using eta assms(3) by simp
  assume "2 < unat (z_num_items g)"
  then show "z_eta g * u - z_eta g + 1 < 1" unfolding x using eta(3) assms(3) by simp
qed

lemma zipf_sample_range:
  assumes "zipf_inv g" "0 \<le> u" "u < 1" "0 < num" "unat (z_base g) + unat num < 2 ^ 64"
  shows "\<exists>v \<in> zipf_range (z_base g) num (z_num_items g). zipf_sample num u g = Some v"
proof (cases "u * z_zeta_n g < 1 + (1 / 2) powr z_theta g")
  case True
  then show ?thesis by (auto simp: zipf_sample_def zipf_range_def Let_def)
next
  case False
  define x y where "x = z_eta g * u - z_eta g + 1"
    and "y = real (unat (z_base g)) + real (unat num) * x powr z_alpha g"
  note br = zipf_third_branch [OF assms(1-3) False, folded x_def]
  have alpha: "0 < z_alpha g" using assms(1) by (simp add: zipf_inv_def)
  have p: "0 \<le> x powr z_alpha g" "x powr z_alpha g \<le> 1 powr z_alpha g"
    using br(2,3) alpha by (simp, intro powr_mono2) simp_all
  have num: "0 < real (unat num)" using assms(4) unat_gt_0 of_nat_0_less_iff by blast
  have y: "real (unat (z_base g)) \<le> y" "y \<le> real (unat (z_base g)) + real (unat num)"
    unfolding y_def using p num by (simp_all del: of_nat_unat)
  have big: "y < 2 ^ 64"
    using y(2) assms(5) of_nat_less_iff [of "unat (z_base g) + unat num" "2 ^ 64", where 'a = real]
    by (simp del: of_nat_unat)
  have y0: "0 \<le> y" using y(1) by (simp del: of_nat_unat)
  have fl: "int (unat (z_base g)) \<le> \<lfloor>y\<rfloor>" "\<lfloor>y\<rfloor> \<le> int (unat (z_base g) + unat num)"
    using y by (simp_all del: of_nat_unat add: le_floor_iff) linarith
  have lt: "\<lfloor>y\<rfloor> < int (unat (z_base g) + unat num)" if "2 < unat (z_num_items g)"
  proof -
    have "x powr z_alpha g < 1 powr z_alpha g"
      using br(2,4) that alpha by (intro powr_less_mono2) simp_all
    then have "y < real (unat (z_base g)) + real (unat num)"
      unfolding y_def using num by (simp del: of_nat_unat)
    then show ?thesis by (simp del: of_nat_unat add: floor_less_iff)
  qed
  have "\<not> u * z_zeta_n g < 1"
    using False powr_ge_zero [of "1 / 2" "z_theta g"] by linarith
  then have "zipf_sample num u g = double_to_u64 y"
    using False br(2) unfolding zipf_sample_def Let_def y_def x_def by simp
  then have "zipf_sample num u g = Some (word_of_int \<lfloor>y\<rfloor>)"
    unfolding double_to_u64_nonneg(1) [OF y0 big] .
  moreover have "word_of_int \<lfloor>y\<rfloor> \<in> zipf_range (z_base g) num (z_num_items g)"
  proof -
    have "unat (z_base g) \<le> nat \<lfloor>y\<rfloor>" "nat \<lfloor>y\<rfloor> \<le> unat (z_base g) + unat num"
      using fl by linarith+
    moreover have "nat \<lfloor>y\<rfloor> < unat (z_base g) + unat num" if "2 < unat (z_num_items g)"
      using lt [OF that] fl(1) by linarith
    ultimately show ?thesis
      by (simp add: zipf_range_def double_to_u64_nonneg(2) [OF y0 big])
  qed
  ultimately show ?thesis by blast
qed

lemma RaiseZeta_inv:
  assumes "zipf_inv g" "num > z_n_for_zeta g"
  shows "\<exists>g'. RaiseZeta num g = Some g' \<and> zipf_inv (g'\<lparr>z_eta := Eta g'\<rparr>)
    \<and> z_base g' = z_base g \<and> z_num_items g' = z_num_items g"
  using assms by (auto simp: RaiseZeta_def zipf_inv_def Zeta_eq Eta_def)

lemma Zipfian_Next_num_correct:
  assumes "zipf_inv g" "0 \<le> u" "u < 1" "2 \<le> num" "num < kMaxNumItems" "unat (z_base g) + unat num < 2 ^ 64"
  shows "\<exists>v g'. Zipfian_Next_num num u g = Some (v, g') \<and> zipf_inv g' \<and> z_last_value g' = v
    \<and> z_base g' = z_base g \<and> z_num_items g' = z_num_items g
    \<and> v \<in> zipf_range (z_base g) num (z_num_items g)"
proof -
  obtain g1 where g1: "zipf_inv g1" "z_base g1 = z_base g" "z_num_items g1 = z_num_items g"
    and next1: "Zipfian_Next_num num u g
      = map_option (\<lambda>v. (v, g1\<lparr>z_last_value := v\<rparr>)) (zipf_sample num u g1)"
  proof (cases "num > z_n_for_zeta g")
    case True
    obtain g' where "RaiseZeta num g = Some g'" "zipf_inv (g'\<lparr>z_eta := Eta g'\<rparr>)"
      "z_base g' = z_base g" "z_num_items g' = z_num_items g"
      using RaiseZeta_inv [OF assms(1) True] by blast
    with True assms(4,5) show ?thesis
      by (intro that [of "g'\<lparr>z_eta := Eta g'\<rparr>"])
        (auto simp: Zipfian_Next_num_def split: bind_split option.splits)
  next
    case False
    with assms show ?thesis
      by (intro that [of g]) (auto simp: Zipfian_Next_num_def split: bind_split option.splits)
  qed
  have "0 < num" using assms(4) by (rule less_le_trans [rotated]) simp
  then obtain v where "zipf_sample num u g1 = Some v" "v \<in> zipf_range (z_base g) num (z_num_items g)"
    using zipf_sample_range [OF g1(1) assms(2,3), of num] g1(2,3) assms(6) by auto
  with next1 g1 show ?thesis by (auto simp: zipf_inv_def Eta_def)
qed

section \<open>Constructed generators\<close>

definition zipf_ok :: "zipfian_generator \<Rightarrow> bool" where
  "zipf_ok g \<longleftrightarrow> zipf_inv g \<and> z_num_items g < kMaxNumItems
     \<and> unat (z_base g) + unat (z_num_items g) < 2 ^ 64"

abbreviation unit_draw :: "real \<Rightarrow> bool" where
  "unit_draw u \<equiv> 0 \<le> u \<and> u < 1"

lemma u64_two_le: "2 \<le> (x :: u64) \<longleftrightarrow> 2 \<le> unat x"
  by (simp add: word_le_nat_alt)

lemma Zipfian_Next_correct:
  assumes "zipf_ok g" "unit_draw u"
  shows "\<exists>v g'. Zipfian_Next u g = Some (v, g') \<and> zipf_ok g' \<and> Zipfian_Last g' = v
    \<and> z_base g' = z_base g \<and> z_num_items g' = z_num_items g
    \<and> v \<in> zipf_range (z_base g) (z_num_items g) (z_num_items g)"
proof -
  have inv: "zipf_inv g" and max: "z_num_items g < kMaxNumItems"
    and size: "unat (z_base g) + unat (z_num_items g) < 2 ^ 64"
    using assms(1) by (simp_all add: zipf_ok_def)
  moreover have "2 \<le> z_num_items g"
    using inv by (simp add: zipf_inv_def u64_two_le)
  ultimately obtain v g' where "Zipfian_Next_num (z_num_items g) u g = Some (v, g')" "zipf_inv g'"
    "z_last_value g' = v" "z_base g' = z_base g" "z_num_items g' = z_num_items g"
    "v \<in> zipf_range (z_base g) (z_num_items g) (z_num_items g)"
    using Zipfian_Next_num_correct [of g u "z_num_items g"] assms(2) by blast
  with max size show ?thesis by (simp add: Zipfian_Next_def Zipfian_Last_def zipf_ok_def)
qed

lemma ZipfianGenerator_correct:
  assumes "2 \<le> b - a + 1" "b - a + 1 < kMaxNumItems" "0 < t" "t < 1" "unit_draw u"
    "unat a + unat (b - a + 1) < 2 ^ 64"
  shows "\<exists>g. ZipfianGenerator a b t u = Some g \<and> zipf_ok g \<and> z_base g = a \<and> z_num_items g = b - a + 1"
proof -
  define n g0 where "n = b - a + 1"
    and "g0 = \<lparr>z_num_items = n, z_base = a, z_theta = t, z_zeta_n = 0, z_eta = 0, z_alpha = 1 / (1 - t),
                z_zeta_2 = Zeta 0 2 t 0, z_n_for_zeta = 0, z_last_value = 0\<rparr>"
  define g1 where "g1 = g0\<lparr>z_zeta_n := Zeta 0 n t 0, z_n_for_zeta := n\<rparr>"
  have raise: "RaiseZeta n g0 = Some g1" by (simp add: RaiseZeta_def g0_def g1_def)
  have ok: "zipf_ok (g1\<lparr>z_eta := Eta g1\<rparr>)"
    using assms unfolding zipf_ok_def zipf_inv_def
    by (simp add: g1_def g0_def n_def Zeta_eq Eta_def u64_two_le)
  obtain v g' where "Zipfian_Next u (g1\<lparr>z_eta := Eta g1\<rparr>) = Some (v, g')" "zipf_ok g'" "z_base g' = a"
    "z_num_items g' = n"
    using Zipfian_Next_correct [OF ok assms(5)] by (auto simp: g1_def g0_def)
  then show ?thesis
    using raise assms(1,2) by (simp add: ZipfianGenerator_def Let_def g0_def n_def)
qed

definition scrambled_ok :: "scrambled_generator \<Rightarrow> bool" where
  "scrambled_ok g \<longleftrightarrow> zipf_ok (s_generator g) \<and> z_base (s_generator g) = s_base g
     \<and> z_num_items (s_generator g) = s_num_items g"

lemma Scramble_range:
  assumes "unat (s_base g) + unat (s_num_items g) < 2 ^ 64" "0 < s_num_items g"
  shows "unat (s_base g) \<le> unat (Scramble g v)" "unat (Scramble g v) < unat (s_base g) + unat (s_num_items g)"
proof -
  have "unat (FNVHash64 v mod s_num_items g) = unat (FNVHash64 v) mod unat (s_num_items g)"
    by (rule unat_mod_distrib)
  also have "\<dots> < unat (s_num_items g)"
    using assms(2) by (simp add: unat_gt_0 word_gt_0)
  finally have less: "unat (FNVHash64 v mod s_num_items g) < unat (s_num_items g)" .
  then have "unat (Scramble g v) = unat (s_base g) + unat (FNVHash64 v mod s_num_items g)"
    using assms(1) unfolding Scramble_def by (intro unat_add_lem [THEN iffD1]) simp
  with less show "unat (s_base g) \<le> unat (Scramble g v)"
    "unat (Scramble g v) < unat (s_base g) + unat (s_num_items g)" by simp_all
qed

lemma Scrambled_Next_correct:
  assumes "scrambled_ok g" "unit_draw u"
  shows "\<exists>v g'. Scrambled_Next u g = Some (v, g') \<and> scrambled_ok g' \<and> Scrambled_Last g' = v
    \<and> s_base g' = s_base g \<and> s_num_items g' = s_num_items g
    \<and> unat (s_base g) \<le> unat v \<and> unat v < unat (s_base g) + unat (s_num_items g)"
proof -
  have z: "zipf_ok (s_generator g)" "z_base (s_generator g) = s_base g"
    "z_num_items (s_generator g) = s_num_items g"
    using assms(1) by (simp_all add: scrambled_ok_def)
  obtain v z' where nxt: "Zipfian_Next u (s_generator g) = Some (v, z')" "zipf_ok z'" "Zipfian_Last z' = v"
    "z_base z' = s_base g" "z_num_items z' = s_num_items g"
    using Zipfian_Next_correct [OF z(1) assms(2)] z by auto
  have size: "unat (s_base g) + unat (s_num_items g) < 2 ^ 64" "0 < s_num_items g"
    using z by (auto simp: zipf_ok_def zipf_inv_def word_gt_0)
  show ?thesis
    using nxt Scramble_range [OF size, of v]
    by (simp add: Scrambled_Next_def Scrambled_Last_def scrambled_ok_def Scramble_def)
qed

text \<open>With the base 0, a latest-first draw lies between 0 and the last inserted number.\<close>

definition skewed_ok :: "skewed_generator \<Rightarrow> bool" where
  "skewed_ok g \<longleftrightarrow> zipf_inv (k_zipfian g) \<and> z_base (k_zipfian g) = 0"

lemma Skewed_Next_correct:
  assumes "skewed_ok g" "unit_draw u" "2 \<le> Counter_Last c" "Counter_Last c < kMaxNumItems"
  shows "\<exists>v g'. Skewed_Next c u g = Some (v, g') \<and> skewed_ok g' \<and> Skewed_Last g' = v \<and> v \<le> Counter_Last c"
proof -
  let ?m = "Counter_Last c" and ?z = "k_zipfian g"
  have z: "zipf_inv ?z" "z_base ?z = 0" using assms(1) by (simp_all add: skewed_ok_def)
  have "unat ?m < 2 ^ 64" using unsigned_less [of ?m] by simp
  with z obtain v z' where nxt: "Zipfian_Next_num ?m u ?z = Some (v, z')" "zipf_inv z'" "z_base z' = 0"
    "v \<in> zipf_range 0 ?m (z_num_items ?z)"
    using Zipfian_Next_num_correct [of ?z u ?m] assms(2-4) by auto
  then have "unat v \<le> unat ?m"
    using assms(3) by (auto simp: zipf_range_def u64_two_le)
  then have "?m - v \<le> ?m" by (simp add: word_le_nat_alt unat_sub)
  with nxt show ?thesis by (auto simp: Skewed_Next_def Let_def skewed_ok_def Skewed_Last_def)
qed

section \<open>Instances of the contract\<close>

interpretation const_gen: generator "\<lambda>_ g. Some (Const_Next g)" Const_Last "\<lambda>_. True" "\<lambda>_. True"
    "\<lambda>g. {c_constant g}"
  by unfold_locales (simp add: Const_Next_def Const_Last_def)

interpretation counter_gen: generator "\<lambda>_ g. Some (Counter_Next g)" Counter_Last "\<lambda>_. True" "\<lambda>_. True"
    "\<lambda>_. UNIV"
  by unfold_locales (simp add: Counter_Next_def Counter_Last_def)

interpretation uniform_gen: generator "\<lambda>_ g. Some (Uniform_Next lib g)" Uniform_Last
    "\<lambda>g. random_lib_ok lib \<and> u_min g \<le> u_max g" "\<lambda>_. True" "\<lambda>g. {u_min g..u_max g}" for lib
  by unfold_locales (simp add: Uniform_Next_def Uniform_Last_def random_lib_ok_def case_prod_beta)

interpretation zipfian_gen: generator Zipfian_Next Zipfian_Last zipf_ok unit_draw
    "\<lambda>g. zipf_range (z_base g) (z_num_items g) (z_num_items g)"
  using Zipfian_Next_correct by unfold_locales fastforce

interpretation scrambled_gen: generator Scrambled_Next Scrambled_Last scrambled_ok unit_draw
    "\<lambda>g. {v. unat (s_base g) \<le> unat v \<and> unat v < unat (s_base g) + unat (s_num_items g)}"
  using Scrambled_Next_correct by unfold_locales fastforce

section \<open>The discrete choice\<close>

lemma discrete_built:
  assumes "g = fold (\<lambda>(v, w). AddValue v w) ps DiscreteGenerator"
  shows "d_values g = ps" "d_sum g = sum_list (map snd ps)"
proof -
  have "d_values (fold (\<lambda>(v, w). AddValue v w) ps g0) = d_values g0 @ ps
      \<and> d_sum (fold (\<lambda>(v, w). AddValue v w) ps g0) = d_sum g0 + sum_list (map snd ps)"
    for g0 :: "'a discrete_generator"
    by (induction ps arbitrary: g0) (auto simp: AddValue_def Let_def)
  from this [of DiscreteGenerator] assms show "d_values g = ps" "d_sum g = sum_list (map snd ps)"
    by (simp_all add: DiscreteGenerator_def)
qed

abbreviation prefix_weight :: "('v \<times> real) list \<Rightarrow> nat \<Rightarrow> real" where
  "prefix_weight ps i \<equiv> sum_list (map snd (take i ps))"

lemma discrete_loop_choice:
  assumes "0 < s" "0 \<le> c" "c * s < sum_list (map snd ps)"
  shows "\<exists>i < length ps. prefix_weight ps i \<le> c * s \<and> c * s < prefix_weight ps (Suc i)
    \<and> discrete_loop ps s c = Some (fst (ps ! i))"
  using assms
proof (induction ps arbitrary: c)
  case (Cons p ps)
  obtain v w where p: "p = (v, w)" by (cases p)
  show ?case
  proof (cases "c < w / s")
    case True
    then show ?thesis
      using Cons.prems p by (intro exI [of _ 0]) (simp add: pos_less_divide_eq)
  next
    case False
    have shift: "(c - w / s) * s = c * s - w"
      using Cons.prems(1) by (simp add: algebra_simps)
    obtain i where "i < length ps" "prefix_weight ps i \<le> c * s - w" "c * s - w < prefix_weight ps (Suc i)"
      "discrete_loop ps s (c - w / s) = Some (fst (ps ! i))"
      using Cons.IH [of "c - w / s"] Cons.prems False p unfolding shift by auto
    then show ?thesis
      using False p by (intro exI [of _ "Suc i"]) auto
  qed
qed (simp add: mult_less_0_iff)

section \<open>Properties\<close>



text \<open>C29: The two derived generators stay within their key space. A scrambled Zipfian generator
  draws from the items from its base on; a latest-first generator whose referenced counter stands within
  the assertion draws a number up to the last one the counter gave out. Both answer every draw.\<close>

theorem derived_generators_in_range:
  assumes "scrambled_ok s" "skewed_ok k" "2 \<le> Counter_Last c" "Counter_Last c < kMaxNumItems"
    "0 \<le> u" "u < 1"
  shows "\<exists>v s' v' k'. Scrambled_Next u s = Some (v, s') \<and> scrambled_ok s'
      \<and> unat (s_base s) \<le> unat v \<and> unat v < unat (s_base s) + unat (s_num_items s) \<and> Scrambled_Last s' = v
      \<and> Skewed_Next c u k = Some (v', k') \<and> skewed_ok k' \<and> v' \<le> Counter_Last c \<and> Skewed_Last k' = v'"
  using Scrambled_Next_correct [OF assms(1), of u] Skewed_Next_correct [OF assms(2) _ assms(3,4), of u] assms(5,6)
  by blast

theorem derived_generators_in_range_witness:
  "\<exists>s k v s'. scrambled_ok s \<and> skewed_ok k \<and> Scrambled_Next (1 / 2) s = Some (v, s')
     \<and> unat v < unat (s_base s) + unat (s_num_items s)"
proof -
  let ?u = "1 / 2 :: real"
  have "\<exists>g. ZipfianGenerator 0 9 kZipfianConst 0 = Some g \<and> zipf_ok g \<and> z_base g = 0 \<and> z_num_items g = 9 - 0 + 1"
    by (rule ZipfianGenerator_correct) (simp_all add: kMaxNumItems_def kZipfianConst_def)
  then obtain g where g: "zipf_ok g" "z_base g = 0" "z_num_items g = 10" by auto
  let ?s = "\<lparr>s_base = 0, s_num_items = 10, s_generator = g\<rparr>" and ?k = "\<lparr>k_zipfian = g, k_last = 0\<rparr>"
  have "scrambled_ok ?s" "skewed_ok ?k" using g by (simp_all add: scrambled_ok_def skewed_ok_def zipf_ok_def)
  then show ?thesis
    using derived_generators_in_range [of ?s ?k "CounterGenerator 11" ?u]
    by (force simp: Counter_Last_def CounterGenerator_def kMaxNumItems_def)
qed



text \<open>Smallness of the draw alone makes the Zipfian generator answer 0, whatever its base is.\<close>

lemma Zipfian_ignores_base:
  assumes "zipf_inv g" "2 \<le> num" "num \<le> z_n_for_zeta g" "num < kMaxNumItems"
  shows "\<exists>g'. Zipfian_Next_num num 0 g = Some (0, g')"
  using assms by (auto simp: Zipfian_Next_num_def zipf_sample_def)

end
