(* ===== verification/Ycsb_Workload.thy ===== *)
theory Ycsb_Workload
  imports Ycsb_Db Ycsb_Generators
begin

text \<open>
  The core workload (\<open>core/core_workload.h\<close>, \<open>core/core_workload.cc\<close>): the properties it reads, its
  generators, the keys, fields and operations it hands to a client. A \<open>Generator\<close> pointer is a value of
  the datatype \<open>gen\<close>, absent for NULL, and a virtual call is a case distinction. The engine behind
  \<open>RandomDouble\<close> and the state of \<open>rand\<close> are shared by the whole program and passed along as the
  environment. A string is as long as the code asks for: the length limit of \<open>std::string\<close> is not
  modelled.
\<close>

section \<open>Shared random numbers\<close>

record 'e rand_env =
  re_double :: 'e
  re_rand :: 'e

definition RandomDouble :: "'e random_lib \<Rightarrow> 'e rand_env \<Rightarrow> real \<times> 'e rand_env" where
  "RandomDouble lib env = (case lib_uniform_real lib (re_double env) of (x, e) \<Rightarrow> (x, env\<lparr>re_double := e\<rparr>))"

definition PrintChar :: "'e random_lib \<Rightarrow> 'e rand_env \<Rightarrow> char \<times> 'e rand_env" where
  "PrintChar lib env = (case lib_rand lib (re_rand env) of (n, e) \<Rightarrow> (RandomPrintChar n, env\<lparr>re_rand := e\<rparr>))"

section \<open>Generators behind the interface\<close>

datatype 'e gen =
    GConst const_generator
  | GCounter counter_generator
  | GUniform "'e uniform_generator"
  | GZipf zipfian_generator
  | GScrambled scrambled_generator
  | GSkewed skewed_generator

text \<open>A Zipfian generator stops at the assertion on the number of items, or else at an undefined conversion.\<close>

definition zipf_stop :: "u64 \<Rightarrow> run_stop" where
  "zipf_stop num = (if 2 \<le> num \<and> num < kMaxNumItems then Stop_Undefined else Stop_Assert)"

fun gen_Next ::
    "'e random_lib \<Rightarrow> counter_generator \<Rightarrow> 'e gen \<Rightarrow> 'e rand_env \<Rightarrow> run_stop + u64 \<times> 'e gen \<times> 'e rand_env" where
  "gen_Next lib basis (GConst g) env = (case Const_Next g of (v, g') \<Rightarrow> Inr (v, GConst g', env))"
| "gen_Next lib basis (GCounter g) env = (case Counter_Next g of (v, g') \<Rightarrow> Inr (v, GCounter g', env))"
| "gen_Next lib basis (GUniform g) env = (case Uniform_Next lib g of (v, g') \<Rightarrow> Inr (v, GUniform g', env))"
| "gen_Next lib basis (GZipf g) env =
     (case RandomDouble lib env of (u, env') \<Rightarrow>
        andthen (or_stop (zipf_stop (z_num_items g)) (Zipfian_Next u g)) (\<lambda>(v, g'). Inr (v, GZipf g', env')))"
| "gen_Next lib basis (GScrambled g) env =
     (case RandomDouble lib env of (u, env') \<Rightarrow>
        andthen (or_stop (zipf_stop (z_num_items (s_generator g))) (Scrambled_Next u g))
          (\<lambda>(v, g'). Inr (v, GScrambled g', env')))"
| "gen_Next lib basis (GSkewed g) env =
     (case RandomDouble lib env of (u, env') \<Rightarrow>
        andthen (or_stop (zipf_stop (Counter_Last basis)) (Skewed_Next basis u g))
          (\<lambda>(v, g'). Inr (v, GSkewed g', env')))"

fun gen_Last :: "'e gen \<Rightarrow> u64" where
  "gen_Last (GConst g) = Const_Last g"
| "gen_Last (GCounter g) = Counter_Last g"
| "gen_Last (GUniform g) = Uniform_Last g"
| "gen_Last (GZipf g) = Zipfian_Last g"
| "gen_Last (GScrambled g) = Scrambled_Last g"
| "gen_Last (GSkewed g) = Skewed_Last g"

text \<open>
  The constructors as \<open>new\<close> expressions. A uniform distribution whose bounds are in the wrong order is
  undefined behaviour; a Zipfian constructor draws once, the latest-first one twice.
\<close>

definition new_uniform :: "'e random_lib \<Rightarrow> u64 \<Rightarrow> u64 \<Rightarrow> run_stop + 'e gen" where
  "new_uniform lib a b = (if a \<le> b then Inr (GUniform (UniformGenerator lib a b)) else Inl Stop_Undefined)"

definition new_zipfian :: "'e random_lib \<Rightarrow> u64 \<Rightarrow> u64 \<Rightarrow> 'e rand_env \<Rightarrow> run_stop + 'e gen \<times> 'e rand_env" where
  "new_zipfian lib a b env =
     (case RandomDouble lib env of (u, env') \<Rightarrow>
        andthen (or_stop (zipf_stop (b - a + 1)) (ZipfianGenerator a b kZipfianConst u)) (\<lambda>g. Inr (GZipf g, env')))"

definition new_scrambled :: "'e random_lib \<Rightarrow> u64 \<Rightarrow> 'e rand_env \<Rightarrow> run_stop + 'e gen \<times> 'e rand_env" where
  "new_scrambled lib num_items env =
     (case RandomDouble lib env of (u, env') \<Rightarrow>
        andthen (or_stop (zipf_stop num_items) (ScrambledZipfianGenerator_items num_items u))
          (\<lambda>g. Inr (GScrambled g, env')))"

definition new_skewed :: "'e random_lib \<Rightarrow> counter_generator \<Rightarrow> 'e rand_env \<Rightarrow> run_stop + 'e gen \<times> 'e rand_env" where
  "new_skewed lib basis env =
     (case RandomDouble lib env of (u, env1) \<Rightarrow>
      case RandomDouble lib env1 of (u', env2) \<Rightarrow>
        andthen (or_stop (zipf_stop (Counter_Last basis)) (SkewedLatestGenerator basis u u'))
          (\<lambda>g. Inr (GSkewed g, env2)))"

section \<open>The workload\<close>

datatype operation = INSERT | READ | UPDATE | SCAN | READMODIFYWRITE

definition TABLENAME_PROPERTY :: string where "TABLENAME_PROPERTY = ''table''"
definition TABLENAME_DEFAULT :: string where "TABLENAME_DEFAULT = ''usertable''"
definition FIELD_COUNT_PROPERTY :: string where "FIELD_COUNT_PROPERTY = ''fieldcount''"
definition FIELD_COUNT_DEFAULT :: string where "FIELD_COUNT_DEFAULT = ''10''"
definition FIELD_LENGTH_DISTRIBUTION_PROPERTY :: string where "FIELD_LENGTH_DISTRIBUTION_PROPERTY = ''field_len_dist''"
definition FIELD_LENGTH_DISTRIBUTION_DEFAULT :: string where "FIELD_LENGTH_DISTRIBUTION_DEFAULT = ''constant''"
definition FIELD_LENGTH_PROPERTY :: string where "FIELD_LENGTH_PROPERTY = ''fieldlength''"
definition FIELD_LENGTH_DEFAULT :: string where "FIELD_LENGTH_DEFAULT = ''100''"
definition READ_ALL_FIELDS_PROPERTY :: string where "READ_ALL_FIELDS_PROPERTY = ''readallfields''"
definition READ_ALL_FIELDS_DEFAULT :: string where "READ_ALL_FIELDS_DEFAULT = ''true''"
definition WRITE_ALL_FIELDS_PROPERTY :: string where "WRITE_ALL_FIELDS_PROPERTY = ''writeallfields''"
definition WRITE_ALL_FIELDS_DEFAULT :: string where "WRITE_ALL_FIELDS_DEFAULT = ''false''"
definition READ_PROPORTION_PROPERTY :: string where "READ_PROPORTION_PROPERTY = ''readproportion''"
definition READ_PROPORTION_DEFAULT :: string where "READ_PROPORTION_DEFAULT = ''0.95''"
definition UPDATE_PROPORTION_PROPERTY :: string where "UPDATE_PROPORTION_PROPERTY = ''updateproportion''"
definition UPDATE_PROPORTION_DEFAULT :: string where "UPDATE_PROPORTION_DEFAULT = ''0.05''"
definition INSERT_PROPORTION_PROPERTY :: string where "INSERT_PROPORTION_PROPERTY = ''insertproportion''"
definition INSERT_PROPORTION_DEFAULT :: string where "INSERT_PROPORTION_DEFAULT = ''0.0''"
definition SCAN_PROPORTION_PROPERTY :: string where "SCAN_PROPORTION_PROPERTY = ''scanproportion''"
definition SCAN_PROPORTION_DEFAULT :: string where "SCAN_PROPORTION_DEFAULT = ''0.0''"
definition READMODIFYWRITE_PROPORTION_PROPERTY :: string where
  "READMODIFYWRITE_PROPORTION_PROPERTY = ''readmodifywriteproportion''"
definition READMODIFYWRITE_PROPORTION_DEFAULT :: string where "READMODIFYWRITE_PROPORTION_DEFAULT = ''0.0''"
definition REQUEST_DISTRIBUTION_PROPERTY :: string where "REQUEST_DISTRIBUTION_PROPERTY = ''requestdistribution''"
definition REQUEST_DISTRIBUTION_DEFAULT :: string where "REQUEST_DISTRIBUTION_DEFAULT = ''uniform''"
definition MAX_SCAN_LENGTH_PROPERTY :: string where "MAX_SCAN_LENGTH_PROPERTY = ''maxscanlength''"
definition MAX_SCAN_LENGTH_DEFAULT :: string where "MAX_SCAN_LENGTH_DEFAULT = ''1000''"
definition SCAN_LENGTH_DISTRIBUTION_PROPERTY :: string where "SCAN_LENGTH_DISTRIBUTION_PROPERTY = ''scanlengthdistribution''"
definition SCAN_LENGTH_DISTRIBUTION_DEFAULT :: string where "SCAN_LENGTH_DISTRIBUTION_DEFAULT = ''uniform''"
definition INSERT_ORDER_PROPERTY :: string where "INSERT_ORDER_PROPERTY = ''insertorder''"
definition INSERT_ORDER_DEFAULT :: string where "INSERT_ORDER_DEFAULT = ''hashed''"
definition INSERT_START_PROPERTY :: string where "INSERT_START_PROPERTY = ''insertstart''"
definition INSERT_START_DEFAULT :: string where "INSERT_START_DEFAULT = ''0''"
definition RECORD_COUNT_PROPERTY :: string where "RECORD_COUNT_PROPERTY = ''recordcount''"
definition OPERATION_COUNT_PROPERTY :: string where "OPERATION_COUNT_PROPERTY = ''operationcount''"

record 'e core_workload =
  wl_table_name :: string
  wl_field_count :: int
  wl_read_all_fields :: bool
  wl_write_all_fields :: bool
  wl_field_len_generator :: "'e gen option"
  wl_key_generator :: "'e gen option"
  wl_op_chooser :: "operation discrete_generator"
  wl_key_chooser :: "'e gen option"
  wl_field_chooser :: "'e gen option"
  wl_scan_len_chooser :: "'e gen option"
  wl_insert_key_sequence :: counter_generator
  wl_ordered_inserts :: bool
  wl_record_count :: u64

definition CoreWorkload :: "'e core_workload" where
  "CoreWorkload =
     \<lparr>wl_table_name = '''', wl_field_count = 0, wl_read_all_fields = False, wl_write_all_fields = False,
      wl_field_len_generator = None, wl_key_generator = None, wl_op_chooser = DiscreteGenerator,
      wl_key_chooser = None, wl_field_chooser = None, wl_scan_len_chooser = None,
      wl_insert_key_sequence = CounterGenerator 3, wl_ordered_inserts = True, wl_record_count = 0\<rparr>"

section \<open>Initialisation\<close>

definition GetFieldLenGenerator ::
    "'e random_lib \<Rightarrow> properties \<Rightarrow> 'e rand_env \<Rightarrow> run_stop + 'e gen \<times> 'e rand_env" where
  "GetFieldLenGenerator lib p env =
     (let dist = GetProperty p FIELD_LENGTH_DISTRIBUTION_PROPERTY FIELD_LENGTH_DISTRIBUTION_DEFAULT in
      andthen (or_throw (c_stoi (GetProperty p FIELD_LENGTH_PROPERTY FIELD_LENGTH_DEFAULT))) (\<lambda>field_len.
        if dist = ''constant'' then Inr (GConst (ConstGenerator field_len), env)
        else if dist = ''uniform'' then
          andthen (new_uniform lib 1 (word_of_int field_len)) (\<lambda>g. Inr (g, env))
        else if dist = ''zipfian'' then new_zipfian lib 1 (word_of_int field_len) env
        else Inl (Stop_Exn (Ycsb_Exception (''Unknown field length distribution: '' @ dist)))))"

text \<open>The proportions and the other settings \<open>Init\<close> reads after the field length generator.\<close>

record workload_settings =
  ws_read :: real
  ws_update :: real
  ws_insert :: real
  ws_scan :: real
  ws_readmodifywrite :: real
  ws_record_count :: int
  ws_request_dist :: string
  ws_max_scan_len :: int
  ws_scan_len_dist :: string
  ws_insert_start :: int
  ws_read_all_fields :: bool
  ws_write_all_fields :: bool

definition read_settings :: "properties \<Rightarrow> run_stop + workload_settings" where
  "read_settings p =
     andthen (or_throw (c_stod (GetProperty p READ_PROPORTION_PROPERTY READ_PROPORTION_DEFAULT))) (\<lambda>rd.
     andthen (or_throw (c_stod (GetProperty p UPDATE_PROPORTION_PROPERTY UPDATE_PROPORTION_DEFAULT))) (\<lambda>upd.
     andthen (or_throw (c_stod (GetProperty p INSERT_PROPORTION_PROPERTY INSERT_PROPORTION_DEFAULT))) (\<lambda>ins.
     andthen (or_throw (c_stod (GetProperty p SCAN_PROPORTION_PROPERTY SCAN_PROPORTION_DEFAULT))) (\<lambda>scn.
     andthen (or_throw (c_stod (GetProperty p READMODIFYWRITE_PROPORTION_PROPERTY READMODIFYWRITE_PROPORTION_DEFAULT))) (\<lambda>rmw.
     andthen (or_throw (c_stoi (GetProperty p RECORD_COUNT_PROPERTY ''''))) (\<lambda>rc.
     andthen (or_throw (c_stoi (GetProperty p MAX_SCAN_LENGTH_PROPERTY MAX_SCAN_LENGTH_DEFAULT))) (\<lambda>msl.
     andthen (or_throw (c_stoi (GetProperty p INSERT_START_PROPERTY INSERT_START_DEFAULT))) (\<lambda>start.
     andthen (or_throw (StrToBool (GetProperty p READ_ALL_FIELDS_PROPERTY READ_ALL_FIELDS_DEFAULT))) (\<lambda>raf.
     andthen (or_throw (StrToBool (GetProperty p WRITE_ALL_FIELDS_PROPERTY WRITE_ALL_FIELDS_DEFAULT))) (\<lambda>waf.
       Inr \<lparr>ws_read = rd, ws_update = upd, ws_insert = ins, ws_scan = scn, ws_readmodifywrite = rmw,
            ws_record_count = rc,
            ws_request_dist = GetProperty p REQUEST_DISTRIBUTION_PROPERTY REQUEST_DISTRIBUTION_DEFAULT,
            ws_max_scan_len = msl,
            ws_scan_len_dist = GetProperty p SCAN_LENGTH_DISTRIBUTION_PROPERTY SCAN_LENGTH_DISTRIBUTION_DEFAULT,
            ws_insert_start = start, ws_read_all_fields = raf, ws_write_all_fields = waf\<rparr>))))))))))"

definition add_operation :: "operation \<Rightarrow> real \<Rightarrow> operation discrete_generator \<Rightarrow> operation discrete_generator" where
  "add_operation op weight g = (if weight > 0 then AddValue op weight g else g)"

definition add_operations :: "workload_settings \<Rightarrow> operation discrete_generator \<Rightarrow> operation discrete_generator" where
  "add_operations st g =
     add_operation READMODIFYWRITE (ws_readmodifywrite st)
       (add_operation SCAN (ws_scan st)
         (add_operation INSERT (ws_insert st)
           (add_operation UPDATE (ws_update st)
             (add_operation READ (ws_read st) g))))"

text \<open>The conversion of a \<open>double\<close> to \<open>int\<close>, undefined outside the range of the type.\<close>

definition double_to_int :: "real \<Rightarrow> int option" where
  "double_to_int x =
     (if real_of_int INT32_MIN - 1 < x \<and> x < real_of_int INT32_MAX + 1 then Some (c_trunc x) else None)"

definition make_key_chooser ::
    "'e random_lib \<Rightarrow> properties \<Rightarrow> workload_settings \<Rightarrow> 'e core_workload \<Rightarrow> 'e rand_env
       \<Rightarrow> run_stop + 'e gen \<times> 'e rand_env" where
  "make_key_chooser lib p st wl env =
     (if ws_request_dist st = ''uniform'' then
        andthen (new_uniform lib 0 (wl_record_count wl - 1)) (\<lambda>g. Inr (g, env))
      else if ws_request_dist st = ''zipfian'' then
        andthen (or_throw (c_stoi (GetProperty p OPERATION_COUNT_PROPERTY ''''))) (\<lambda>op_count.
        andthen (or_stop Stop_Undefined (double_to_int (real_of_int op_count * ws_insert st * 2))) (\<lambda>new_keys.
          new_scrambled lib (wl_record_count wl + word_of_int new_keys) env))
      else if ws_request_dist st = ''latest'' then new_skewed lib (wl_insert_key_sequence wl) env
      else Inl (Stop_Exn (Ycsb_Exception (''Unknown request distribution: '' @ ws_request_dist st))))"

definition make_scan_len_chooser ::
    "'e random_lib \<Rightarrow> workload_settings \<Rightarrow> 'e rand_env \<Rightarrow> run_stop + 'e gen \<times> 'e rand_env" where
  "make_scan_len_chooser lib st env =
     (let len = word_of_int (ws_max_scan_len st) in
      if ws_scan_len_dist st = ''uniform'' then
        andthen (new_uniform lib len len) (\<lambda>g. Inr (g, env))
      else if ws_scan_len_dist st = ''zipfian'' then new_zipfian lib len len env
      else Inl (Stop_Exn (Ycsb_Exception (''Distribution not allowed for scan length: '' @ ws_scan_len_dist st))))"

definition Workload_Init ::
    "'e random_lib \<Rightarrow> properties \<Rightarrow> 'e core_workload \<Rightarrow> 'e rand_env \<Rightarrow> run_stop + 'e core_workload \<times> 'e rand_env" where
  "Workload_Init lib p wl env =
     andthen (or_throw (c_stoi (GetProperty p FIELD_COUNT_PROPERTY FIELD_COUNT_DEFAULT))) (\<lambda>field_count.
     andthen (GetFieldLenGenerator lib p env) (\<lambda>(field_len_generator, env1).
     andthen (read_settings p) (\<lambda>st.
       let wl1 = wl\<lparr>wl_table_name := GetProperty p TABLENAME_PROPERTY TABLENAME_DEFAULT,
                    wl_field_count := field_count,
                    wl_field_len_generator := Some field_len_generator,
                    wl_record_count := word_of_int (ws_record_count st),
                    wl_read_all_fields := ws_read_all_fields st,
                    wl_write_all_fields := ws_write_all_fields st,
                    wl_ordered_inserts := (GetProperty p INSERT_ORDER_PROPERTY INSERT_ORDER_DEFAULT \<noteq> ''hashed''),
                    wl_key_generator := Some (GCounter (CounterGenerator (word_of_int (ws_insert_start st)))),
                    wl_op_chooser := add_operations st (wl_op_chooser wl),
                    wl_insert_key_sequence :=
                      Counter_Set (word_of_int (ws_record_count st)) (wl_insert_key_sequence wl)\<rparr>
       in andthen (make_key_chooser lib p st wl1 env1) (\<lambda>(key_chooser, env2).
          andthen (new_uniform lib 0 (word_of_int (field_count - 1))) (\<lambda>field_chooser.
          andthen (make_scan_len_chooser lib st env2) (\<lambda>(scan_len_chooser, env3).
            Inr (wl1\<lparr>wl_key_chooser := Some key_chooser, wl_field_chooser := Some field_chooser,
                     wl_scan_len_chooser := Some scan_len_chooser\<rparr>, env3)))))))"

section \<open>Keys, fields and operations\<close>

text \<open>A call through a generator pointer.\<close>

definition call_gen ::
    "'e random_lib \<Rightarrow> 'e core_workload \<Rightarrow> 'e gen option \<Rightarrow> 'e rand_env \<Rightarrow> run_stop + u64 \<times> 'e gen \<times> 'e rand_env" where
  "call_gen lib wl ptr env =
     (case ptr of None \<Rightarrow> Inl Stop_Undefined | Some g \<Rightarrow> gen_Next lib (wl_insert_key_sequence wl) g env)"

definition BuildKeyName :: "'e core_workload \<Rightarrow> u64 \<Rightarrow> string" where
  "BuildKeyName wl key_num =
     ''user'' @ to_string (unat (if wl_ordered_inserts wl then key_num else FNVHash64 key_num))"

definition NextTable :: "'e core_workload \<Rightarrow> string" where
  "NextTable wl = wl_table_name wl"

definition NextSequenceKey ::
    "'e random_lib \<Rightarrow> 'e core_workload \<Rightarrow> 'e rand_env \<Rightarrow> run_stop + string \<times> 'e core_workload \<times> 'e rand_env" where
  "NextSequenceKey lib wl env =
     andthen (call_gen lib wl (wl_key_generator wl) env) (\<lambda>(key_num, g, env').
       Inr (BuildKeyName wl key_num, wl\<lparr>wl_key_generator := Some g\<rparr>, env'))"

text \<open>The loop of \<open>NextTransactionKey\<close>; \<open>None\<close> when it never ends.\<close>

partial_function (option) next_key_loop ::
    "'e random_lib \<Rightarrow> counter_generator \<Rightarrow> 'e gen \<Rightarrow> 'e rand_env \<Rightarrow> (run_stop + u64 \<times> 'e gen \<times> 'e rand_env) option" where
  "next_key_loop lib basis g env =
     (case gen_Next lib basis g env of
        Inl e \<Rightarrow> Some (Inl e)
      | Inr r \<Rightarrow> (case r of (key_num, g', env') \<Rightarrow>
          if key_num > Counter_Last basis then next_key_loop lib basis g' env' else Some (Inr (key_num, g', env'))))"

declare next_key_loop.simps [code]

definition NextTransactionKey ::
    "'e random_lib \<Rightarrow> 'e core_workload \<Rightarrow> 'e rand_env \<Rightarrow> run_stop + string \<times> 'e core_workload \<times> 'e rand_env" where
  "NextTransactionKey lib wl env =
     (case wl_key_chooser wl of
        None \<Rightarrow> Inl Stop_Undefined
      | Some g \<Rightarrow>
          (case next_key_loop lib (wl_insert_key_sequence wl) g env of
             None \<Rightarrow> Inl Stop_Diverges
           | Some r \<Rightarrow> andthen r (\<lambda>(key_num, g', env').
               Inr (BuildKeyName wl key_num, wl\<lparr>wl_key_chooser := Some g'\<rparr>, env'))))"

definition NextOperation ::
    "'e random_lib \<Rightarrow> 'e core_workload \<Rightarrow> 'e rand_env \<Rightarrow> run_stop + operation \<times> 'e core_workload \<times> 'e rand_env" where
  "NextOperation lib wl env =
     (case RandomDouble lib env of (chooser, env') \<Rightarrow>
        andthen (or_stop Stop_Assert (Discrete_Next chooser (wl_op_chooser wl))) (\<lambda>(op, g).
          Inr (op, wl\<lparr>wl_op_chooser := g\<rparr>, env')))"

definition NextFieldName ::
    "'e random_lib \<Rightarrow> 'e core_workload \<Rightarrow> 'e rand_env \<Rightarrow> run_stop + string \<times> 'e core_workload \<times> 'e rand_env" where
  "NextFieldName lib wl env =
     andthen (call_gen lib wl (wl_field_chooser wl) env) (\<lambda>(i, g, env').
       Inr (''field'' @ to_string (unat i), wl\<lparr>wl_field_chooser := Some g\<rparr>, env'))"

definition NextScanLength ::
    "'e random_lib \<Rightarrow> 'e core_workload \<Rightarrow> 'e rand_env \<Rightarrow> run_stop + u64 \<times> 'e core_workload \<times> 'e rand_env" where
  "NextScanLength lib wl env =
     andthen (call_gen lib wl (wl_scan_len_chooser wl) env) (\<lambda>(n, g, env').
       Inr (n, wl\<lparr>wl_scan_len_chooser := Some g\<rparr>, env'))"

text \<open>\<open>append(field_len_generator_->Next(), RandomPrintChar())\<close> on an empty string.\<close>

definition next_value ::
    "'e random_lib \<Rightarrow> 'e core_workload \<Rightarrow> 'e rand_env \<Rightarrow> run_stop + string \<times> 'e core_workload \<times> 'e rand_env" where
  "next_value lib wl env =
     andthen (call_gen lib wl (wl_field_len_generator wl) env) (\<lambda>(n, g, env1).
       case PrintChar lib env1 of (c, env2) \<Rightarrow>
         Inr (replicate (unat n) c, wl\<lparr>wl_field_len_generator := Some g\<rparr>, env2))"

primrec build_values_loop ::
    "'e random_lib \<Rightarrow> nat \<Rightarrow> nat \<Rightarrow> kvpair list \<Rightarrow> 'e core_workload \<Rightarrow> 'e rand_env
       \<Rightarrow> run_stop + kvpair list \<times> 'e core_workload \<times> 'e rand_env" where
  "build_values_loop lib 0 i kvs wl env = Inr (kvs, wl, env)"
| "build_values_loop lib (Suc n) i kvs wl env =
     andthen (next_value lib wl env) (\<lambda>(v, wl', env').
       build_values_loop lib n (Suc i) (kvs @ [(''field'' @ to_string i, v)]) wl' env')"

definition BuildValues ::
    "'e random_lib \<Rightarrow> kvpair list \<Rightarrow> 'e core_workload \<Rightarrow> 'e rand_env
       \<Rightarrow> run_stop + kvpair list \<times> 'e core_workload \<times> 'e rand_env" where
  "BuildValues lib kvs wl env = build_values_loop lib (nat (wl_field_count wl)) 0 kvs wl env"

definition BuildUpdate ::
    "'e random_lib \<Rightarrow> kvpair list \<Rightarrow> 'e core_workload \<Rightarrow> 'e rand_env
       \<Rightarrow> run_stop + kvpair list \<times> 'e core_workload \<times> 'e rand_env" where
  "BuildUpdate lib kvs wl env =
     andthen (NextFieldName lib wl env) (\<lambda>(name, wl1, env1).
     andthen (next_value lib wl1 env1) (\<lambda>(v, wl2, env2).
       Inr (kvs @ [(name, v)], wl2, env2)))"

section \<open>The contract of a generator pointer\<close>

fun gen_ok :: "'e random_lib \<Rightarrow> counter_generator \<Rightarrow> 'e gen \<Rightarrow> bool" where
  "gen_ok lib basis (GConst g) \<longleftrightarrow> True"
| "gen_ok lib basis (GCounter g) \<longleftrightarrow> True"
| "gen_ok lib basis (GUniform g) \<longleftrightarrow> u_min g \<le> u_max g"
| "gen_ok lib basis (GZipf g) \<longleftrightarrow> zipf_ok g"
| "gen_ok lib basis (GScrambled g) \<longleftrightarrow> scrambled_ok g"
| "gen_ok lib basis (GSkewed g) \<longleftrightarrow> skewed_ok g \<and> 2 \<le> Counter_Last basis \<and> Counter_Last basis < kMaxNumItems"

fun gen_range :: "counter_generator \<Rightarrow> 'e gen \<Rightarrow> u64 set" where
  "gen_range basis (GConst g) = {c_constant g}"
| "gen_range basis (GCounter g) = UNIV"
| "gen_range basis (GUniform g) = {u_min g..u_max g}"
| "gen_range basis (GZipf g) = zipf_range (z_base g) (z_num_items g) (z_num_items g)"
| "gen_range basis (GScrambled g) =
     {v. unat (s_base g) \<le> unat v \<and> unat v < unat (s_base g) + unat (s_num_items g)}"
| "gen_range basis (GSkewed g) = {..Counter_Last basis}"

lemma RandomDouble_unit:
  assumes "random_lib_ok lib"
  shows "\<exists>u env'. RandomDouble lib env = (u, env') \<and> unit_draw u"
  using assms by (auto simp: RandomDouble_def random_lib_ok_def split: prod.splits) (metis fst_conv)+

definition gen_nxt ::
    "'e random_lib \<Rightarrow> counter_generator \<Rightarrow> unit \<Rightarrow> 'e gen \<times> 'e rand_env \<Rightarrow> (u64 \<times> 'e gen \<times> 'e rand_env) option" where
  "gen_nxt lib basis = (\<lambda>_ (g, env). case gen_Next lib basis g env of Inl _ \<Rightarrow> None | Inr r \<Rightarrow> Some r)"

lemma gen_Next_correct:
  assumes "random_lib_ok lib" "gen_ok lib basis g"
  shows "\<exists>v g' env'. gen_Next lib basis g env = Inr (v, g', env') \<and> gen_ok lib basis g' \<and> v \<in> gen_range basis g
    \<and> gen_range basis g' = gen_range basis g \<and> gen_Last g' = v"
proof -
  obtain u env1 where u: "RandomDouble lib env = (u, env1)" "unit_draw u"
    using RandomDouble_unit [OF assms(1)] by blast
  show ?thesis
  proof (cases g)
    case (GUniform x)
    then show ?thesis
      using uniform_gen.step [of lib x] assms by (auto split: prod.splits)
  next
    case (GZipf x)
    then show ?thesis
      using zipfian_gen.step [of x u] assms u by auto
  next
    case (GScrambled x)
    then show ?thesis
      using Scrambled_Next_correct [of x u] assms u by auto
  next
    case (GSkewed x)
    then show ?thesis
      using Skewed_Next_correct [of x u basis] assms u by auto
  qed (auto simp: Const_Next_def Const_Last_def Counter_Next_def Counter_Last_def)
qed

interpretation workload_gen: generator "gen_nxt lib basis" "gen_Last \<circ> fst"
    "\<lambda>(g, env). random_lib_ok lib \<and> gen_ok lib basis g" "\<lambda>_. True" "gen_range basis \<circ> fst" for lib basis
proof unfold_locales
  fix x :: "'a gen \<times> 'a rand_env" and i :: unit
  assume "case x of (g, env) \<Rightarrow> random_lib_ok lib \<and> gen_ok lib basis g"
  then show "\<exists>v x'. gen_nxt lib basis i x = Some (v, x')
      \<and> (case x' of (g, env) \<Rightarrow> random_lib_ok lib \<and> gen_ok lib basis g)
      \<and> v \<in> (gen_range basis \<circ> fst) x \<and> (gen_range basis \<circ> fst) x' = (gen_range basis \<circ> fst) x
      \<and> (gen_Last \<circ> fst) x' = v"
    using gen_Next_correct [of lib basis "fst x" "snd x"] by (cases x) (auto simp: gen_nxt_def)
qed

section \<open>The loop over keys\<close>

lemma next_key_loop_hits:
  assumes "random_lib_ok lib" "gen_ok lib basis g"
    "gen_run (gen_nxt lib basis) (replicate n ()) (g, env) = Some (vs, x)" "v \<in> set vs" "v \<le> Counter_Last basis"
  shows "\<exists>g' env'. next_key_loop lib basis g env = Some (Inr (hd (filter (\<lambda>k. k \<le> Counter_Last basis) vs), g', env'))
    \<and> gen_ok lib basis g' \<and> gen_range basis g' = gen_range basis g"
  using assms(2-)
proof (induction n arbitrary: g env vs)
  case (Suc n)
  obtain k g1 env1 where nxt: "gen_Next lib basis g env = Inr (k, g1, env1)" "gen_ok lib basis g1"
    "gen_range basis g1 = gen_range basis g"
    using gen_Next_correct [OF assms(1) Suc.prems(1)] by blast
  with Suc.prems(2) obtain ks where vs: "vs = k # ks"
    and run: "gen_run (gen_nxt lib basis) (replicate n ()) (g1, env1) = Some (ks, x)"
    by (auto simp: gen_nxt_def split: option.splits)
  show ?case
  proof (cases "k \<le> Counter_Last basis")
    case True
    then have "\<not> Counter_Last basis < k" by simp
    with True nxt show ?thesis by (subst next_key_loop.simps) (simp add: vs)
  next
    case False
    then have "v \<in> set ks" using Suc.prems(3,4) vs by auto
    from Suc.IH [OF nxt(2) run this Suc.prems(4)] False nxt show ?thesis
      by (subst next_key_loop.simps) (auto simp: vs)
  qed
qed simp

section \<open>The invariant of a workload\<close>

definition ptr_ok :: "'e random_lib \<Rightarrow> 'e core_workload \<Rightarrow> 'e gen option \<Rightarrow> bool" where
  "ptr_ok lib wl ptr \<longleftrightarrow> (\<exists>g. ptr = Some g \<and> gen_ok lib (wl_insert_key_sequence wl) g)"

text \<open>
  From every state of the key chooser and of the random numbers, some draw is the number of an existing
  key. That holds without further assumptions when every number the chooser can draw is one.
\<close>

definition key_gen_hits :: "'e random_lib \<Rightarrow> counter_generator \<Rightarrow> u64 set \<Rightarrow> bool" where
  "key_gen_hits lib basis R \<longleftrightarrow>
     (\<forall>g env. gen_ok lib basis g \<and> gen_range basis g = R \<longrightarrow>
        (\<exists>n vs x v. gen_run (gen_nxt lib basis) (replicate n ()) (g, env) = Some (vs, x)
           \<and> v \<in> set vs \<and> v \<le> Counter_Last basis))"

definition keys_found :: "'e random_lib \<Rightarrow> 'e core_workload \<Rightarrow> bool" where
  "keys_found lib wl \<longleftrightarrow>
     key_gen_hits lib (wl_insert_key_sequence wl) (gen_range (wl_insert_key_sequence wl) (the (wl_key_chooser wl)))"

lemma key_gen_hits_covered:
  assumes "random_lib_ok lib" "R \<subseteq> {..Counter_Last basis}"
  shows "key_gen_hits lib basis R"
  unfolding key_gen_hits_def
proof (intro allI impI)
  fix g env assume g: "gen_ok lib basis g \<and> gen_range basis g = R"
  then obtain v g' env' where "gen_Next lib basis g env = Inr (v, g', env')" "v \<in> R"
    using gen_Next_correct [OF assms(1)] by blast
  with assms(2) have "gen_run (gen_nxt lib basis) (replicate 1 ()) (g, env) = Some ([v], g', env')" "v \<le> Counter_Last basis"
    by (auto simp: gen_nxt_def)
  then show "\<exists>n vs x v. gen_run (gen_nxt lib basis) (replicate n ()) (g, env) = Some (vs, x)
      \<and> v \<in> set vs \<and> v \<le> Counter_Last basis"
    by (metis list.set_intros(1))
qed

definition chooser_ok :: "'v discrete_generator \<Rightarrow> bool" where
  "chooser_ok g \<longleftrightarrow> 0 < d_sum g \<and> d_sum g = sum_list (map snd (d_values g))"

definition workload_ok :: "'e random_lib \<Rightarrow> 'e core_workload \<Rightarrow> bool" where
  "workload_ok lib wl \<longleftrightarrow>
     random_lib_ok lib \<and> wl_field_count wl \<le> INT32_MAX
     \<and> ptr_ok lib wl (wl_field_len_generator wl) \<and> ptr_ok lib wl (wl_key_generator wl)
     \<and> ptr_ok lib wl (wl_key_chooser wl) \<and> ptr_ok lib wl (wl_field_chooser wl)
     \<and> ptr_ok lib wl (wl_scan_len_chooser wl) \<and> chooser_ok (wl_op_chooser wl)"

definition workload_inv :: "'e random_lib \<Rightarrow> 'e core_workload \<Rightarrow> bool" where
  "workload_inv lib wl \<longleftrightarrow> workload_ok lib wl \<and> keys_found lib wl"

text \<open>What no call changes.\<close>

definition same_settings :: "'e core_workload \<Rightarrow> 'e core_workload \<Rightarrow> bool" where
  "same_settings wl wl' \<longleftrightarrow>
     wl_table_name wl' = wl_table_name wl \<and> wl_field_count wl' = wl_field_count wl
     \<and> wl_read_all_fields wl' = wl_read_all_fields wl \<and> wl_write_all_fields wl' = wl_write_all_fields wl
     \<and> wl_insert_key_sequence wl' = wl_insert_key_sequence wl \<and> wl_ordered_inserts wl' = wl_ordered_inserts wl
     \<and> wl_record_count wl' = wl_record_count wl"

lemma same_settings_refl [simp]: "same_settings wl wl"
  by (simp add: same_settings_def)

lemma same_settings_trans [trans]: "same_settings a b \<Longrightarrow> same_settings b c \<Longrightarrow> same_settings a c"
  by (simp add: same_settings_def)

lemma call_gen_correct:
  assumes "workload_inv lib wl" "ptr_ok lib wl ptr"
  shows "\<exists>v g env'. call_gen lib wl ptr env = Inr (v, g, env') \<and> ptr_ok lib wl (Some g)
    \<and> v \<in> gen_range (wl_insert_key_sequence wl) (the ptr)
    \<and> gen_range (wl_insert_key_sequence wl) g = gen_range (wl_insert_key_sequence wl) (the ptr)"
proof -
  obtain g where "ptr = Some g" "gen_ok lib (wl_insert_key_sequence wl) g" using assms(2) by (auto simp: ptr_ok_def)
  moreover have "random_lib_ok lib" using assms(1) by (simp add: workload_inv_def workload_ok_def)
  ultimately show ?thesis
    using gen_Next_correct [of lib "wl_insert_key_sequence wl" g env] by (auto simp: call_gen_def ptr_ok_def)
qed

lemmas workload_frame = workload_inv_def workload_ok_def ptr_ok_def keys_found_def same_settings_def

lemma NextSequenceKey_correct:
  assumes "workload_inv lib wl"
  shows "\<exists>key wl' env'. NextSequenceKey lib wl env = Inr (key, wl', env') \<and> workload_inv lib wl' \<and> same_settings wl wl'"
proof -
  have "ptr_ok lib wl (wl_key_generator wl)" using assms by (simp add: workload_inv_def workload_ok_def)
  from call_gen_correct [OF assms this, of env] assms show ?thesis
    by (auto simp: NextSequenceKey_def workload_frame)
qed

lemma NextTransactionKey_correct:
  assumes "workload_inv lib wl"
  shows "\<exists>k wl' env'. NextTransactionKey lib wl env = Inr (BuildKeyName wl k, wl', env')
    \<and> k \<le> Counter_Last (wl_insert_key_sequence wl) \<and> workload_inv lib wl' \<and> same_settings wl wl'"
proof -
  let ?b = "wl_insert_key_sequence wl"
  obtain g where g: "wl_key_chooser wl = Some g" "gen_ok lib ?b g" "random_lib_ok lib" "key_gen_hits lib ?b (gen_range ?b g)"
    using assms by (auto simp: workload_frame)
  then obtain n vs x v where "gen_run (gen_nxt lib ?b) (replicate n ()) (g, env) = Some (vs, x)" "v \<in> set vs" "v \<le> Counter_Last ?b"
    unfolding key_gen_hits_def by blast
  from next_key_loop_hits [OF g(3,2) this] obtain g' env' where
    loop: "next_key_loop lib ?b g env = Some (Inr (hd (filter (\<lambda>k. k \<le> Counter_Last ?b) vs), g', env'))"
      "gen_ok lib ?b g'" "gen_range ?b g' = gen_range ?b g" by blast
  have "hd (filter (\<lambda>k. k \<le> Counter_Last ?b) vs) \<le> Counter_Last ?b"
    using hd_in_set [of "filter (\<lambda>k. k \<le> Counter_Last ?b) vs"] \<open>v \<in> set vs\<close> \<open>v \<le> Counter_Last ?b\<close>
    by (auto simp: filter_empty_conv)
  with loop g(1) assms show ?thesis
    by (auto simp: NextTransactionKey_def workload_frame)
qed

lemma NextFieldName_correct:
  assumes "workload_inv lib wl"
  shows "\<exists>name wl' env'. NextFieldName lib wl env = Inr (name, wl', env') \<and> workload_inv lib wl' \<and> same_settings wl wl'
    \<and> length name < 2 ^ 64"
proof -
  have "ptr_ok lib wl (wl_field_chooser wl)" using assms by (simp add: workload_inv_def workload_ok_def)
  from call_gen_correct [OF assms this, of env] assms show ?thesis
    by (auto simp: NextFieldName_def workload_frame intro!: le_less_trans [OF length_to_string_u64])
qed

lemma NextScanLength_correct:
  assumes "workload_inv lib wl"
  shows "\<exists>n wl' env'. NextScanLength lib wl env = Inr (n, wl', env') \<and> workload_inv lib wl' \<and> same_settings wl wl'"
proof -
  have "ptr_ok lib wl (wl_scan_len_chooser wl)" using assms by (simp add: workload_inv_def workload_ok_def)
  from call_gen_correct [OF assms this, of env] assms show ?thesis
    by (auto simp: NextScanLength_def workload_frame)
qed

text \<open>A field value: one printable character, repeated a number of times the generator can draw.\<close>

definition value_ok :: "u64 set \<Rightarrow> string \<Rightarrow> bool" where
  "value_ok R v \<longleftrightarrow>
     (\<exists>n c. v = replicate (unat n) c \<and> n \<in> R \<and> 33 \<le> (of_char c :: nat) \<and> of_char c \<le> (126 :: nat))"

abbreviation length_range :: "'e core_workload \<Rightarrow> u64 set" where
  "length_range wl \<equiv> gen_range (wl_insert_key_sequence wl) (the (wl_field_len_generator wl))"

lemma next_value_correct:
  assumes "workload_inv lib wl"
  shows "\<exists>v wl' env'. next_value lib wl env = Inr (v, wl', env') \<and> value_ok (length_range wl) v
    \<and> workload_inv lib wl' \<and> same_settings wl wl' \<and> length_range wl' = length_range wl"
proof -
  have "ptr_ok lib wl (wl_field_len_generator wl)" using assms by (simp add: workload_inv_def workload_ok_def)
  from call_gen_correct [OF assms this, of env] obtain n g env1 where
    n: "call_gen lib wl (wl_field_len_generator wl) env = Inr (n, g, env1)" "ptr_ok lib wl (Some g)"
    "n \<in> length_range wl" "gen_range (wl_insert_key_sequence wl) g = length_range wl"
    by blast
  obtain c env2 where c: "PrintChar lib env1 = (c, env2)" by (cases "PrintChar lib env1")
  then obtain r where "c = RandomPrintChar r" by (auto simp: PrintChar_def split: prod.splits)
  moreover have "of_char (RandomPrintChar r) = (r mod 94 + 33 :: nat)"
    by (simp add: RandomPrintChar_def)
  ultimately have "33 \<le> (of_char c :: nat)" "of_char c \<le> (126 :: nat)" by simp_all
  with n(3) have "value_ok (length_range wl) (replicate (unat n) c)" unfolding value_ok_def by blast
  with n c assms show ?thesis
    by (auto simp: next_value_def workload_frame)
qed

lemma NextOperation_correct:
  assumes "workload_inv lib wl"
  shows "\<exists>op wl' env'. NextOperation lib wl env = Inr (op, wl', env') \<and> workload_inv lib wl' \<and> same_settings wl wl'
    \<and> op \<in> fst ` set (d_values (wl_op_chooser wl))"
proof -
  let ?g = "wl_op_chooser wl"
  have g: "0 < d_sum ?g" "d_sum ?g = sum_list (map snd (d_values ?g))" "random_lib_ok lib"
    using assms by (simp_all add: workload_inv_def workload_ok_def chooser_ok_def)
  obtain u env' where u: "RandomDouble lib env = (u, env')" "unit_draw u" using RandomDouble_unit [OF g(3)] by blast
  then have "u * d_sum ?g < sum_list (map snd (d_values ?g))" using g(1,2) by simp
  from discrete_loop_choice [OF g(1) _ this] u obtain i where
    "i < length (d_values ?g)" "discrete_loop (d_values ?g) (d_sum ?g) u = Some (fst (d_values ?g ! i))" by auto
  with u assms show ?thesis
    by (auto simp: NextOperation_def Discrete_Next_def workload_frame chooser_ok_def)
qed

section \<open>Built values\<close>

definition field_name :: "nat \<Rightarrow> string" where
  "field_name i = ''field'' @ to_string i"

lemma field_name_inject [simp]: "field_name i = field_name j \<longleftrightarrow> i = j"
  by (simp add: field_name_def)

lemma value_ok_length: "value_ok R v \<Longrightarrow> length v < 2 ^ 64"
proof -
  assume "value_ok R v"
  then obtain n :: u64 and c where "v = replicate (unat n) c" by (auto simp: value_ok_def)
  then show ?thesis using unsigned_less [of n] by simp
qed

lemma build_values_loop_correct:
  assumes "workload_inv lib wl"
  shows "\<exists>vs wl' env'. build_values_loop lib n i kvs wl env = Inr (kvs @ zip (map field_name [i..<i + n]) vs, wl', env')
    \<and> length vs = n \<and> list_all (value_ok (length_range wl)) vs \<and> workload_inv lib wl' \<and> same_settings wl wl'"
  using assms
proof (induction n arbitrary: i kvs wl env)
  case (Suc n)
  obtain v wl1 env1 where v: "next_value lib wl env = Inr (v, wl1, env1)" "value_ok (length_range wl) v"
    and wl1: "workload_inv lib wl1" "same_settings wl wl1" "length_range wl1 = length_range wl"
    using next_value_correct [OF Suc.prems, of env] by blast
  obtain vs wl' env' where
    "build_values_loop lib n (Suc i) (kvs @ [(field_name i, v)]) wl1 env1
       = Inr ((kvs @ [(field_name i, v)]) @ zip (map field_name [Suc i..<Suc i + n]) vs, wl', env')"
    "length vs = n" "list_all (value_ok (length_range wl1)) vs" "workload_inv lib wl'" "same_settings wl1 wl'"
    using Suc.IH [OF wl1(1)] by blast
  moreover have "[i..<i + Suc n] = i # [Suc i..<Suc i + n]" by (simp add: upt_conv_Cons del: upt_Suc)
  ultimately show ?case
    unfolding build_values_loop.simps field_name_def [symmetric] v(1) using v(2) wl1
    by (intro exI [of _ "v # vs"] exI [of _ wl'] exI [of _ env']) (auto intro: same_settings_trans simp del: upt_Suc)
qed simp

lemma BuildValues_correct:
  assumes "workload_inv lib wl"
  shows "\<exists>vs wl' env'. BuildValues lib kvs wl env = Inr (kvs @ zip (map field_name [0..<nat (wl_field_count wl)]) vs, wl', env')
    \<and> length vs = nat (wl_field_count wl) \<and> list_all (value_ok (length_range wl)) vs
    \<and> workload_inv lib wl' \<and> same_settings wl wl'"
  using build_values_loop_correct [OF assms, of "nat (wl_field_count wl)" 0] by (simp add: BuildValues_def)

lemma BuildUpdate_correct:
  assumes "workload_inv lib wl"
  shows "\<exists>name v wl' env'. BuildUpdate lib kvs wl env = Inr (kvs @ [(name, v)], wl', env') \<and> length name < 2 ^ 64
    \<and> length v < 2 ^ 64 \<and> workload_inv lib wl' \<and> same_settings wl wl'"
proof -
  obtain name wl1 env1 where 1: "NextFieldName lib wl env = Inr (name, wl1, env1)" "workload_inv lib wl1"
    "same_settings wl wl1" "length name < 2 ^ 64"
    using NextFieldName_correct [OF assms] by blast
  obtain v wl2 env2 where 2: "next_value lib wl1 env1 = Inr (v, wl2, env2)" "value_ok (length_range wl1) v"
    "workload_inv lib wl2" "same_settings wl1 wl2"
    using next_value_correct [OF 1(2), of env1] by blast
  from 1 2 value_ok_length [OF 2(2)] show ?thesis
    by (auto simp: BuildUpdate_def intro: same_settings_trans)
qed

text \<open>What a client may pass to a database.\<close>

lemma zip_pairs_fit:
  assumes "length vs = n" "int n \<le> INT32_MAX" "list_all (\<lambda>v. length v < 2 ^ 64) vs"
  shows "list_all pair_fits (zip (map field_name [0..<n]) vs)" "length (zip (map field_name [0..<n]) vs) < 2 ^ 32"
proof -
  have names: "length (field_name i) < 2 ^ 64" if "i < n" for i
  proof -
    have "i < 10 ^ Suc 19" using that assms(2) by simp
    from length_to_string [OF this] show ?thesis by (simp add: field_name_def)
  qed
  show "list_all pair_fits (zip (map field_name [0..<n]) vs)"
    unfolding list_all_length pair_fits_def using names assms(1,3) by (simp add: list_all_length)
  show "length (zip (map field_name [0..<n]) vs) < 2 ^ 32" using assms by simp
qed

lemma BuildValues_fit:
  assumes "workload_inv lib wl"
  shows "\<exists>kvs wl' env'. BuildValues lib [] wl env = Inr (kvs, wl', env') \<and> list_all pair_fits kvs \<and> length kvs < 2 ^ 32
    \<and> workload_inv lib wl' \<and> same_settings wl wl'"
proof -
  obtain vs wl' env' where b: "BuildValues lib [] wl env = Inr (zip (map field_name [0..<nat (wl_field_count wl)]) vs, wl', env')"
    "length vs = nat (wl_field_count wl)" "list_all (value_ok (length_range wl)) vs" "workload_inv lib wl'" "same_settings wl wl'"
    using BuildValues_correct [OF assms, of "[]" env] by auto
  have "int (nat (wl_field_count wl)) \<le> INT32_MAX" using assms by (simp add: workload_inv_def workload_ok_def)
  moreover have "list_all (\<lambda>v. length v < 2 ^ 64) vs" using b(3) value_ok_length by (auto simp: list_all_iff)
  ultimately show ?thesis using zip_pairs_fit [OF b(2)] b by blast
qed

section \<open>Constructed generators\<close>

lemma new_uniform_ok:
  assumes "a \<le> b"
  shows "\<exists>g. new_uniform lib a b = Inr g \<and> gen_ok lib basis g \<and> gen_range basis g = {a..b}"
  using assms by (simp add: new_uniform_def UniformGenerator_def Uniform_Next_def case_prod_beta)

lemma kZipfianConst_unit: "0 < kZipfianConst" "kZipfianConst < 1"
  by (simp_all add: kZipfianConst_def)

lemma new_zipfian_ok:
  assumes "random_lib_ok lib" "2 \<le> b - a + 1" "b - a + 1 < kMaxNumItems" "unat a + unat (b - a + 1) < 2 ^ 64"
  shows "\<exists>g env'. new_zipfian lib a b env = Inr (g, env') \<and> gen_ok lib basis g
    \<and> gen_range basis g = zipf_range a (b - a + 1) (b - a + 1)"
proof -
  obtain u env' where u: "RandomDouble lib env = (u, env')" "unit_draw u" using RandomDouble_unit [OF assms(1)] by blast
  from ZipfianGenerator_correct [OF assms(2,3) kZipfianConst_unit u(2) assms(4)] u(1) show ?thesis
    by (auto simp: new_zipfian_def)
qed

lemma u64_below: "unat (x :: u64) < 2 ^ 64"
  using unsigned_less [of x] by simp

lemma zipfian_items_ok:
  assumes "2 \<le> n" "n < kMaxNumItems" "unit_draw u"
  shows "\<exists>g. ZipfianGenerator 0 (n - 1) kZipfianConst u = Some g \<and> zipf_ok g \<and> z_base g = 0 \<and> z_num_items g = n"
  using ZipfianGenerator_correct [where a = 0 and b = "n - 1", OF _ _ kZipfianConst_unit assms(3)] assms(1,2) u64_below [of n]
  by simp

lemma new_scrambled_ok:
  assumes "random_lib_ok lib" "2 \<le> n" "n < kMaxNumItems"
  shows "\<exists>g env'. new_scrambled lib n env = Inr (g, env') \<and> gen_ok lib basis g
    \<and> gen_range basis g = {v. unat v < unat n}"
proof -
  obtain u env' where u: "RandomDouble lib env = (u, env')" "unit_draw u" using RandomDouble_unit [OF assms(1)] by blast
  from zipfian_items_ok [OF assms(2,3) u(2)] show ?thesis
    using u(1) by (auto simp: new_scrambled_def ScrambledZipfianGenerator_items_def ScrambledZipfianGenerator_def scrambled_ok_def)
qed

lemma new_skewed_ok:
  assumes "random_lib_ok lib" "2 \<le> Counter_Last basis" "Counter_Last basis < kMaxNumItems"
  shows "\<exists>g env'. new_skewed lib basis env = Inr (g, env') \<and> gen_ok lib basis g
    \<and> gen_range basis g = {..Counter_Last basis}"
proof -
  let ?n = "Counter_Last basis"
  obtain u env1 where u: "RandomDouble lib env = (u, env1)" "unit_draw u" using RandomDouble_unit [OF assms(1)] by blast
  obtain u' env2 where u': "RandomDouble lib env1 = (u', env2)" "unit_draw u'" using RandomDouble_unit [OF assms(1)] by blast
  obtain z where z: "ZipfianGenerator 0 (?n - 1) kZipfianConst u = Some z" "zipf_ok z" "z_base z = 0"
    using zipfian_items_ok [OF assms(2,3) u(2)] by blast
  then have "skewed_ok \<lparr>k_zipfian = z, k_last = 0\<rparr>" by (simp add: skewed_ok_def zipf_ok_def)
  from Skewed_Next_correct [OF this u'(2) assms(2,3)] z(1) u(1) u'(1) assms(2,3) show ?thesis
    by (auto simp: new_skewed_def SkewedLatestGenerator_def ZipfianGenerator_items_def)
qed

section \<open>Initialised workloads\<close>

definition chooser_total :: "'v discrete_generator \<Rightarrow> real \<Rightarrow> bool" where
  "chooser_total g t \<longleftrightarrow> d_sum g = t \<and> sum_list (map snd (d_values g)) = t"

lemma add_operation_total: "chooser_total g t \<Longrightarrow> chooser_total (add_operation op w g) (t + max 0 w)"
  by (auto simp: chooser_total_def add_operation_def AddValue_def)

definition some_operation :: "workload_settings \<Rightarrow> bool" where
  "some_operation st \<longleftrightarrow> 0 < ws_read st \<or> 0 < ws_update st \<or> 0 < ws_insert st \<or> 0 < ws_scan st \<or> 0 < ws_readmodifywrite st"

lemma add_operations_ok:
  assumes "some_operation st"
  shows "chooser_ok (add_operations st DiscreteGenerator)"
proof -
  have "chooser_total (add_operations st DiscreteGenerator)
      (0 + max 0 (ws_read st) + max 0 (ws_update st) + max 0 (ws_insert st) + max 0 (ws_scan st) + max 0 (ws_readmodifywrite st))"
    unfolding add_operations_def
    by (intro add_operation_total) (simp add: chooser_total_def DiscreteGenerator_def)
  with assms show ?thesis
    unfolding chooser_total_def chooser_ok_def some_operation_def by linarith
qed

text \<open>
  Settings under which initialisation succeeds: \<open>fc\<close>, \<open>fl\<close> and \<open>st\<close> are what the properties say, and
  \<open>oc\<close> the operation count, read for a Zipfian key distribution only.
\<close>

definition field_length_valid :: "properties \<Rightarrow> bool" where
  "field_length_valid p \<longleftrightarrow>
     (\<exists>fl. c_stoi (GetProperty p FIELD_LENGTH_PROPERTY FIELD_LENGTH_DEFAULT) = Inr fl
        \<and> (let dist = GetProperty p FIELD_LENGTH_DISTRIBUTION_PROPERTY FIELD_LENGTH_DISTRIBUTION_DEFAULT in
           dist = ''constant'' \<or> dist = ''uniform'' \<and> 1 \<le> fl \<or> dist = ''zipfian'' \<and> 2 \<le> fl))"

lemma c_stoi_range: "c_stoi s = Inr v \<Longrightarrow> INT32_MIN \<le> v \<and> v \<le> INT32_MAX"
  by (auto simp: c_stoi_def Let_def split: prod.splits if_splits)

lemma word_of_small_int:
  assumes "0 \<le> v" "v < 2 ^ 64"
  shows "unat (word_of_int v :: u64) = nat v"
  using assms by (simp add: unsigned_of_int take_bit_int_eq_self)

lemma GetFieldLenGenerator_ok:
  assumes "random_lib_ok lib" "field_length_valid p"
  shows "\<exists>g env'. GetFieldLenGenerator lib p env = Inr (g, env') \<and> gen_ok lib basis g"
proof -
  obtain fl where fl: "c_stoi (GetProperty p FIELD_LENGTH_PROPERTY FIELD_LENGTH_DEFAULT) = Inr fl"
    "GetProperty p FIELD_LENGTH_DISTRIBUTION_PROPERTY FIELD_LENGTH_DISTRIBUTION_DEFAULT = ''constant''
     \<or> GetProperty p FIELD_LENGTH_DISTRIBUTION_PROPERTY FIELD_LENGTH_DISTRIBUTION_DEFAULT = ''uniform'' \<and> 1 \<le> fl
     \<or> GetProperty p FIELD_LENGTH_DISTRIBUTION_PROPERTY FIELD_LENGTH_DISTRIBUTION_DEFAULT = ''zipfian'' \<and> 2 \<le> fl"
    using assms(2) by (auto simp: field_length_valid_def Let_def)
  note range = c_stoi_range [OF fl(1)]
  from fl(2) show ?thesis
  proof (elim disjE conjE)
    assume "1 \<le> fl"
    then have "(1 :: u64) \<le> word_of_int fl" using range by (simp add: word_le_nat_alt word_of_small_int)
    moreover assume "GetProperty p FIELD_LENGTH_DISTRIBUTION_PROPERTY FIELD_LENGTH_DISTRIBUTION_DEFAULT = ''uniform''"
    ultimately show ?thesis
      using new_uniform_ok [of 1 "word_of_int fl" lib basis] fl(1) by (auto simp: GetFieldLenGenerator_def)
  next
    assume "2 \<le> fl"
    then have n: "unat (word_of_int fl :: u64) = nat fl" using range by (simp add: word_of_small_int)
    then have "2 \<le> word_of_int fl - 1 + (1 :: u64)" "word_of_int fl - 1 + (1 :: u64) < kMaxNumItems"
      "unat (1 :: u64) + unat (word_of_int fl - 1 + (1 :: u64)) < 2 ^ 64"
      using \<open>2 \<le> fl\<close> range by (simp_all add: u64_two_le word_less_nat_alt kMaxNumItems_def)
    from new_zipfian_ok [OF assms(1) this]
    show ?thesis
      if "GetProperty p FIELD_LENGTH_DISTRIBUTION_PROPERTY FIELD_LENGTH_DISTRIBUTION_DEFAULT = ''zipfian''"
      using that fl(1) by (fastforce simp: GetFieldLenGenerator_def)
  qed (simp add: GetFieldLenGenerator_def fl(1))
qed

definition key_distribution_valid :: "properties \<Rightarrow> workload_settings \<Rightarrow> bool" where
  "key_distribution_valid p st \<longleftrightarrow>
     ws_request_dist st = ''uniform''
     \<or> ws_request_dist st = ''latest'' \<and> 3 \<le> ws_record_count st
     \<or> ws_request_dist st = ''zipfian''
         \<and> (\<exists>oc nk. c_stoi (GetProperty p OPERATION_COUNT_PROPERTY '''') = Inr oc
              \<and> double_to_int (real_of_int oc * ws_insert st * 2) = Some nk \<and> 2 \<le> ws_record_count st + nk)"

lemma double_to_int_range: "double_to_int x = Some n \<Longrightarrow> n \<le> INT32_MAX"
proof -
  assume "double_to_int x = Some n"
  then have "x < real_of_int INT32_MAX + 1" "n = c_trunc x" by (auto simp: double_to_int_def split: if_splits)
  moreover have "real_of_int INT32_MAX + 1 = 2147483648" by simp
  ultimately show ?thesis by (auto simp: c_trunc_def)
qed

lemma make_key_chooser_ok:
  assumes "random_lib_ok lib" "key_distribution_valid p st" "ws_record_count st \<le> INT32_MAX"
    "wl_record_count wl = word_of_int (ws_record_count st)"
    "Counter_Last (wl_insert_key_sequence wl) = word_of_int (ws_record_count st) - 1"
  shows "\<exists>g env'. make_key_chooser lib p st wl env = Inr (g, env') \<and> gen_ok lib (wl_insert_key_sequence wl) g
    \<and> (ws_request_dist st = ''zipfian'' \<and> ws_insert st \<noteq> 0 \<or>
       gen_range (wl_insert_key_sequence wl) g \<subseteq> {..Counter_Last (wl_insert_key_sequence wl)})"
proof -
  let ?b = "wl_insert_key_sequence wl" and ?rc = "ws_record_count st"
  have last_unat: "unat (Counter_Last ?b) = nat (?rc - 1)" if "1 \<le> ?rc"
  proof -
    have "Counter_Last ?b = word_of_int (?rc - 1)" using assms(5) by (simp add: wi_hom_syms)
    also have "unat \<dots> = nat (?rc - 1)" using that assms(3) by (intro word_of_small_int) simp_all
    finally show ?thesis .
  qed
  from assms(2) show ?thesis
    unfolding key_distribution_valid_def
  proof (elim disjE conjE exE)
    assume "ws_request_dist st = ''uniform''"
    then show ?thesis
      using new_uniform_ok [of 0 "wl_record_count wl - 1" lib ?b] assms(4,5) by (auto simp: make_key_chooser_def)
  next
    assume latest: "ws_request_dist st = ''latest''" and rc: "3 \<le> ?rc"
    have "unat (Counter_Last ?b) = nat (?rc - 1)" using last_unat rc by simp
    then have "2 \<le> Counter_Last ?b" "Counter_Last ?b < kMaxNumItems"
      using rc assms(3) by (simp_all add: u64_two_le word_less_nat_alt kMaxNumItems_def)
    from new_skewed_ok [OF assms(1) this, of env] latest show ?thesis by (auto simp: make_key_chooser_def)
  next
    fix oc nk
    assume zipf: "ws_request_dist st = ''zipfian''" and oc: "c_stoi (GetProperty p OPERATION_COUNT_PROPERTY '''') = Inr oc"
      and nk: "double_to_int (real_of_int oc * ws_insert st * 2) = Some nk" and n: "2 \<le> ?rc + nk"
    define w :: u64 where "w = word_of_int (?rc + nk)"
    have sum: "wl_record_count wl + word_of_int nk = w" using assms(4) by (simp add: w_def wi_hom_syms)
    have un: "unat w = nat (?rc + nk)"
      unfolding w_def using n assms(3) double_to_int_range [OF nk] by (intro word_of_small_int) simp_all
    then have "2 \<le> w" "w < kMaxNumItems"
      using n assms(3) double_to_int_range [OF nk] by (simp_all add: u64_two_le word_less_nat_alt kMaxNumItems_def)
    from new_scrambled_ok [OF assms(1) this, of env ?b] obtain g env' where
      g: "new_scrambled lib w env = Inr (g, env')" "gen_ok lib ?b g" "gen_range ?b g = {v. unat v < nat (?rc + nk)}"
      by (auto simp: un)
    have "gen_range ?b g \<subseteq> {..Counter_Last ?b}" if "ws_insert st = 0"
    proof -
      have "nk = 0" using nk that by (simp add: double_to_int_def c_trunc_def)
      moreover have "unat (Counter_Last ?b) = nat (?rc - 1)"
        using last_unat n assms(3) \<open>nk = 0\<close> by simp
      ultimately show ?thesis using g(3) n by (auto simp: word_le_nat_alt)
    qed
    with g zipf oc nk show ?thesis by (auto simp: make_key_chooser_def sum)
  qed
qed

lemma Workload_Init_ok:
  assumes "random_lib_ok lib" "c_stoi (GetProperty p FIELD_COUNT_PROPERTY FIELD_COUNT_DEFAULT) = Inr fc"
    "field_length_valid p" "read_settings p = Inr st" "some_operation st" "ws_record_count st \<le> INT32_MAX"
    "key_distribution_valid p st" "ws_scan_len_dist st = ''uniform''"
  shows "\<exists>wl env'. Workload_Init lib p CoreWorkload env = Inr (wl, env') \<and> workload_ok lib wl
    \<and> wl_field_count wl = fc \<and> wl_table_name wl = GetProperty p TABLENAME_PROPERTY TABLENAME_DEFAULT
    \<and> wl_key_generator wl = Some (GCounter (CounterGenerator (word_of_int (ws_insert_start st))))
    \<and> Counter_Last (wl_insert_key_sequence wl) = word_of_int (ws_record_count st) - 1
    \<and> wl_ordered_inserts wl = (GetProperty p INSERT_ORDER_PROPERTY INSERT_ORDER_DEFAULT \<noteq> ''hashed'')
    \<and> (ws_request_dist st = ''zipfian'' \<and> ws_insert st \<noteq> 0 \<or> keys_found lib wl)"
proof -
  define b where "b = Counter_Set (word_of_int (ws_record_count st)) (CounterGenerator 3)"
  have last: "Counter_Last b = word_of_int (ws_record_count st) - 1"
    by (simp add: b_def Counter_Last_def Counter_Set_def)
  obtain fg env1 where fg: "GetFieldLenGenerator lib p env = Inr (fg, env1)" "gen_ok lib b fg"
    using GetFieldLenGenerator_ok [OF assms(1,3)] by blast
  define wl1 where "wl1 = CoreWorkload\<lparr>wl_table_name := GetProperty p TABLENAME_PROPERTY TABLENAME_DEFAULT,
      wl_field_count := fc, wl_field_len_generator := Some fg, wl_record_count := word_of_int (ws_record_count st),
      wl_read_all_fields := ws_read_all_fields st, wl_write_all_fields := ws_write_all_fields st,
      wl_ordered_inserts := (GetProperty p INSERT_ORDER_PROPERTY INSERT_ORDER_DEFAULT \<noteq> ''hashed''),
      wl_key_generator := Some (GCounter (CounterGenerator (word_of_int (ws_insert_start st)))),
      wl_op_chooser := add_operations st (wl_op_chooser CoreWorkload),
      wl_insert_key_sequence := b\<rparr>"
  have basis: "wl_insert_key_sequence wl1 = b" by (simp add: wl1_def)
  obtain kg env2 where kg: "make_key_chooser lib p st wl1 env1 = Inr (kg, env2)" "gen_ok lib b kg"
    "ws_request_dist st = ''zipfian'' \<and> ws_insert st \<noteq> 0 \<or> gen_range b kg \<subseteq> {..Counter_Last b}"
    using make_key_chooser_ok [OF assms(1,7,6), of wl1 env1] last by (auto simp: wl1_def)
  obtain cg where cg: "new_uniform lib 0 (word_of_int (fc - 1)) = Inr cg" "gen_ok lib b cg"
    using new_uniform_ok [of 0 "word_of_int (fc - 1)" lib b] by auto
  obtain sg where sg: "make_scan_len_chooser lib st env2 = Inr (sg, env2)" "gen_ok lib b sg"
    using new_uniform_ok [of "word_of_int (ws_max_scan_len st)" "word_of_int (ws_max_scan_len st)" lib b] assms(8)
    by (auto simp: make_scan_len_chooser_def)
  define wl where "wl = wl1\<lparr>wl_key_chooser := Some kg, wl_field_chooser := Some cg, wl_scan_len_chooser := Some sg\<rparr>"
  have "Workload_Init lib p CoreWorkload env = Inr (wl, env2)"
    unfolding Workload_Init_def assms(2) or_throw_simps andthen_simps fg(1) prod.case assms(4) Let_def
    using kg(1) cg(1) sg(1) by (simp add: wl_def wl1_def b_def CoreWorkload_def)
  moreover have "workload_ok lib wl"
    using assms(1) c_stoi_range [OF assms(2)] fg(2) kg(2) cg(2) sg(2) add_operations_ok [OF assms(5)]
    by (simp add: workload_ok_def wl_def wl1_def ptr_ok_def CoreWorkload_def)
  moreover have "ws_request_dist st = ''zipfian'' \<and> ws_insert st \<noteq> 0 \<or> keys_found lib wl"
    using kg(3) key_gen_hits_covered [OF assms(1)] by (auto simp: keys_found_def wl_def wl1_def)
  ultimately show ?thesis
    using last by (simp add: wl_def wl1_def)
qed

section \<open>Runs of a workload\<close>

datatype wl_call =
    Call_SequenceKey
  | Call_TransactionKey
  | Call_Operation
  | Call_FieldName
  | Call_ScanLength
  | Call_BuildValues
  | Call_BuildUpdate

fun wl_exec :: "'e random_lib \<Rightarrow> wl_call \<Rightarrow> 'e core_workload \<times> 'e rand_env \<Rightarrow> run_stop + 'e core_workload \<times> 'e rand_env" where
  "wl_exec lib Call_SequenceKey (wl, env) = map_sum id snd (NextSequenceKey lib wl env)"
| "wl_exec lib Call_TransactionKey (wl, env) = map_sum id snd (NextTransactionKey lib wl env)"
| "wl_exec lib Call_Operation (wl, env) = map_sum id snd (NextOperation lib wl env)"
| "wl_exec lib Call_FieldName (wl, env) = map_sum id snd (NextFieldName lib wl env)"
| "wl_exec lib Call_ScanLength (wl, env) = map_sum id snd (NextScanLength lib wl env)"
| "wl_exec lib Call_BuildValues (wl, env) = map_sum id snd (BuildValues lib [] wl env)"
| "wl_exec lib Call_BuildUpdate (wl, env) = map_sum id snd (BuildUpdate lib [] wl env)"

primrec wl_run :: "'e random_lib \<Rightarrow> wl_call list \<Rightarrow> 'e core_workload \<times> 'e rand_env \<Rightarrow> run_stop + 'e core_workload \<times> 'e rand_env" where
  "wl_run lib [] x = Inr x"
| "wl_run lib (c # cs) x = andthen (wl_exec lib c x) (wl_run lib cs)"

lemma wl_exec_correct:
  assumes "workload_inv lib (fst x)"
  shows "\<exists>x'. wl_exec lib c x = Inr x' \<and> workload_inv lib (fst x') \<and> same_settings (fst x) (fst x')"
proof -
  obtain wl env where x: "x = (wl, env)" by (cases x)
  with assms have inv: "workload_inv lib wl" by simp
  show ?thesis
    using NextSequenceKey_correct [OF inv, of env] NextTransactionKey_correct [OF inv, of env]
      NextOperation_correct [OF inv, of env] NextFieldName_correct [OF inv, of env]
      NextScanLength_correct [OF inv, of env] BuildValues_correct [OF inv, of "[]" env]
      BuildUpdate_correct [OF inv, of "[]" env]
    by (cases c) (auto simp: x)
qed

lemma wl_run_correct:
  assumes "workload_inv lib (fst x)"
  shows "\<exists>x'. wl_run lib cs x = Inr x' \<and> workload_inv lib (fst x') \<and> same_settings (fst x) (fst x')"
  using assms
proof (induction cs arbitrary: x)
  case (Cons c cs)
  obtain x1 where "wl_exec lib c x = Inr x1" "workload_inv lib (fst x1)" "same_settings (fst x) (fst x1)"
    using wl_exec_correct [OF Cons.prems] by blast
  with Cons.IH [of x1] show ?case by (auto intro: same_settings_trans)
qed simp

primrec sequence_keys ::
    "'e random_lib \<Rightarrow> nat \<Rightarrow> 'e core_workload \<Rightarrow> 'e rand_env \<Rightarrow> run_stop + string list \<times> 'e core_workload \<times> 'e rand_env" where
  "sequence_keys lib 0 wl env = Inr ([], wl, env)"
| "sequence_keys lib (Suc n) wl env =
     andthen (NextSequenceKey lib wl env) (\<lambda>(key, wl', env').
     andthen (sequence_keys lib n wl' env') (\<lambda>(keys, wl'', env''). Inr (key # keys, wl'', env'')))"

lemma sequence_keys_eq:
  assumes "wl_key_generator wl = Some (GCounter c)"
  shows "\<exists>wl' env'. sequence_keys lib n wl env
    = Inr (map (\<lambda>i. BuildKeyName wl (c_counter c + of_nat i)) [0..<n], wl', env')"
  using assms
proof (induction n arbitrary: wl c env)
  case (Suc n)
  define c1 where "c1 = c\<lparr>c_counter := c_counter c + 1\<rparr>"
  define wl1 where "wl1 = wl\<lparr>wl_key_generator := Some (GCounter c1)\<rparr>"
  have first: "NextSequenceKey lib wl env = Inr (BuildKeyName wl (c_counter c), wl1, env)"
    using Suc.prems by (simp add: NextSequenceKey_def call_gen_def Counter_Next_def wl1_def c1_def)
  have "wl_key_generator wl1 = Some (GCounter c1)" by (simp add: wl1_def)
  from Suc.IH [OF this, of env] obtain wl' env' where
    "sequence_keys lib n wl1 env = Inr (map (\<lambda>i. BuildKeyName wl1 (c_counter c1 + of_nat i)) [0..<n], wl', env')" by blast
  moreover have "map (\<lambda>i. BuildKeyName wl1 (c_counter c1 + of_nat i)) [0..<n]
      = map (\<lambda>i. BuildKeyName wl (c_counter c + of_nat i)) [Suc 0..<Suc n]"
    unfolding map_Suc_upt [symmetric] by (simp add: BuildKeyName_def wl1_def c1_def add.assoc comp_def)
  ultimately show ?case
    using first by (simp add: upt_conv_Cons del: upt_Suc)
qed simp

lemma BuildKeyName_inject:
  "wl_ordered_inserts wl \<Longrightarrow> BuildKeyName wl a = BuildKeyName wl b \<longleftrightarrow> a = b"
  by (simp add: BuildKeyName_def word_unat_eq_iff [symmetric])

lemma of_nat_u64_inject: "i < 2 ^ 64 \<Longrightarrow> j < 2 ^ 64 \<Longrightarrow> (of_nat i :: u64) = of_nat j \<longleftrightarrow> i = j"
  by (simp add: word_of_nat_eq_iff take_bit_nat_eq_self)

section \<open>A concrete workload\<close>

text \<open>Random numbers that always are the least ones, and a small property file.\<close>

definition least_lib :: "unit random_lib" where
  "least_lib = \<lparr>lib_seed = (), lib_uniform_int = (\<lambda>a b e. (a, e)), lib_uniform_real = (\<lambda>e. (0, e)), lib_rand = (\<lambda>e. (0, e))\<rparr>"

lemma least_lib_ok: "random_lib_ok least_lib"
  by (simp add: random_lib_ok_def least_lib_def)

definition small_properties :: properties where
  "small_properties = [(''fieldcount'', ''2''), (''fieldlength'', ''3''), (''insertorder'', ''ordered''), (''recordcount'', ''5'')]"

definition small_settings :: workload_settings where
  "small_settings =
     \<lparr>ws_read = 19 / 20, ws_update = 1 / 20, ws_insert = 0, ws_scan = 0, ws_readmodifywrite = 0, ws_record_count = 5,
      ws_request_dist = ''uniform'', ws_max_scan_len = 1000, ws_scan_len_dist = ''uniform'', ws_insert_start = 0,
      ws_read_all_fields = True, ws_write_all_fields = False\<rparr>"

lemmas workload_property_names =
  TABLENAME_PROPERTY_def TABLENAME_DEFAULT_def FIELD_COUNT_PROPERTY_def FIELD_COUNT_DEFAULT_def
  FIELD_LENGTH_DISTRIBUTION_PROPERTY_def FIELD_LENGTH_DISTRIBUTION_DEFAULT_def FIELD_LENGTH_PROPERTY_def
  FIELD_LENGTH_DEFAULT_def READ_ALL_FIELDS_PROPERTY_def READ_ALL_FIELDS_DEFAULT_def WRITE_ALL_FIELDS_PROPERTY_def
  WRITE_ALL_FIELDS_DEFAULT_def READ_PROPORTION_PROPERTY_def READ_PROPORTION_DEFAULT_def UPDATE_PROPORTION_PROPERTY_def
  UPDATE_PROPORTION_DEFAULT_def INSERT_PROPORTION_PROPERTY_def INSERT_PROPORTION_DEFAULT_def SCAN_PROPORTION_PROPERTY_def
  SCAN_PROPORTION_DEFAULT_def READMODIFYWRITE_PROPORTION_PROPERTY_def READMODIFYWRITE_PROPORTION_DEFAULT_def
  REQUEST_DISTRIBUTION_PROPERTY_def REQUEST_DISTRIBUTION_DEFAULT_def MAX_SCAN_LENGTH_PROPERTY_def
  MAX_SCAN_LENGTH_DEFAULT_def SCAN_LENGTH_DISTRIBUTION_PROPERTY_def SCAN_LENGTH_DISTRIBUTION_DEFAULT_def
  INSERT_ORDER_PROPERTY_def INSERT_ORDER_DEFAULT_def INSERT_START_PROPERTY_def INSERT_START_DEFAULT_def
  RECORD_COUNT_PROPERTY_def OPERATION_COUNT_PROPERTY_def

lemmas number_parsing =
  c_stoi_def c_stod_def split_sign_def c_isspace_def is_digit_def digits_value_def exponent_of_def Let_def

lemma small_numbers:
  "c_stoi ''2'' = Inr 2" "c_stoi ''3'' = Inr 3" "c_stoi ''5'' = Inr 5" "c_stoi ''1000'' = Inr 1000" "c_stoi ''0'' = Inr 0"
  "c_stod ''0.95'' = Inr (19 / 20)" "c_stod ''0.05'' = Inr (1 / 20)" "c_stod ''0.0'' = Inr 0"
  by (simp_all add: number_parsing)

lemma small_properties_valid:
  "c_stoi (GetProperty small_properties FIELD_COUNT_PROPERTY FIELD_COUNT_DEFAULT) = Inr 2"
  "field_length_valid small_properties" "read_settings small_properties = Inr small_settings"
  "some_operation small_settings" "key_distribution_valid small_properties small_settings"
  "ws_scan_len_dist small_settings = ''uniform''" "ws_record_count small_settings = 5" "ws_insert small_settings = 0"
  "GetProperty small_properties INSERT_ORDER_PROPERTY INSERT_ORDER_DEFAULT = ''ordered''"
  "GetProperty small_properties TABLENAME_PROPERTY TABLENAME_DEFAULT = ''usertable''"
  by (simp_all add: workload_property_names GetProperty_def small_properties_def field_length_valid_def small_numbers
      read_settings_def StrToBool_def c_tolower_def small_settings_def some_operation_def key_distribution_valid_def Let_def)

lemma small_workload:
  obtains wl :: "unit core_workload" and env where
    "Workload_Init least_lib small_properties CoreWorkload \<lparr>re_double = (), re_rand = ()\<rparr> = Inr (wl, env)"
    "workload_inv least_lib wl" "wl_field_count wl = 2" "wl_ordered_inserts wl"
    "wl_key_generator wl = Some (GCounter (CounterGenerator 0))" "Counter_Last (wl_insert_key_sequence wl) = 4"
    "wl_table_name wl = ''usertable''"
proof -
  note small = small_properties_valid
  have "ws_record_count small_settings \<le> INT32_MAX" "ws_insert_start small_settings = 0" by (simp_all add: small_settings_def)
  from Workload_Init_ok [OF least_lib_ok small(1-4) this(1) small(5,6)] this(2) that small(7-10) show thesis
    by (fastforce simp: workload_inv_def)
qed

section \<open>Properties\<close>





text \<open>C23: The loop for a transaction key ends as soon as the chooser draws the number of an existing
  key: if a run of draws contains one, the key returned is the one of the first such number, and the
  chooser keeps its contract.\<close>

theorem NextTransactionKey_terminates:
  assumes "random_lib_ok lib" "wl_key_chooser wl = Some g" "b = wl_insert_key_sequence wl" "gen_ok lib b g"
    "gen_run (gen_nxt lib b) (replicate n ()) (g, env) = Some (vs, x)" "v \<in> set vs" "v \<le> Counter_Last b"
  shows "\<exists>g' env'. NextTransactionKey lib wl env
      = Inr (BuildKeyName wl (hd (filter (\<lambda>k. k \<le> Counter_Last b) vs)), wl\<lparr>wl_key_chooser := Some g'\<rparr>, env')
    \<and> gen_ok lib b g' \<and> gen_range b g' = gen_range b g"
  using next_key_loop_hits [OF assms(1,4-7)] assms(2,3) by (auto simp: NextTransactionKey_def)

theorem NextTransactionKey_terminates_witness:
  "\<exists>(wl :: unit core_workload) env' wl'. NextTransactionKey least_lib wl \<lparr>re_double = (), re_rand = ()\<rparr> = Inr (''user0'', wl', env')"
proof -
  define g :: "unit gen" where "g = GUniform (UniformGenerator least_lib 0 4)"
  define wl where "wl = (CoreWorkload :: unit core_workload)\<lparr>wl_key_chooser := Some g\<rparr>"
  define env :: "unit rand_env" where "env = \<lparr>re_double = (), re_rand = ()\<rparr>"
  have wl: "wl_key_chooser wl = Some g" "Counter_Last (wl_insert_key_sequence wl) = 2" "wl_ordered_inserts wl"
    by (simp_all add: wl_def CoreWorkload_def CounterGenerator_def Counter_Last_def)
  have "gen_ok least_lib (wl_insert_key_sequence wl) g"
    "gen_run (gen_nxt least_lib (wl_insert_key_sequence wl)) (replicate 1 ()) (g, env) = Some ([0], (g, env))"
    by (simp_all add: g_def UniformGenerator_def Uniform_Next_def least_lib_def gen_nxt_def)
  from NextTransactionKey_terminates [OF least_lib_ok wl(1) refl this(1,2), of 0] wl
  show ?thesis by (auto simp: env_def BuildKeyName_def to_string_small)
qed

text \<open>C25: The values of a new record: the fields are numbered from 0 in order, one value each, and
  a value is one printable character repeated a number of times the length generator can draw. They fit
  what a database accepts.\<close>

theorem BuildValues_shape:
  assumes "workload_inv lib wl"
  shows "\<exists>kvs wl' env'. BuildValues lib [] wl env = Inr (kvs, wl', env') \<and> workload_inv lib wl' \<and> same_settings wl wl'
    \<and> map fst kvs = map field_name [0..<nat (wl_field_count wl)] \<and> distinct (map fst kvs)
    \<and> list_all (value_ok (length_range wl)) (map snd kvs) \<and> list_all pair_fits kvs"
proof -
  obtain vs wl' env' where vs: "BuildValues lib [] wl env = Inr (zip (map field_name [0..<nat (wl_field_count wl)]) vs, wl', env')"
    "length vs = nat (wl_field_count wl)" "list_all (value_ok (length_range wl)) vs" "workload_inv lib wl'" "same_settings wl wl'"
    using BuildValues_correct [OF assms, of "[]" env] by auto
  have "list_all pair_fits (zip (map field_name [0..<nat (wl_field_count wl)]) vs)"
    using BuildValues_fit [OF assms, of env] vs(1) by auto
  with vs show ?thesis
    by (intro exI [of _ "zip (map field_name [0..<nat (wl_field_count wl)]) vs"]) (auto simp: distinct_map inj_on_def)
qed

theorem BuildValues_shape_witness:
  "\<exists>(wl :: unit core_workload) env kvs wl' env'. workload_inv least_lib wl \<and> BuildValues least_lib [] wl env = Inr (kvs, wl', env')
     \<and> map fst kvs = [''field0'', ''field1'']"
proof -
  obtain wl :: "unit core_workload" and env :: "unit rand_env" where wl: "workload_inv least_lib wl" "wl_field_count wl = 2"
    by (rule small_workload)
  have "map field_name [0..<nat 2] = [''field0'', ''field1'']"
    by (simp add: field_name_def numeral_2_eq_2 to_string_small [simplified])
  moreover obtain kvs wl' env' where "BuildValues least_lib [] wl env = Inr (kvs, wl', env')"
    "map fst kvs = map field_name [0..<nat (wl_field_count wl)]"
    using BuildValues_shape [OF wl(1), of env] by blast
  ultimately show ?thesis using wl by metis
qed

text \<open>C26: Loading uses every key once: with ordered inserts, \<open>n\<close> sequence keys are the keys of \<open>n\<close>
  consecutive numbers, all different as long as the 64-bit counter does not wrap around; with hashed
  inserts they are the keys of the hashes of these numbers.\<close>

theorem sequence_keys_consecutive:
  assumes "wl_key_generator wl = Some (GCounter (CounterGenerator start))" "n \<le> 2 ^ 64"
  shows "\<exists>keys wl' env'. sequence_keys lib n wl env = Inr (keys, wl', env')
    \<and> keys = map (\<lambda>i. BuildKeyName wl (start + of_nat i)) [0..<n]
    \<and> (\<not> wl_ordered_inserts wl \<or> distinct keys)"
proof -
  obtain wl' env' where "sequence_keys lib n wl env = Inr (map (\<lambda>i. BuildKeyName wl (start + of_nat i)) [0..<n], wl', env')"
    using sequence_keys_eq [OF assms(1), of lib n env] by (auto simp: CounterGenerator_def)
  moreover have "distinct (map (\<lambda>i. BuildKeyName wl (start + of_nat i)) [0..<n])" if "wl_ordered_inserts wl"
    using assms(2) by (auto simp: distinct_map inj_on_def BuildKeyName_inject [OF that] of_nat_u64_inject)
  ultimately show ?thesis by blast
qed

theorem sequence_keys_consecutive_witness:
  "\<exists>(wl :: unit core_workload) env keys wl' env'. wl_ordered_inserts wl \<and> sequence_keys least_lib 3 wl env = Inr (keys, wl', env') \<and> distinct keys"
proof -
  obtain wl :: "unit core_workload" where
    wl: "wl_key_generator wl = Some (GCounter (CounterGenerator 0))" "wl_ordered_inserts wl"
    by (rule small_workload)
  from sequence_keys_consecutive [OF wl(1), of 3 least_lib] wl(2) show ?thesis by (force simp del: upt.simps)
qed

end
