(* ===== verification/Hdr_Print.thy ===== *)
theory Hdr_Print
  imports Hdr_Values
begin

text \<open>
  The percentile distribution that \<^verbatim>\<open>hdr_percentiles_print\<close> of \<^verbatim>\<open>hdr_histogram.c\<close> writes: a head, one row per
  step of the percentile iterator, and in the classic format a footer. A written line is kept as its
  arguments; whether the \<open>n\<close>th write to the stream succeeds is a parameter. The levels of the iterator are
  computed in closed form, from which the loop ends and the rows are those of the recorded values.
\<close>

section \<open>Printing\<close>

datatype format_type = CLASSIC | CSV

text \<open>
  The arguments of a row: the value, the percentile, the count so far, and \<open>1 / (1 - percentile)\<close>, which is
  infinite (\<open>None\<close>) in the last row.
\<close>

record percentile_row =
  row_value :: real
  row_percentile :: real
  row_total_count :: int
  row_inverted :: "real option"

datatype print_line =
    Head
  | Row percentile_row
  | Footer real real real int int int

definition print_row :: "real \<Rightarrow> int \<times> real \<times> int \<Rightarrow> print_line" where
  "print_row value_scale = (\<lambda>(highest, p, total).
     let pc = p / 100
     in Row \<lparr>row_value = real_of_int highest / value_scale, row_percentile = pc, row_total_count = total,
             row_inverted = (if pc = 1 then None else Some (1 / (1 - pc)))\<rparr>)"

definition percentile_view :: "hdr_iter \<Rightarrow> int \<times> real \<times> int" where
  "percentile_view iter =
     (iter_highest_equivalent_value iter,
      (case specifics iter of Percentiles ps \<Rightarrow> percentile ps | _ \<Rightarrow> 0), iter_cumulative_count iter)"

definition write_line :: "(nat \<Rightarrow> bool) \<Rightarrow> print_line \<Rightarrow> print_line list \<Rightarrow> bool \<times> print_line list" where
  "write_line out l written = (if out (length written) then (False, written @ [l]) else (True, written))"

definition print_footer :: "(nat \<Rightarrow> bool) \<Rightarrow> hdr_histogram \<Rightarrow> real \<Rightarrow> print_line list \<Rightarrow> (bool \<times> print_line list) option" where
  "print_footer out h value_scale written = do {
     mean \<leftarrow> hdr_mean h;
     stddev \<leftarrow> hdr_stddev h;
     Some (write_line out
       (Footer (mean / value_scale) (stddev / value_scale) (real_of_int (hdr_max h) / value_scale)
          (total_count h) (bucket_count h) (sub_bucket_count h)) written)
   }"

definition print_rc :: "bool \<times> print_line list \<Rightarrow> int \<times> print_line list" where
  "print_rc = (\<lambda>(failed, written). (if failed then EIO else 0, written))"

definition hdr_percentiles_print ::
  "(nat \<Rightarrow> bool) \<Rightarrow> hdr_histogram \<Rightarrow> int \<Rightarrow> real \<Rightarrow> format_type \<Rightarrow> (int \<times> print_line list) option" where
  "hdr_percentiles_print out h ticks value_scale format =
     (let iter = hdr_iter_percentile_init (blank_iter h) h ticks;
          (failed, written) = write_line out Head []
      in if failed then Some (EIO, written)
         else do {
           (failed, written) \<leftarrow> while_break hdr_iter_next
              (\<lambda>iter written. Some (write_line out (print_row value_scale (percentile_view iter)) written)) iter written;
           if failed then Some (EIO, written)
           else if format = CLASSIC then map_option print_rc (print_footer out h value_scale written)
           else Some (0, written)
         })"

section \<open>The queries return\<close>

lemma value_up_to_count_loop_total:
  assumes "int (length (counts h)) = counts_len h" "0 \<le> idx"
  shows "\<exists>v. value_up_to_count_loop h k idx c = Some v"
  using assms
proof (induction h k idx c rule: value_up_to_count_loop.induct)
  case (1 h k idx c)
  show ?case
  proof (cases "idx < counts_len h")
    case True
    then obtain x where x: "counts_get_direct h idx = Some x"
      using "1.prems" by (auto simp: counts_get_direct_def)
    show ?thesis
      using 1(1) [OF True x refl] "1.prems" True x
      by (subst value_up_to_count_loop.simps) (auto simp: Let_def)
  next
    case False
    then show ?thesis by (subst value_up_to_count_loop.simps) simp
  qed
qed

lemma hdr_value_at_percentile_total:
  assumes "hdr_config_wf h"
  shows "\<exists>v. hdr_value_at_percentile h p = Some v"
proof -
  have "\<exists>v. get_value_from_idx_up_to_count h k = Some v" for k
    unfolding get_value_from_idx_up_to_count_def
    by (rule value_up_to_count_loop_total [OF hdr_config_wfD(11) [OF assms]]) simp
  then show ?thesis
    by (auto simp: hdr_value_at_percentile_def split: option.splits)
qed

lemma hdr_mean_total: "hdr_abs h M \<Longrightarrow> \<exists>m. hdr_mean h = Some m"
proof -
  assume "hdr_abs h M"
  note ok = hdr_abs_counts_ok [OF this]
  have "while_next hdr_iter_next (\<lambda>(s, cnt). cnt < total_count h)
      (\<lambda>iter. mean_step h (iter_value iter, iter_count iter)) (hdr_iter_init (blank_iter h) h) (0, 0)
    = fold_while (\<lambda>(s, cnt). cnt < total_count h) (mean_step h)
      (map (slot_view h) [0..counts_len h - 1]) (0, 0)"
    unfolding walk_init(2) [OF ok, of "blank_iter h", symmetric]
    by (rule all_values.while_next_fold [OF walk_init(1) [OF ok]]) (simp add: iter_view_def)
  moreover have "\<exists>r. mean_step h x acc = Some r" for x acc
    by (simp add: mean_step_def split: prod.splits)
  ultimately show ?thesis
    using fold_while_total [of "mean_step h"] by (fastforce simp: hdr_mean_def)
qed

lemma hdr_stddev_total: "hdr_abs h M \<Longrightarrow> \<exists>d. hdr_stddev h = Some d"
  using hdr_mean_total hdr_stddev_eq by blast

section \<open>The levels of the iterator\<close>

text \<open>
  With \<open>t\<close> ticks per half distance, the levels cut the distance to 100 in half every \<open>t\<close> steps, and each
  half into \<open>t\<close> equal steps.
\<close>

definition percentile_level :: "nat \<Rightarrow> nat \<Rightarrow> real" where
  "percentile_level t n = 100 - 100 * (2 * real t - real (n mod t)) / (real t * 2 ^ (n div t + 1))"

lemma percentile_level_0 [simp]: "0 < t \<Longrightarrow> percentile_level t 0 = 0"
  by (simp add: percentile_level_def)

lemma percentile_level_Suc:
  assumes "0 < t"
  shows "percentile_level t (Suc n) = percentile_level t n + 100 / (real t * 2 ^ (n div t + 1))"
proof (cases "Suc (n mod t) = t")
  case True
  then have m: "Suc n mod t = 0" "Suc n div t = Suc (n div t)" by (simp_all add: mod_Suc div_Suc)
  have r: "real (n mod t) = real t - 1" using True by linarith
  show ?thesis using assms by (simp add: percentile_level_def m r field_simps)
next
  case False
  then have "Suc n mod t = Suc (n mod t)" "Suc n div t = n div t" by (simp_all add: mod_Suc div_Suc)
  then show ?thesis using assms by (simp add: percentile_level_def field_simps)
qed

lemma percentile_level_distance:
  assumes "0 < t"
  shows "100 / 2 ^ (n div t + 1) < 100 - percentile_level t n" "100 - percentile_level t n \<le> 100 / 2 ^ (n div t)"
proof -
  have r: "real (n mod t) < real t" "0 \<le> real (n mod t)" using assms by simp_all
  have d: "100 - percentile_level t n = 100 * (2 * real t - real (n mod t)) / (real t * 2 ^ (n div t + 1))"
    by (simp add: percentile_level_def)
  have "100 * real t / (real t * 2 ^ (n div t + 1)) < 100 - percentile_level t n"
    unfolding d by (rule divide_strict_right_mono) (use r assms in simp_all)
  then show "100 / 2 ^ (n div t + 1) < 100 - percentile_level t n" using assms by simp
  have "100 - percentile_level t n \<le> 100 * (2 * real t) / (real t * 2 ^ (n div t + 1))"
    unfolding d by (rule divide_right_mono) (use r assms in simp_all)
  then show "100 - percentile_level t n \<le> 100 / 2 ^ (n div t)" using assms by simp
qed

lemma percentile_level_bounds: "0 < t \<Longrightarrow> percentile_level t n < 100" "0 < t \<Longrightarrow> 0 \<le> percentile_level t n"
proof -
  assume t: "0 < t"
  have "0 < 100 / (2::real) ^ (n div t + 1)" by simp
  also have "\<dots> < 100 - percentile_level t n" by (rule percentile_level_distance(1) [OF t])
  finally show "percentile_level t n < 100" by simp
  have "100 - percentile_level t n \<le> 100 / 2 ^ (n div t)" by (rule percentile_level_distance(2) [OF t])
  also have "\<dots> \<le> 100" by (simp add: divide_le_eq)
  finally show "0 \<le> percentile_level t n" by simp
qed

lemma percentile_level_strict_mono: "0 < t \<Longrightarrow> strict_mono (percentile_level t)"
  by (simp add: strict_mono_Suc_iff percentile_level_Suc)

lemma percentile_level_unbounded:
  assumes "0 < t" "b < 100"
  shows "\<exists>n. b < percentile_level t n"
proof -
  obtain k where "100 / (100 - b) < 2 ^ k"
    using real_arch_pow [of "2 :: real" "100 / (100 - b)"] by auto
  then have "100 / 2 ^ k < 100 - b" using assms(2) by (simp add: field_simps)
  with percentile_level_distance(2) [OF assms(1), of "k * t"] assms(1) show ?thesis
    by (intro exI [of _ "k * t"]) simp
qed

text \<open>At a level the iterator adds the step to the next one.\<close>

lemma percentile_step_level:
  assumes "0 < t" "ticks_per_half_distance ps = int t" "percentile_to_iterate_to ps = percentile_level t n"
    and room: "int t * 2 ^ (n div t + 1) \<le> INT64_MAX"
  shows "percentile_to_iterate_to ps + percentile_step ps = percentile_level t (Suc n)"
proof -
  let ?p = "percentile_level t n" and ?k = "n div t"
  let ?q = "100 / (100 - ?p)"
  note d = percentile_level_distance [OF assms(1), of n]
  have pos: "0 < 100 - ?p" using percentile_level_bounds(1) [OF assms(1)] by simp
  have q: "2 ^ ?k \<le> ?q" "?q < 2 ^ (?k + 1)"
    using d pos by (simp_all add: field_simps)
  have q1: "1 \<le> ?q" using q(1) one_le_power [of "2 :: real" ?k] by linarith
  have "int ?k \<le> \<lfloor>log 2 ?q\<rfloor>" "\<not> int ?k + 1 \<le> \<lfloor>log 2 ?q\<rfloor>"
    using le_floor_log_iff [OF q1, of "int ?k"] le_floor_log_iff [OF q1, of "int ?k + 1"] q by (simp_all add: nat_add_distrib)
  then have "floor_log2 \<lfloor>?q\<rfloor> = int ?k" using floor_log2_floor [OF q1] by linarith
  then have "percentile_step ps = 100 / real_of_int (int t * 2 ^ (?k + 1))"
    using room assms(2,3) by (simp add: percentile_step_def Let_def nat_add_distrib i64_nonneg_id)
  then show ?thesis
    using percentile_level_Suc [OF assms(1), of n] assms(3) by simp
qed

section \<open>The slot of a level\<close>

text \<open>The first recorded slot whose cumulative percentage has reached a level.\<close>

definition reaches_level :: "hdr_histogram \<Rightarrow> real \<Rightarrow> int \<Rightarrow> bool" where
  "reaches_level h p i \<longleftrightarrow>
     slot_count h i \<noteq> 0 \<and> p \<le> 100 * real_of_int (cum_count h (i + 1)) / real_of_int (total_count h)"

definition level_slot :: "hdr_histogram \<Rightarrow> real \<Rightarrow> int" where
  "level_slot h p = hd (filter (reaches_level h p) [0..counts_len h - 1])"

lemma level_slot_eq:
  assumes "0 \<le> i" "i < counts_len h" "reaches_level h p i" "\<And>j. 0 \<le> j \<Longrightarrow> j < i \<Longrightarrow> \<not> reaches_level h p j"
  shows "level_slot h p = i"
proof -
  have "filter (reaches_level h p) [0..i - 1] = []" using assms(4) by (auto simp: filter_empty_conv)
  moreover have "[0..counts_len h - 1] = [0..i - 1] @ i # [i + 1..counts_len h - 1]"
    using assms(1,2) by (intro upto_split3) simp_all
  ultimately show ?thesis using assms(3) by (simp add: level_slot_def)
qed

lemma recorded_slot_before:
  assumes "hdr_counts_ok h" "m \<le> nat (counts_len h)" "0 < cum_count h (int m)"
  shows "\<exists>i. 0 \<le> i \<and> i < int m \<and> slot_count h i \<noteq> 0 \<and> cum_count h (i + 1) = cum_count h (int m)"
  using assms(2,3)
proof (induction m)
  case (Suc m)
  have step: "cum_count h (int (Suc m)) = cum_count h (int m) + slot_count h (int m)"
    using cum_count_step [of "int m" h] Suc.prems(1) by (simp add: add.commute)
  show ?case
  proof (cases "slot_count h (int m) = 0")
    case True
    then obtain i where "0 \<le> i" "i < int m" "slot_count h i \<noteq> 0" "cum_count h (i + 1) = cum_count h (int m)"
      using Suc step by auto
    with True step show ?thesis by (intro exI [of _ i]) simp
  next
    case False
    then show ?thesis by (intro exI [of _ "int m"]) (simp add: add.commute)
  qed
qed simp

lemma last_recorded_slot:
  assumes "hdr_counts_ok h" "0 < total_count h"
  shows "\<exists>i. 0 \<le> i \<and> i < counts_len h \<and> slot_count h i \<noteq> 0 \<and> cum_count h (i + 1) = total_count h"
proof -
  have len: "int (nat (counts_len h)) = counts_len h" using counts_len_bound(1) [OF hdr_counts_okD(1) [OF assms(1)]] by simp
  have "cum_count h (counts_len h) = total_count h" using cum_count_full [OF assms(1)] by simp
  with recorded_slot_before [OF assms(1) order_refl] assms(2) show ?thesis unfolding len by simp
qed

lemma level_slot_props:
  assumes "hdr_counts_ok h" "0 < total_count h" "p \<le> 100"
  shows "0 \<le> level_slot h p" "level_slot h p < counts_len h" "reaches_level h p (level_slot h p)"
    "0 \<le> j \<Longrightarrow> j < level_slot h p \<Longrightarrow> \<not> reaches_level h p j"
proof -
  obtain m where m: "0 \<le> m" "m < counts_len h" "reaches_level h p m"
    using last_recorded_slot [OF assms(1,2)] assms(2,3) by (auto simp: reaches_level_def)
  define i where "i = (LEAST i. reaches_level h p (int i))"
  have i: "reaches_level h p (int i)" unfolding i_def by (rule LeastI [of _ "nat m"]) (use m in simp)
  have first: "\<not> reaches_level h p j" if "0 \<le> j" "j < int i" for j
    using not_less_Least [of "nat j" "\<lambda>i. reaches_level h p (int i)"] that unfolding i_def [symmetric] by auto
  have lt: "int i < counts_len h" using first [of m] m by (cases "m < int i") auto
  have "level_slot h p = int i" by (rule level_slot_eq) (use i first lt in auto)
  then show "0 \<le> level_slot h p" "level_slot h p < counts_len h" "reaches_level h p (level_slot h p)"
    "0 \<le> j \<Longrightarrow> j < level_slot h p \<Longrightarrow> \<not> reaches_level h p j"
    using i first lt by auto
qed

lemma percentile_loop_passes:
  assumes "percentile_loop ps it = Some (True, it')" "iter_inv it" "at_slot it"
    "iter_counts_index it \<le> j" "j < iter_counts_index it'"
  shows "\<not> reaches_level (iter_h it) (percentile_to_iterate_to ps) j"
  using assms
proof (induction ps it rule: percentile_loop.induct)
  case (1 ps it)
  let ?hit = "iter_count it \<noteq> 0 \<and> percentile_to_iterate_to ps
    \<le> 100 * real_of_int (iter_cumulative_count it) / real_of_int (total_count (iter_h it))"
  have hit: "?hit \<longleftrightarrow> reaches_level (iter_h it) (percentile_to_iterate_to ps) (iter_counts_index it)"
    using "1.prems"(2,3) by (simp add: reaches_level_def iter_inv_def at_slot_def Let_def)
  show ?case
  proof (cases ?hit)
    case True
    with "1.prems"(1,4,5) show ?thesis by (auto simp: percentile_loop.simps [of ps it] Let_def)
  next
    case False
    from basic_iter_next_inv [OF "1.prems"(2)] show ?thesis
    proof (elim disjE exE conjE)
      assume "basic_iter_next it = Some (False, it)"
      with False "1.prems"(1,4,5) show ?thesis by (auto simp: percentile_loop.simps [of ps it])
    next
      fix it1 assume it1: "basic_iter_next it = Some (True, it1)" "iter_inv it1" "at_slot it1"
      note fr = basic_iter_next_frame [OF it1(1)]
      show ?thesis
      proof (cases "j = iter_counts_index it")
        case True
        with False hit show ?thesis by simp
      next
        case j: False
        have "percentile_loop ps it1 = Some (True, it')"
          using "1.prems"(1) False it1(1) by (subst (asm) percentile_loop.simps) simp
        with "1.IH" [OF refl, of "(True, it1)" True it1] False it1 fr "1.prems"(4,5) j show ?thesis by simp
      qed
    qed
  qed
qed

lemma percentile_iter_next_slot:
  assumes inv: "iter_inv it" and sp: "specifics it = Percentiles ps" and nxt: "has_next it"
    and p: "percentile_to_iterate_to ps \<le> 100" and slot: "iter_counts_index it = - 1 \<or> at_slot it"
    and passed: "\<And>j. 0 \<le> j \<Longrightarrow> j < iter_counts_index it \<Longrightarrow> \<not> reaches_level (iter_h it) (percentile_to_iterate_to ps) j"
  shows "\<exists>it'. percentile_iter_next it = Some (True, it') \<and> iter_inv it' \<and> at_slot it'
    \<and> iter_h it' = iter_h it \<and> iter_next_fp it' = iter_next_fp it
    \<and> specifics it' = Percentiles (ps\<lparr>percentile := percentile_to_iterate_to ps,
         percentile_to_iterate_to := percentile_to_iterate_to ps + percentile_step ps\<rparr>)
    \<and> iter_counts_index it' = level_slot (iter_h it) (percentile_to_iterate_to ps)"
proof -
  let ?p = "percentile_to_iterate_to ps"
  obtain it' where it': "percentile_iter_next it = Some (True, it')" "iter_inv it'" "at_slot it'" "iter_count it' \<noteq> 0"
      "iter_h it' = iter_h it" "iter_next_fp it' = iter_next_fp it"
      "specifics it' = Percentiles (ps\<lparr>percentile := ?p, percentile_to_iterate_to := ?p + percentile_step ps\<rparr>)"
      "?p \<le> 100 * real_of_int (iter_cumulative_count it') / real_of_int (total_count (iter_h it))"
    using percentile_iter_next_spec [OF inv sp nxt p slot] by (elim exE conjE)
  have reach: "reaches_level (iter_h it) ?p (iter_counts_index it')"
    using it'(2-5,8) by (simp add: reaches_level_def iter_inv_def at_slot_def Let_def)
  have range: "0 \<le> iter_counts_index it'" "iter_counts_index it' < counts_len (iter_h it)"
    using it'(3,5) by (simp_all add: at_slot_def Let_def)
  have first: "\<not> reaches_level (iter_h it) ?p j" if "0 \<le> j" "j < iter_counts_index it'" for j
  proof (cases "iter_counts_index it = - 1")
    case True
    obtain it1 where it1: "basic_iter_next it = Some (True, it1)" "iter_inv it1" "at_slot it1"
      using basic_iter_next_inv [OF inv] nxt by blast
    note fr = basic_iter_next_frame [OF it1(1)]
    have "percentile_loop ps it1 = Some (True, it')"
      using it'(1) True nxt sp it1(1) by (simp add: percentile_iter_next_def)
    from percentile_loop_passes [OF this it1(2,3), of j] show ?thesis using that fr True by simp
  next
    case False
    then have "percentile_loop ps it = Some (True, it')"
      using it'(1) nxt sp by (simp add: percentile_iter_next_def)
    from percentile_loop_passes [OF this inv, of j] passed [OF that(1)] that(2) slot False show ?thesis
      by (cases "j < iter_counts_index it") simp_all
  qed
  have "level_slot (iter_h it) ?p = iter_counts_index it'"
    by (rule level_slot_eq [OF range reach first])
  with it' show ?thesis by (intro exI [of _ it']) simp
qed

section \<open>The rows\<close>

text \<open>
  What the iterator shows at a level, the number of the level at which the last recorded value is
  reached, the levels up to it, and the closing row.
\<close>

definition level_view :: "hdr_histogram \<Rightarrow> real \<Rightarrow> int \<times> real \<times> int" where
  "level_view h p =
     (let i = level_slot h p in (highest_equivalent_value h (hdr_value_at_index h i), p, cum_count h (i + 1)))"

definition last_level :: "hdr_histogram \<Rightarrow> nat \<Rightarrow> nat" where
  "last_level h t = (LEAST n. cum_count h (level_slot h (percentile_level t n) + 1) = total_count h)"

definition levels :: "hdr_histogram \<Rightarrow> nat \<Rightarrow> real list" where
  "levels h t = map (percentile_level t) [0..<Suc (last_level h t)]"

definition closing_view :: "hdr_histogram \<Rightarrow> int \<times> real \<times> int" where
  "closing_view h =
     (if total_count h = 0 then 0 else highest_equivalent_value h (hdr_value_at_index h (level_slot h 100)),
      100, total_count h)"

lemma cum_count_mono:
  assumes "hdr_counts_ok h" "a \<le> b"
  shows "cum_count h a \<le> cum_count h b"
  unfolding cum_count_def
  by (rule sum_mono2) (use assms slot_count_nonneg [OF assms(1)] in auto)

lemma closing_slot:
  assumes "hdr_counts_ok h" "0 < total_count h" "0 \<le> i" "i < counts_len h" "slot_count h i \<noteq> 0"
    "cum_count h (i + 1) = total_count h"
  shows "level_slot h 100 = i"
proof (rule level_slot_eq)
  fix j assume j: "0 \<le> j" "j < i"
  have "cum_count h (j + 1) \<le> cum_count h i" using cum_count_mono [OF assms(1)] j by simp
  also have "\<dots> < total_count h"
    using cum_count_step [OF assms(3,4)] assms(5,6) slot_count_nonneg [OF assms(1,3,4)] by simp
  finally show "\<not> reaches_level h 100 j" using assms(2) by (simp add: reaches_level_def field_simps)
qed (use assms in \<open>auto simp: reaches_level_def\<close>)

lemma last_level_reached:
  assumes "hdr_counts_ok h" "0 < total_count h" "0 < t"
  shows "cum_count h (level_slot h (percentile_level t (last_level h t)) + 1) = total_count h"
proof -
  let ?T = "real_of_int (total_count h)"
  have "100 * (?T - 1) / ?T < 100" using assms(2) by (simp add: field_simps)
  then obtain n where n: "100 * (?T - 1) / ?T < percentile_level t n"
    using percentile_level_unbounded [OF assms(3)] by blast
  let ?i = "level_slot h (percentile_level t n)"
  have "reaches_level h (percentile_level t n) ?i"
    using level_slot_props(3) [OF assms(1,2)] percentile_level_bounds(1) [OF assms(3)] by (simp add: less_imp_le)
  then have "100 * (?T - 1) / ?T < 100 * real_of_int (cum_count h (?i + 1)) / ?T"
    using n by (simp add: reaches_level_def)
  then have "?T - 1 < real_of_int (cum_count h (?i + 1))" using assms(2) by (simp add: divide_less_cancel)
  then have "cum_count h (?i + 1) = total_count h"
    using cum_count_bounds(2) [OF assms(1), of "?i + 1"] by linarith
  then show ?thesis unfolding last_level_def by (rule LeastI)
qed

lemma before_last_level:
  assumes "hdr_counts_ok h" "n < last_level h t"
  shows "cum_count h (level_slot h (percentile_level t n) + 1) < total_count h"
  using not_less_Least [of n "\<lambda>n. cum_count h (level_slot h (percentile_level t n) + 1) = total_count h"] assms(2)
    cum_count_bounds(2) [OF assms(1), of "level_slot h (percentile_level t n) + 1"]
  unfolding last_level_def by simp

text \<open>The ticks of the levels in use fit into 64 bits when four times the ticks times the total does.\<close>

lemma level_room:
  assumes "hdr_counts_ok h" "0 < total_count h" "0 < t" "n \<le> last_level h t"
    "4 * int t * total_count h \<le> INT64_MAX"
  shows "int t * 2 ^ (n div t + 1) \<le> INT64_MAX"
proof -
  have "2 ^ (n div t) \<le> 2 * total_count h"
  proof (cases n)
    case 0
    then show ?thesis using assms(2) by simp
  next
    case (Suc m)
    let ?T = "real_of_int (total_count h)" and ?p = "percentile_level t m"
    have "reaches_level h ?p (level_slot h ?p)"
      using level_slot_props(3) [OF assms(1,2)] percentile_level_bounds(1) [OF assms(3)] by (simp add: less_imp_le)
    then have "?p * ?T \<le> 100 * real_of_int (cum_count h (level_slot h ?p + 1))"
      using assms(2) by (simp add: reaches_level_def pos_le_divide_eq)
    also have "\<dots> \<le> 100 * (?T - 1)" using before_last_level [OF assms(1), of m t] assms(4) Suc by simp
    finally have "100 \<le> (100 - ?p) * ?T" by (simp add: algebra_simps)
    also have "\<dots> \<le> 100 / 2 ^ (m div t) * ?T"
      using percentile_level_distance(2) [OF assms(3), of m] assms(2) by (intro mult_right_mono) simp_all
    finally have "(2::real) ^ (m div t) \<le> ?T" by (simp add: field_simps)
    then have "(2::int) ^ (m div t) \<le> total_count h" by (metis of_int_le_iff of_int_numeral of_int_power)
    moreover have "n div t \<le> Suc (m div t)" using Suc by (simp add: div_Suc)
    then have "(2::int) ^ (n div t) \<le> 2 ^ Suc (m div t)" by (intro power_increasing) simp_all
    ultimately show ?thesis by simp
  qed
  then have "int t * 2 ^ (n div t + 1) \<le> int t * (4 * total_count h)" by (intro mult_left_mono) simp_all
  with assms(5) show ?thesis by (simp add: ac_simps)
qed

section \<open>The percentile iterator delivers the rows\<close>

text \<open>The state between two steps and the rows it has left.\<close>

definition percentile_walk :: "nat \<Rightarrow> hdr_iter \<Rightarrow> bool" where
  "percentile_walk t it \<longleftrightarrow>
     iter_inv it \<and> iter_next_fp it = Percentile_Next \<and> 0 < t \<and> 4 * int t * total_count (iter_h it) \<le> INT64_MAX
     \<and> (\<exists>ps. specifics it = Percentiles ps \<and> ticks_per_half_distance ps = int t
       \<and> (if has_next it
          then \<not> seen_last_value ps
            \<and> (\<exists>n \<le> last_level (iter_h it) t. percentile_to_iterate_to ps = percentile_level t n)
            \<and> (iter_counts_index it = - 1 \<or> at_slot it)
            \<and> (\<forall>j. 0 \<le> j \<and> j < iter_counts_index it \<longrightarrow> \<not> reaches_level (iter_h it) (percentile_to_iterate_to ps) j)
          else iter_highest_equivalent_value it = fst (closing_view (iter_h it))))"

definition rows_left :: "nat \<Rightarrow> hdr_iter \<Rightarrow> (int \<times> real \<times> int) list" where
  "rows_left t it =
     (case specifics it of
        Percentiles ps \<Rightarrow>
          if seen_last_value ps then []
          else (if has_next it
                then map (level_view (iter_h it)) (filter (\<lambda>q. percentile_to_iterate_to ps \<le> q) (levels (iter_h it) t))
                else []) @ [closing_view (iter_h it)]
      | _ \<Rightarrow> [])"

lemma levels_from:
  assumes "0 < t" "n \<le> last_level h t"
  shows "filter (\<lambda>q. percentile_level t n \<le> q) (levels h t) = map (percentile_level t) [n..<Suc (last_level h t)]"
proof -
  have "[0..<Suc (last_level h t)] = [0..<n] @ [n..<Suc (last_level h t)]"
    using upt_add_eq_append [of 0 n "Suc (last_level h t) - n"] assms(2) by simp
  moreover have "filter (\<lambda>m. n \<le> m) [0..<n] = []" "filter (\<lambda>m. n \<le> m) [n..<Suc (last_level h t)] = [n..<Suc (last_level h t)]"
    by (auto simp: filter_empty_conv intro: filter_True)
  ultimately show ?thesis
    using percentile_level_strict_mono [OF assms(1)]
    by (simp add: levels_def filter_map comp_def strict_mono_less_eq del: upt_Suc)
qed

text \<open>Values are left after the slot of a level exactly when the level is not the last; the last is closed by its slot.\<close>

lemma has_next_level:
  assumes ok: "hdr_counts_ok h" "0 < total_count h" and t: "0 < t" and n: "n \<le> last_level h t"
    and it: "iter_cumulative_count it = cum_count h (level_slot h (percentile_level t n) + 1)" "iter_total_count it = total_count h"
  shows "has_next it \<longleftrightarrow> n < last_level h t"
proof (cases "n = last_level h t")
  case True
  then show ?thesis using last_level_reached [OF ok t] it by (simp add: has_next_def)
next
  case False
  with before_last_level [OF ok(1), of n t] n show ?thesis using it by (simp add: has_next_def)
qed

lemma closing_level:
  assumes ok: "hdr_counts_ok h" "0 < total_count h" and t: "0 < t"
  shows "fst (closing_view h) = highest_equivalent_value h (hdr_value_at_index h (level_slot h (percentile_level t (last_level h t))))"
proof -
  note i = level_slot_props [OF ok percentile_level_bounds(1) [OF t, THEN less_imp_le]]
  have "level_slot h 100 = level_slot h (percentile_level t (last_level h t))"
    using closing_slot [OF ok i(1,2)] i(3) last_level_reached [OF ok t] by (simp add: reaches_level_def)
  then show ?thesis using ok(2) by (simp add: closing_view_def)
qed

text \<open>A step with values left delivers the row of its level.\<close>

lemma percentile_walk_step:
  assumes walk: "percentile_walk t it" and nxt: "has_next it"
  shows "\<exists>it' v vs. hdr_iter_next it = Some (True, it') \<and> percentile_walk t it'
    \<and> rows_left t it = v # vs \<and> percentile_view it' = v \<and> rows_left t it' = vs"
proof -
  define h where "h = iter_h it"
  obtain ps n where inv: "iter_inv it" "iter_next_fp it = Percentile_Next" "0 < t" "4 * int t * total_count h \<le> INT64_MAX"
    and ps: "specifics it = Percentiles ps" "ticks_per_half_distance ps = int t" "\<not> seen_last_value ps"
    and n: "n \<le> last_level h t" "percentile_to_iterate_to ps = percentile_level t n"
    and slot: "iter_counts_index it = - 1 \<or> at_slot it"
    and passed: "\<And>j. 0 \<le> j \<Longrightarrow> j < iter_counts_index it \<Longrightarrow> \<not> reaches_level h (percentile_level t n) j"
    using walk nxt by (auto simp: percentile_walk_def h_def)
  have ok: "hdr_counts_ok h" "0 < total_count h"
    using inv(1) nxt cum_count_bounds [of h "iter_counts_index it + 1"]
    by (auto simp: iter_inv_def has_next_def h_def)
  note lvl = percentile_level_bounds(1) [OF inv(3), of n, THEN less_imp_le]
  let ?i = "level_slot h (percentile_level t n)"
  note i = level_slot_props [OF ok lvl]
  have next_level: "percentile_to_iterate_to ps + percentile_step ps = percentile_level t (Suc n)"
    by (rule percentile_step_level [OF inv(3) ps(2) n(2) level_room [OF ok inv(3) n(1) inv(4)]])
  define ps' where "ps' = ps\<lparr>percentile := percentile_level t n, percentile_to_iterate_to := percentile_level t (Suc n)\<rparr>"
  obtain it' where it': "percentile_iter_next it = Some (True, it')" "iter_inv it'" "at_slot it'" "iter_h it' = h"
      "iter_next_fp it' = Percentile_Next" "specifics it' = Percentiles ps'" "iter_counts_index it' = ?i"
    using percentile_iter_next_slot [OF inv(1) ps(1) nxt] passed slot lvl inv(2) next_level
    unfolding n(2) h_def ps'_def by fastforce
  have cum: "iter_cumulative_count it' = cum_count h (?i + 1)" "iter_total_count it' = total_count h"
    "iter_highest_equivalent_value it' = highest_equivalent_value h (hdr_value_at_index h ?i)"
    using it'(2-4,7) by (simp_all add: iter_inv_def at_slot_def Let_def)
  have view: "percentile_view it' = level_view h (percentile_level t n)"
    by (simp add: percentile_view_def level_view_def it'(6) ps'_def cum Let_def)
  note more = has_next_level [OF ok inv(3) n(1) cum(1,2)]
  have later: "\<not> reaches_level h (percentile_level t (Suc n)) j" if "0 \<le> j" "j < ?i" for j
    using i(4) [OF that] strict_mono_less_eq [OF percentile_level_strict_mono [OF inv(3)], of n "Suc n"]
    by (auto simp: reaches_level_def)
  have closing: "iter_highest_equivalent_value it' = fst (closing_view h)" if "\<not> has_next it'"
    using that more n(1) cum(3) closing_level [OF ok inv(3)] by auto
  have "percentile_walk t it'"
    unfolding percentile_walk_def using it'(2-7) inv ps(2,3) more later closing
    by (auto simp: ps'_def intro!: exI [of _ "Suc n"])
  moreover have "rows_left t it = level_view h (percentile_level t n) # rows_left t it'"
    using more n ps(1,3) it'(4,6) nxt levels_from [OF inv(3) n(1)] levels_from [OF inv(3), of "Suc n" h]
    by (cases "n = last_level h t") (auto simp: rows_left_def h_def [symmetric] ps'_def upt_rec [of n])
  ultimately show ?thesis using it'(1) view inv(2) by (simp add: hdr_iter_next_def)
qed

interpretation percentile_rows: walker hdr_iter_next "percentile_walk t" percentile_view "rows_left t" for t
proof unfold_locales
  fix it assume walk: "percentile_walk t it" and nil: "rows_left t it = []"
  then have "\<not> has_next it" using percentile_walk_step by fastforce
  with walk nil show "\<exists>it'. hdr_iter_next it = Some (False, it')"
    by (auto simp: percentile_walk_def rows_left_def hdr_iter_next_def percentile_iter_next_def split: if_splits)
next
  fix it x xs assume walk: "percentile_walk t it" and cons: "rows_left t it = x # xs"
  show "\<exists>it'. hdr_iter_next it = Some (True, it') \<and> percentile_walk t it' \<and> percentile_view it' = x \<and> rows_left t it' = xs"
  proof (cases "has_next it")
    case True
    with percentile_walk_step [OF walk True] cons show ?thesis by auto
  next
    case False
    obtain ps where ps: "specifics it = Percentiles ps" "ticks_per_half_distance ps = int t"
      and hi: "iter_highest_equivalent_value it = fst (closing_view (iter_h it))"
      using walk False by (auto simp: percentile_walk_def)
    have seen: "\<not> seen_last_value ps" "x = closing_view (iter_h it)" "xs = []"
      using cons False ps by (simp_all add: rows_left_def split: if_splits)
    have "iter_cumulative_count it = total_count (iter_h it)"
      using walk False iter_inv_cum(2) [of it] by (auto simp: percentile_walk_def has_next_def iter_inv_def)
    then have view: "percentile_view (it\<lparr>specifics := Percentiles (ps\<lparr>seen_last_value := True, percentile := 100\<rparr>)\<rparr>)
        = closing_view (iter_h it)"
      using hi by (simp add: percentile_view_def closing_view_def)
    show ?thesis
      using walk False ps seen view hi
      by (auto simp: percentile_walk_def hdr_iter_next_def percentile_iter_next_def rows_left_def has_next_def)
  qed
qed

lemma percentile_walk_init:
  assumes "hdr_counts_ok h" "0 < t" "4 * int t * total_count h \<le> INT64_MAX"
  defines "it \<equiv> hdr_iter_percentile_init (blank_iter h) h (int t)"
  shows "percentile_walk t it"
    "rows_left t it = (if 0 < total_count h then map (level_view h) (levels h t) else []) @ [closing_view h]"
proof -
  have it: "iter_inv it" "iter_h it = h" "iter_next_fp it = Percentile_Next" "iter_counts_index it = - 1"
    "has_next it \<longleftrightarrow> 0 < total_count h" "iter_highest_equivalent_value it = 0"
    "specifics it = Percentiles \<lparr>seen_last_value = False, ticks_per_half_distance = int t,
       percentile_to_iterate_to = 0, percentile = 0\<rparr>"
    using iter_init_inv [OF assms(1)]
    by (simp_all add: it_def hdr_iter_percentile_init_def hdr_iter_init_def has_next_def iter_inv_def assms(1))
  have "total_count h = 0" if "\<not> 0 < total_count h"
    using that cum_count_bounds [OF assms(1), of 0] by simp
  then show "percentile_walk t it"
    using assms(2,3) it percentile_level_0 [OF assms(2)]
    by (auto simp: percentile_walk_def closing_view_def intro!: exI [of _ 0])
  show "rows_left t it = (if 0 < total_count h then map (level_view h) (levels h t) else []) @ [closing_view h]"
    using levels_from [OF assms(2), of 0 h] percentile_level_0 [OF assms(2)]
    by (simp add: rows_left_def it levels_def)
qed

section \<open>Writing until the first failure\<close>

definition written_lines :: "(nat \<Rightarrow> bool) \<Rightarrow> print_line list \<Rightarrow> bool \<times> print_line list" where
  "written_lines out ls =
     (if \<forall>i < length ls. out i then (False, ls) else (True, take (LEAST i. \<not> out i) ls))"

lemma print_rc_written:
  "print_rc (written_lines out ls) = (if \<forall>i < length ls. out i then (0, ls) else (EIO, take (LEAST i. \<not> out i) ls))"
  by (simp add: print_rc_def written_lines_def)

lemma written_lines_append:
  "written_lines out (ls @ [l]) =
     (case written_lines out ls of (failed, written) \<Rightarrow> if failed then (True, written) else write_line out l written)"
proof (cases "\<forall>i < length ls. out i")
  case True
  then have "(LEAST i. \<not> out i) = length ls" if "\<not> out (length ls)"
    using that by (intro Least_equality) (auto simp: not_less [symmetric])
  with True show ?thesis by (auto simp: written_lines_def write_line_def less_Suc_eq)
next
  case False
  then have "(LEAST i. \<not> out i) < length ls" by (meson Least_le le_less_trans)
  with False show ?thesis by (auto simp: written_lines_def less_Suc_eq)
qed

lemma fold_break_write:
  assumes "written_lines out ls = (False, ls)"
  shows "fold_break (\<lambda>v written. Some (write_line out (f v) written)) vs ls = Some (written_lines out (ls @ map f vs))"
  using assms
proof (induction vs arbitrary: ls)
  case (Cons v vs)
  show ?case
  proof (cases "out (length ls)")
    case True
    then have "written_lines out (ls @ [f v]) = (False, ls @ [f v])"
      using Cons.prems by (simp add: written_lines_append write_line_def)
    from Cons.IH [OF this] True show ?thesis by (simp add: write_line_def)
  next
    case False
    have all: "\<forall>i < length ls. out i" using Cons.prems by (auto simp: written_lines_def split: if_splits)
    then have "(LEAST i. \<not> out i) = length ls"
      using False by (intro Least_equality) (auto simp: not_less [symmetric])
    moreover have "\<not> (\<forall>i < Suc (length ls + length vs). out i)" using False by (auto intro!: exI [of _ "length ls"])
    ultimately show ?thesis using False by (simp add: write_line_def written_lines_def)
  qed
qed simp

text \<open>Once the rows, the mean and the deviation are known, the output is known for every stream.\<close>

lemma hdr_percentiles_print_lines:
  assumes "hdr_counts_ok h" "0 < t" "4 * int t * total_count h \<le> INT64_MAX" "hdr_mean h = Some m" "hdr_stddev h = Some d"
  shows "hdr_percentiles_print out h (int t) scale fmt = Some (print_rc (written_lines out
    (Head # map (print_row scale) ((if 0 < total_count h then map (level_view h) (levels h t) else []) @ [closing_view h])
     @ (if fmt = CLASSIC
        then [Footer (m / scale) (d / scale) (real_of_int (hdr_max h) / scale) (total_count h) (bucket_count h) (sub_bucket_count h)]
        else []))))"
proof -
  let ?it = "hdr_iter_percentile_init (blank_iter h) h (int t)"
  define rows where "rows = rows_left t ?it"
  note init = percentile_walk_init [OF assms(1-3)]
  have loop: "while_break hdr_iter_next
      (\<lambda>iter written. Some (write_line out (print_row scale (percentile_view iter)) written)) ?it ls
    = fold_break (\<lambda>v written. Some (write_line out (print_row scale v) written)) rows ls" for ls
    unfolding rows_def by (rule percentile_rows.while_break_fold [OF init(1)]) simp
  define foot where "foot = (if fmt = CLASSIC
    then [Footer (m / scale) (d / scale) (real_of_int (hdr_max h) / scale) (total_count h) (bucket_count h) (sub_bucket_count h)]
    else [])"
  have "hdr_percentiles_print out h (int t) scale fmt
      = Some (print_rc (written_lines out (Head # map (print_row scale) rows @ foot)))"
  proof (cases "out 0")
    case True
    let ?ls = "Head # map (print_row scale) rows"
    obtain failed written where w: "written_lines out ?ls = (failed, written)" by fastforce
    have "written_lines out [Head] = (False, [Head])" using True by (simp add: written_lines_def)
    from fold_break_write [OF this, of "print_row scale" rows] w
    have "fold_break (\<lambda>v written. Some (write_line out (print_row scale v) written)) rows [Head] = Some (failed, written)"
      by simp
    then have "hdr_percentiles_print out h (int t) scale fmt =
        (if failed then Some (EIO, written)
         else if fmt = CLASSIC then map_option print_rc (print_footer out h scale written) else Some (0, written))"
      using True by (simp add: hdr_percentiles_print_def write_line_def [of out Head] loop)
    then show ?thesis
      using w assms(4,5) written_lines_append [of out ?ls] by (simp add: print_footer_def print_rc_def foot_def)
  next
    case False
    then have "(LEAST i. \<not> out i) = 0" by (intro Least_equality) simp_all
    with False show ?thesis
      by (auto simp: hdr_percentiles_print_def write_line_def written_lines_def print_rc_def)
  qed
  then show ?thesis unfolding rows_def init(2) foot_def .
qed

section \<open>Rows by rank\<close>

text \<open>The rank of a level among \<open>n\<close> values, and the row of the value of that rank.\<close>

definition level_rank :: "nat \<Rightarrow> real \<Rightarrow> int" where
  "level_rank n p = max 1 \<lceil>p * real n / 100\<rceil>"

definition ranked_row :: "hdr_histogram \<Rightarrow> int multiset \<Rightarrow> real \<Rightarrow> int \<times> real \<times> int" where
  "ranked_row h M p =
     (let v = ranked_value M (level_rank (size M) p)
      in (highest_equivalent_value h v, p, int (size {#w \<in># M. counts_index_for h w \<le> counts_index_for h v#})))"

text \<open>The number of values below the slot of the greatest.\<close>

definition below_top :: "hdr_histogram \<Rightarrow> int multiset \<Rightarrow> int" where
  "below_top h M = int (size {#w \<in># M. counts_index_for h w < counts_index_for h (Max_mset M)#})"

lemma level_slot_rank:
  assumes "hdr_counts_ok h" "total_count h = int n" "0 < n" "p \<le> 100"
  shows "cum_count h (level_slot h p) < level_rank n p" "level_rank n p \<le> cum_count h (level_slot h p + 1)"
    "1 \<le> level_rank n p" "level_rank n p \<le> int n"
proof -
  let ?i = "level_slot h p"
  have tot: "0 < total_count h" using assms(2,3) by simp
  note i = level_slot_props [OF assms(1) tot assms(4)]
  have reach: "p \<le> 100 * real_of_int c / real n \<longleftrightarrow> \<lceil>p * real n / 100\<rceil> \<le> c" for c
    using assms(3) by (simp add: ceiling_le_iff pos_le_divide_eq pos_divide_le_eq mult.commute)
  have one: "1 \<le> cum_count h (?i + 1)"
    using i(3) cum_count_step [OF i(1,2)] cum_count_bounds(1) [OF assms(1), of ?i] slot_count_nonneg [OF assms(1) i(1,2)]
    by (simp add: reaches_level_def)
  then show "level_rank n p \<le> cum_count h (?i + 1)"
    using i(3) reach by (simp add: reaches_level_def level_rank_def assms(2))
  then show "level_rank n p \<le> int n" using cum_count_bounds(2) [OF assms(1), of "?i + 1"] assms(2) by simp
  show "1 \<le> level_rank n p" by (simp add: level_rank_def)
  show "cum_count h ?i < level_rank n p"
  proof (rule ccontr)
    assume "\<not> cum_count h ?i < level_rank n p"
    then have k: "1 \<le> cum_count h ?i" "\<lceil>p * real n / 100\<rceil> \<le> cum_count h ?i" by (simp_all add: level_rank_def)
    have "nat ?i \<le> nat (counts_len h)" using i(2) by simp
    from recorded_slot_before [OF assms(1) this] k(1) i(1)
    obtain j where "0 \<le> j" "j < ?i" "slot_count h j \<noteq> 0" "cum_count h (j + 1) = cum_count h ?i" by auto
    with i(4) [of j] k(2) reach show False by (simp add: reaches_level_def assms(2))
  qed
qed

lemma ranked_value_top: "M \<noteq> {#} \<Longrightarrow> ranked_value M (int (size M)) = Max_mset M"
proof -
  assume M: "M \<noteq> {#}"
  let ?xs = "sorted_list_of_multiset M"
  have n: "length ?xs = size M" "0 < size M"
    using M by (metis mset_sorted_list_of_multiset size_mset) (simp add: nonempty_has_size [symmetric] M)
  have "?xs ! (size M - 1) \<in># M" using nth_mem [of "size M - 1" ?xs] n by simp
  moreover have "x \<le> ?xs ! (size M - 1)" if x: "x \<in># M" for x
  proof -
    obtain i where "i < length ?xs" "x = ?xs ! i" using x by (metis in_set_conv_nth set_sorted_list_of_multiset)
    then show ?thesis using n by (auto intro!: sorted_nth_mono [OF sorted_sorted_list_of_multiset])
  qed
  ultimately show ?thesis using n by (simp add: ranked_value_def nat_diff_distrib Max_eqI [symmetric])
qed

lemma level_view_ranked:
  assumes abs: "hdr_abs h M" and M: "M \<noteq> {#}" and p: "p \<le> 100"
  shows "level_view h p = ranked_row h M p"
    "counts_index_for h (ranked_value M (level_rank (size M) p)) = level_slot h p"
proof -
  let ?i = "level_slot h p" and ?k = "level_rank (size M) p"
  note ok = hdr_abs_counts_ok [OF abs]
  have tot: "total_count h = int (size M)" "0 < size M" "0 < total_count h"
    using hdr_absD(5) [OF abs] M by (simp_all add: nonempty_has_size [symmetric])
  note i = level_slot_props [OF ok tot(3) p] and k = level_slot_rank [OF ok tot(1,2) p]
  show idx: "counts_index_for h (ranked_value M ?k) = ?i"
    using rank_slot [OF abs k(3,4) i(1,2) k(1,2)] by (simp add: ranked_value_def)
  have "highest_equivalent_value h (ranked_value M ?k) = highest_equivalent_value h (hdr_value_at_index h ?i)"
    by (rule ranked_value_of_slot [OF abs k(3,4) i(1,2) k(1,2)])
  moreover have "cum_count h (?i + 1) = int (size {#w \<in># M. counts_index_for h w \<le> ?i#})"
    using cum_count_abs [OF abs, of "?i + 1"] i(1,2) by simp
  ultimately show "level_view h p = ranked_row h M p"
    by (simp add: level_view_def ranked_row_def idx Let_def)
qed

lemma last_level_rank:
  assumes abs: "hdr_abs h M" and M: "M \<noteq> {#}" and t: "0 < t"
  shows "n < last_level h t \<Longrightarrow> level_rank (size M) (percentile_level t n) \<le> below_top h M"
    "below_top h M < level_rank (size M) (percentile_level t (last_level h t))"
proof -
  note ok = hdr_abs_counts_ok [OF abs]
  have tot: "total_count h = int (size M)" "0 < size M" "0 < total_count h"
    using hdr_absD(5) [OF abs] M by (simp_all add: nonempty_has_size [symmetric])
  let ?l = "level_slot h 100"
  have "level_rank (size M) 100 = int (size M)" using tot(2) by (simp add: level_rank_def)
  then have top: "counts_index_for h (Max_mset M) = ?l"
    using level_view_ranked(2) [OF abs M order_refl] by (simp add: ranked_value_top [OF M])
  note l = level_slot_props [OF ok tot(3) order_refl]
  have below: "below_top h M = cum_count h ?l"
    using cum_count_abs [OF abs, of ?l] l(1,2) by (simp add: below_top_def top)
  have last: "cum_count h (?l + 1) = total_count h"
    using level_slot_rank(2) [OF ok tot(1,2), of 100] tot cum_count_bounds(2) [OF ok, of "?l + 1"] by (simp add: level_rank_def)
  note lvl = percentile_level_bounds(1) [OF t, THEN less_imp_le]
  show "level_rank (size M) (percentile_level t n) \<le> below_top h M" if n: "n < last_level h t"
  proof -
    let ?i = "level_slot h (percentile_level t n)"
    have "cum_count h (?i + 1) < cum_count h (?l + 1)" using before_last_level [OF ok n] last by simp
    then have "\<not> ?l + 1 \<le> ?i + 1" using cum_count_mono [OF ok] by (meson leD)
    then have "cum_count h (?i + 1) \<le> cum_count h ?l" using cum_count_mono [OF ok] by simp
    with level_slot_rank(2) [OF ok tot(1,2) lvl [of n]] below show ?thesis by simp
  qed
  let ?i = "level_slot h (percentile_level t (last_level h t))"
  note i = level_slot_props [OF ok tot(3) lvl [of "last_level h t"]]
  have "?l = ?i" by (rule closing_slot [OF ok tot(3) i(1,2)]) (use i(3) last_level_reached [OF ok tot(3) t] in \<open>simp_all add: reaches_level_def\<close>)
  then show "below_top h M < level_rank (size M) (percentile_level t (last_level h t))"
    using level_slot_rank(1) [OF ok tot(1,2) lvl [of "last_level h t"]] below by simp
qed

lemma hdr_percentiles_print_total:
  assumes "hdr_abs h M" "0 < t" "4 * int t * int (size M) \<le> INT64_MAX"
  shows "\<exists>r. hdr_percentiles_print out h (int t) scale fmt = Some r"
proof -
  obtain m where m: "hdr_mean h = Some m" using hdr_mean_total [OF assms(1)] ..
  obtain d where d: "hdr_stddev h = Some d" using hdr_stddev_total [OF assms(1)] ..
  have "4 * int t * total_count h \<le> INT64_MAX" using assms(3) hdr_absD(5) [OF assms(1)] by simp
  from hdr_percentiles_print_lines [OF hdr_abs_counts_ok [OF assms(1)] assms(2) this m d] show ?thesis by blast
qed

section \<open>Properties\<close>

text \<open>C18: On a histogram that holds the values \<open>M\<close>, \<open>hdr_percentiles_print\<close> ends and writes the head, one row
  for each level of the grid up to the first whose rank lies in the slot of the greatest value, the row of
  100 per cent, and in the classic format the footer. The row of a level has the highest value equivalent
  to the recorded value of the level's rank and the number of values up to its slot. A failed write stops
  the output after the lines written before it and is reported as \<open>EIO\<close>.\<close>

theorem hdr_percentiles_print_correct:
  assumes abs: "hdr_abs h M" and M: "M \<noteq> {#}" and t: "0 < t" and room: "4 * int t * int (size M) \<le> INT64_MAX"
  shows "\<exists>N m d. hdr_mean h = Some m \<and> hdr_stddev h = Some d
    \<and> (\<forall>n < N. level_rank (size M) (percentile_level t n) \<le> below_top h M)
    \<and> below_top h M < level_rank (size M) (percentile_level t N)
    \<and> (\<forall>out. let ls = Head # map (\<lambda>p. print_row scale (ranked_row h M p)) (map (percentile_level t) [0..<N + 1] @ [100])
                 @ (if fmt = CLASSIC
                    then [Footer (m / scale) (d / scale) (real_of_int (hdr_max h) / scale) (int (size M))
                            (bucket_count h) (sub_bucket_count h)]
                    else [])
        in hdr_percentiles_print out h (int t) scale fmt
           = Some (if \<forall>i < length ls. out i then (0, ls) else (EIO, take (LEAST i. \<not> out i) ls)))"
proof -
  obtain m where m: "hdr_mean h = Some m" using hdr_mean_total [OF abs] ..
  obtain d where d: "hdr_stddev h = Some d" using hdr_stddev_total [OF abs] ..
  note ok = hdr_abs_counts_ok [OF abs]
  have tot: "total_count h = int (size M)" "0 < size M" "0 < total_count h"
    using hdr_absD(5) [OF abs] M by (simp_all add: nonempty_has_size [symmetric])
  have room': "4 * int t * total_count h \<le> INT64_MAX" using room tot(1) by simp
  have rows: "map (level_view h) (levels h t) = map (ranked_row h M) (map (percentile_level t) [0..<last_level h t + 1])"
    using level_view_ranked(1) [OF abs M percentile_level_bounds(1) [OF t, THEN less_imp_le]]
    by (simp add: levels_def)
  have "level_rank (size M) 100 = int (size M)" using tot(2) by (simp add: level_rank_def)
  then have "cum_count h (level_slot h 100 + 1) = total_count h"
    using level_slot_rank(2) [OF ok tot(1,2), of 100] cum_count_bounds(2) [OF ok, of "level_slot h 100 + 1"] tot(1) by simp
  then have closing: "closing_view h = ranked_row h M 100"
    using level_view_ranked(1) [OF abs M order_refl] tot(3) by (simp add: closing_view_def level_view_def Let_def)
  have print: "hdr_percentiles_print out h (int t) scale fmt = Some (print_rc (written_lines out
      (Head # map (\<lambda>p. print_row scale (ranked_row h M p)) (map (percentile_level t) [0..<last_level h t + 1] @ [100])
        @ (if fmt = CLASSIC
           then [Footer (m / scale) (d / scale) (real_of_int (hdr_max h) / scale) (int (size M))
                   (bucket_count h) (sub_bucket_count h)]
           else []))))" for out
    using hdr_percentiles_print_lines [OF ok t room' m d, of out scale fmt] tot(1,3)
    by (simp add: rows closing comp_def del: upt_Suc)
  show ?thesis
    by (rule exI [of _ "last_level h t"], rule exI [of _ m], rule exI [of _ d], intro conjI allI impI)
       (simp_all only: m d last_level_rank [OF abs M t] print print_rc_written Let_def)
qed

theorem hdr_percentiles_print_correct_witness:
  "hdr_percentiles_print (\<lambda>_. True) sample_histogram (int 1) 1 CSV = Some (0,
      [Head, Row \<lparr>row_value = 5, row_percentile = 0, row_total_count = 1, row_inverted = Some 1\<rparr>,
       Row \<lparr>row_value = 99, row_percentile = 1 / 2, row_total_count = 3, row_inverted = Some 2\<rparr>,
       Row \<lparr>row_value = 99, row_percentile = 1, row_total_count = 3, row_inverted = None\<rparr>])
    \<and> hdr_percentiles_print (\<lambda>i. i \<noteq> 2) sample_histogram (int 1) 1 CSV
      = Some (EIO, [Head, Row \<lparr>row_value = 5, row_percentile = 0, row_total_count = 1, row_inverted = Some 1\<rparr>])"
proof -
  let ?h = sample_histogram and ?M = "{#5, 99, 99#} :: int multiset"
  have idx: "counts_index_for ?h 5 = 5" "counts_index_for ?h 99 = 56" "highest_equivalent_value ?h 5 = 5"
    "highest_equivalent_value ?h 99 = 99" by code_simp+
  have max: "Max_mset ?M = 99" by simp
  have below: "below_top ?h ?M = 1" unfolding below_top_def max by (simp add: idx)
  have level: "percentile_level 1 0 = 0" "percentile_level 1 1 = 50" by (simp_all add: percentile_level_def)
  have rank: "level_rank 3 0 = 1" "level_rank 3 50 = 2" "level_rank 3 100 = 3" by (simp_all add: level_rank_def)
  have size: "size ?M = 3" by simp
  have rows: "ranked_row ?h ?M 0 = (5, 0, 1)" "ranked_row ?h ?M 50 = (99, 50, 3)" "ranked_row ?h ?M 100 = (99, 100, 3)"
    unfolding ranked_row_def size rank by (simp_all add: ranked_value_def idx Let_def)
  have "(LEAST i. \<not> i \<noteq> (2::nat)) = 2" by (rule Least_equality) simp_all
  then have least: "(LEAST i. i = (2::nat)) = 2" by simp
  have "?M \<noteq> {#}" "0 < (1::nat)" "4 * int 1 * int (size ?M) \<le> INT64_MAX" by simp_all
  from hdr_percentiles_print_correct [OF sample_histogram_abs this, of 1 CSV]
  obtain N m d where N: "\<forall>n < N. level_rank (size ?M) (percentile_level 1 n) \<le> below_top ?h ?M"
      "below_top ?h ?M < level_rank (size ?M) (percentile_level 1 N)"
    and print: "\<forall>out. let ls = Head # map (\<lambda>p. print_row 1 (ranked_row ?h ?M p)) (map (percentile_level 1) [0..<N + 1] @ [100])
          @ (if CSV = CLASSIC
             then [Footer (m / 1) (d / 1) (real_of_int (hdr_max ?h) / 1) (int (size ?M)) (bucket_count ?h) (sub_bucket_count ?h)]
             else [])
      in hdr_percentiles_print out ?h (int 1) 1 CSV
        = Some (if \<forall>i < length ls. out i then (0, ls) else (EIO, take (LEAST i. \<not> out i) ls))"
    by (elim exE conjE)
  have "\<not> 1 < N" using N(1) [unfolded below size, rule_format, of 1, unfolded level rank] by auto
  moreover have "N \<noteq> 0" using N(2) [unfolded below size] level(1) rank(1) by (intro notI) simp
  ultimately have "N = 1" by simp
  have "[0..<1 + 1] = [0, 1 :: nat]" by (simp add: upt_rec)
  then have rows: "map (\<lambda>p. print_row 1 (ranked_row ?h ?M p)) (map (percentile_level 1) [0..<N + 1] @ [100]) =
      [Row \<lparr>row_value = 5, row_percentile = 0, row_total_count = 1, row_inverted = Some 1\<rparr>,
       Row \<lparr>row_value = 99, row_percentile = 1 / 2, row_total_count = 3, row_inverted = Some 2\<rparr>,
       Row \<lparr>row_value = 99, row_percentile = 1, row_total_count = 3, row_inverted = None\<rparr>]"
    unfolding \<open>N = 1\<close> by (simp only: list.map append.simps level rows print_row_def) simp
  have fails: "\<exists>i < 4. i = (2::nat)" by simp
  show ?thesis
    using print [unfolded rows, THEN spec, of "\<lambda>_. True"] print [unfolded rows, THEN spec, of "\<lambda>i. i \<noteq> 2"] fails
    by (simp add: Let_def least)
qed

end
