(* ===== verification/Ycsb_Rocks.thy ===== *)
theory Ycsb_Rocks
  imports Ycsb_Db Hdr_Print
begin

text \<open>
  The database over the RocksDB-Cloud store (\<open>db/rocksdb_cloud_db.cc\<close>): records are serialised under
  their key, and the time of every operation goes into latency histograms. The store is a parameter,
  a record of functions, with what the code relies on stated as \<open>kv_ok\<close>. The histograms are those of the
  theories \<open>Hdr_Histogram\<close> to \<open>Hdr_Values\<close>. A line written to the latency file is kept as its numbers.
\<close>

section \<open>The store\<close>

datatype kv_status = KV_OK | KV_NotFound | KV_Error

record 's kv_lib =
  kv_Get :: "'s \<Rightarrow> string \<Rightarrow> kv_status \<times> byte list"
  kv_Put :: "'s \<Rightarrow> string \<Rightarrow> byte list \<Rightarrow> kv_status \<times> 's"
  kv_Delete :: "'s \<Rightarrow> string \<Rightarrow> kv_status \<times> 's"
  kv_Seek :: "'s \<Rightarrow> string \<Rightarrow> (string \<times> byte list) list"

text \<open>
  A store that works: \<open>view\<close> gives its contents, a lookup finds what is there, a write and a removal
  succeed.
\<close>

definition kv_ok :: "'s kv_lib \<Rightarrow> ('s \<Rightarrow> string \<Rightarrow> byte list option) \<Rightarrow> bool" where
  "kv_ok lib view \<longleftrightarrow>
     (\<forall>s k. case view s k of
        None \<Rightarrow> fst (kv_Get lib s k) = KV_NotFound
      | Some v \<Rightarrow> kv_Get lib s k = (KV_OK, v))
     \<and> (\<forall>s k v. fst (kv_Put lib s k v) = KV_OK \<and> view (snd (kv_Put lib s k v)) = (view s)(k \<mapsto> v))
     \<and> (\<forall>s k. fst (kv_Delete lib s k) = KV_OK \<and> view (snd (kv_Delete lib s k)) = (view s)(k := None))"

section \<open>The database object\<close>

record hiccup_line =
  hl_mean :: real
  hl_95 :: int
  hl_99 :: int
  hl_9999 :: int
  hl_qps :: int

record 's rocksdb_cloud =
  rc_db :: 's
  rc_noResult :: u32
  rc_qps :: int
  rc_hdr_all :: hdr_histogram
  rc_hdr_last_1s :: hdr_histogram
  rc_hdr_get :: hdr_histogram
  rc_hdr_put :: hdr_histogram
  rc_hdr_update :: hdr_histogram
  rc_hdr_scan :: hdr_histogram
  rc_hdr_rmw :: hdr_histogram
  rc_hiccups :: "hiccup_line list"

text \<open>
  The histograms of the constructor: seven of them for one microsecond to one hour with three
  digits, and the process ends unless all were made and the first has at most 23552 slots.
  \<open>r |= hdr_init(...)\<close> is zero only when every call returned zero; the allocations of the \<open>i\<close>th call
  are answered by \<open>calloc i\<close>. The message printed on the way out reads the members of the first
  histogram, which is a null pointer when that one was not made. The counter \<open>qps\<close> is not set by the
  constructor: its first value is an argument.
\<close>

definition latency_histogram :: "(nat \<Rightarrow> int \<Rightarrow> bool) \<Rightarrow> nat \<Rightarrow> run_stop + (int + hdr_histogram)" where
  "latency_histogram calloc i = or_stop Stop_Undefined (hdr_init (calloc i) 1 3600000000 3)"

type_synonym latency_histograms =
  "hdr_histogram \<times> hdr_histogram \<times> hdr_histogram \<times> hdr_histogram \<times> hdr_histogram \<times> hdr_histogram \<times> hdr_histogram"

definition latency_setup :: "(nat \<Rightarrow> int \<Rightarrow> bool) \<Rightarrow> bool \<Rightarrow> bool \<Rightarrow> run_stop + latency_histograms" where
  "latency_setup calloc output_opened hiccup_opened =
     andthen (latency_histogram calloc 0) (\<lambda>hdr.
     andthen (latency_histogram calloc 1) (\<lambda>hdr_last_1s.
     andthen (latency_histogram calloc 2) (\<lambda>hdr_get.
     andthen (latency_histogram calloc 3) (\<lambda>hdr_put.
     andthen (latency_histogram calloc 4) (\<lambda>hdr_update.
     andthen (latency_histogram calloc 5) (\<lambda>hdr_scan.
     andthen (latency_histogram calloc 6) (\<lambda>hdr_rmw.
       if isl hdr then Inl Stop_Undefined
       else if list_ex isl [hdr_last_1s, hdr_get, hdr_put, hdr_update, hdr_scan, hdr_rmw]
         \<or> 23552 < counts_len (projr hdr) then Inl Stop_Exit
       else if \<not> output_opened then Inl Stop_Exit
       else if \<not> hiccup_opened then Inl Stop_Exit
       else Inr (projr hdr, projr hdr_last_1s, projr hdr_get, projr hdr_put, projr hdr_update, projr hdr_scan,
                 projr hdr_rmw))))))))"

text \<open>The constructor; \<open>opened\<close> is what the opening of the store gives.\<close>

definition RocksDBCloud_new ::
    "(nat \<Rightarrow> int \<Rightarrow> bool) \<Rightarrow> bool \<Rightarrow> bool \<Rightarrow> int \<Rightarrow> run_stop + 's \<Rightarrow> run_stop + 's rocksdb_cloud" where
  "RocksDBCloud_new calloc output_opened hiccup_opened qps opened =
     andthen (latency_setup calloc output_opened hiccup_opened)
       (\<lambda>(hdr, hdr_last_1s, hdr_get, hdr_put, hdr_update, hdr_scan, hdr_rmw).
     andthen opened (\<lambda>store.
       Inr \<lparr>rc_db = store, rc_noResult = 0, rc_qps = qps, rc_hdr_all = hdr, rc_hdr_last_1s = hdr_last_1s,
            rc_hdr_get = hdr_get, rc_hdr_put = hdr_put, rc_hdr_update = hdr_update, rc_hdr_scan = hdr_scan,
            rc_hdr_rmw = hdr_rmw, rc_hiccups = []\<rparr>))"

definition RC_Read ::
    "'s kv_lib \<Rightarrow> string \<Rightarrow> string \<Rightarrow> string list option \<Rightarrow> kvpair list \<Rightarrow> 's rocksdb_cloud
       \<Rightarrow> run_stop + int \<times> kvpair list \<times> 's rocksdb_cloud" where
  "RC_Read lib table key flds result s =
     (case kv_Get lib (rc_db s) key of
        (KV_OK, v) \<Rightarrow>
          andthen (or_stop Stop_Undefined (DeSerializeValues v result)) (\<lambda>r. Inr (kOK, r, s))
      | (KV_NotFound, v) \<Rightarrow> Inr (kOK, result, s\<lparr>rc_noResult := rc_noResult s + 1\<rparr>)
      | (KV_Error, v) \<Rightarrow> Inl Stop_Exit)"

text \<open>The loop of \<open>Scan\<close> over what the iterator gives; the key and the value are overwritten each round.\<close>

fun rc_scan_loop :: "nat \<Rightarrow> (string \<times> byte list) list \<Rightarrow> string \<times> byte list \<Rightarrow> string \<times> byte list" where
  "rc_scan_loop 0 it kv = kv"
| "rc_scan_loop (Suc i) [] kv = kv"
| "rc_scan_loop (Suc i) (x # it) kv = rc_scan_loop i it x"

definition RC_Scan ::
    "'s kv_lib \<Rightarrow> string \<Rightarrow> string \<Rightarrow> int \<Rightarrow> string list option \<Rightarrow> kvpair list list \<Rightarrow> 's rocksdb_cloud
       \<Rightarrow> run_stop + int \<times> kvpair list list \<times> 's rocksdb_cloud" where
  "RC_Scan lib table key len flds results s =
     (let kv = rc_scan_loop (nat len) (kv_Seek lib (rc_db s) key) ([], [])
      in Inr (kOK, results, s))"

definition RC_Insert ::
    "'s kv_lib \<Rightarrow> string \<Rightarrow> string \<Rightarrow> kvpair list \<Rightarrow> 's rocksdb_cloud \<Rightarrow> run_stop + int \<times> 's rocksdb_cloud" where
  "RC_Insert lib table key kvs s =
     andthen (or_stop Stop_Diverges (SerializeValues kvs)) (\<lambda>v.
       case kv_Put lib (rc_db s) key v of
         (status, store) \<Rightarrow>
           if status \<noteq> KV_OK then Inl Stop_Exit else Inr (kOK, s\<lparr>rc_db := store\<rparr>))"

definition RC_Update ::
    "'s kv_lib \<Rightarrow> string \<Rightarrow> string \<Rightarrow> kvpair list \<Rightarrow> 's rocksdb_cloud \<Rightarrow> run_stop + int \<times> 's rocksdb_cloud" where
  "RC_Update lib table key kvs s = RC_Insert lib table key kvs s"

definition RC_Delete ::
    "'s kv_lib \<Rightarrow> string \<Rightarrow> string \<Rightarrow> 's rocksdb_cloud \<Rightarrow> run_stop + int \<times> 's rocksdb_cloud" where
  "RC_Delete lib table key s =
     (case kv_Delete lib (rc_db s) key of
        (status, store) \<Rightarrow>
          if status \<noteq> KV_OK then Inl Stop_Exit else Inr (kOK, s\<lparr>rc_db := store\<rparr>))"

section \<open>Latencies\<close>

text \<open>\<open>hdr_record_value\<close> takes the unsigned time as a signed 64-bit value; its answer is ignored.\<close>

definition record_into :: "u64 \<Rightarrow> hdr_histogram \<Rightarrow> run_stop + hdr_histogram" where
  "record_into t h = map_sum id snd (or_stop Stop_Undefined (hdr_record_value h (sint t)))"

definition RC_RecordTime :: "int \<Rightarrow> u64 \<Rightarrow> 's rocksdb_cloud \<Rightarrow> run_stop + 's rocksdb_cloud" where
  "RC_RecordTime op t s =
     andthen (record_into t (rc_hdr_all s)) (\<lambda>h.
     andthen (record_into t (rc_hdr_last_1s s)) (\<lambda>l.
       let s1 = s\<lparr>rc_qps := i64 (rc_qps s + 1), rc_hdr_all := h, rc_hdr_last_1s := l\<rparr> in
       if op = 1 then andthen (record_into t (rc_hdr_put s1)) (\<lambda>g. Inr (s1\<lparr>rc_hdr_put := g\<rparr>))
       else if op = 2 then andthen (record_into t (rc_hdr_get s1)) (\<lambda>g. Inr (s1\<lparr>rc_hdr_get := g\<rparr>))
       else if op = 3 then andthen (record_into t (rc_hdr_update s1)) (\<lambda>g. Inr (s1\<lparr>rc_hdr_update := g\<rparr>))
       else if op = 4 then andthen (record_into t (rc_hdr_scan s1)) (\<lambda>g. Inr (s1\<lparr>rc_hdr_scan := g\<rparr>))
       else if op = 5 then andthen (record_into t (rc_hdr_rmw s1)) (\<lambda>g. Inr (s1\<lparr>rc_hdr_rmw := g\<rparr>))
       else Inr s1))"

definition RC_latency_hiccup :: "u64 \<Rightarrow> 's rocksdb_cloud \<Rightarrow> run_stop + 's rocksdb_cloud" where
  "RC_latency_hiccup iops s =
     (let h = rc_hdr_last_1s s in
      andthen (or_stop Stop_Undefined (hdr_mean h)) (\<lambda>m.
      andthen (or_stop Stop_Undefined (hdr_value_at_percentile h 95)) (\<lambda>p95.
      andthen (or_stop Stop_Undefined (hdr_value_at_percentile h 99)) (\<lambda>p99.
      andthen (or_stop Stop_Undefined (hdr_value_at_percentile h (9999 / 100))) (\<lambda>p9999.
        Inr (s\<lparr>rc_hiccups := rc_hiccups s @
                 [\<lparr>hl_mean = m, hl_95 = p95, hl_99 = p99, hl_9999 = p9999, hl_qps = rc_qps s\<rparr>],
               rc_hdr_last_1s := hdr_reset h, rc_qps := 0\<rparr>))))))"

text \<open>
  The numbers of the summary of \<open>PrintStats\<close>, in the order of its columns: all operations, get, put,
  update, scan, read-modify-write; one row each for the mean and the three percentiles. The store's own
  statistics are left out.
\<close>

definition summary_columns :: "'s rocksdb_cloud \<Rightarrow> hdr_histogram list" where
  "summary_columns s = [rc_hdr_all s, rc_hdr_get s, rc_hdr_put s, rc_hdr_update s, rc_hdr_scan s, rc_hdr_rmw s]"

definition RC_summary :: "'s rocksdb_cloud \<Rightarrow> (real list \<times> int list \<times> int list \<times> int list) option" where
  "RC_summary s = do {
     means \<leftarrow> those (map hdr_mean (summary_columns s));
     p95 \<leftarrow> those (map (\<lambda>h. hdr_value_at_percentile h 95) (summary_columns s));
     p99 \<leftarrow> those (map (\<lambda>h. hdr_value_at_percentile h 99) (summary_columns s));
     p9999 \<leftarrow> those (map (\<lambda>h. hdr_value_at_percentile h (9999 / 100)) (summary_columns s));
     Some (means, p95, p99, p9999)
   }"

text \<open>
  What \<open>PrintStats\<close> tells: the reads that found nothing, the summary, and the return code and the lines of
  \<open>hdr_percentiles_print\<close> on the output file. A code other than zero is only a further message. As a
  method of the interface it writes to a file that accepts every line.
\<close>

record stats_output =
  so_noResult :: u32
  so_summary :: "real list \<times> int list \<times> int list \<times> int list"
  so_percentiles :: "int \<times> print_line list"

definition RC_PrintStats_to :: "(nat \<Rightarrow> bool) \<Rightarrow> 's rocksdb_cloud \<Rightarrow> run_stop + stats_output" where
  "RC_PrintStats_to f_hdr_output s =
     andthen (or_stop Stop_Undefined (RC_summary s)) (\<lambda>summary.
     andthen (or_stop Stop_Undefined (hdr_percentiles_print f_hdr_output (rc_hdr_all s) 5 1 CLASSIC)) (\<lambda>percentiles.
     Inr \<lparr>so_noResult = rc_noResult s, so_summary = summary, so_percentiles = percentiles\<rparr>))"

definition RC_PrintStats :: "'s rocksdb_cloud \<Rightarrow> run_stop + 's rocksdb_cloud" where
  "RC_PrintStats s = andthen (RC_PrintStats_to (\<lambda>_. True) s) (\<lambda>_. Inr s)"

definition RC_HaveBalancedDistribution :: "'s rocksdb_cloud \<Rightarrow> bool" where
  "RC_HaveBalancedDistribution s = True"

definition RocksDBCloud :: "'s kv_lib \<Rightarrow> 's rocksdb_cloud db_ops" where
  "RocksDBCloud lib =
     \<lparr>db_Init = Inr, db_Close = Inr, db_Read = RC_Read lib, db_Scan = RC_Scan lib,
      db_Update = RC_Update lib, db_Insert = RC_Insert lib, db_Delete = RC_Delete lib,
      db_HaveBalancedDistribution = RC_HaveBalancedDistribution, db_PrintStats = RC_PrintStats,
      db_RecordTime = RC_RecordTime, db_latency_hiccup = RC_latency_hiccup\<rparr>"

section \<open>Histograms as multisets of times\<close>

text \<open>A latency histogram with the slots of \<open>h0\<close> that holds the values \<open>M\<close>.\<close>

definition latency_hist :: "hdr_histogram \<Rightarrow> hdr_histogram \<Rightarrow> int multiset \<Rightarrow> bool" where
  "latency_hist h0 h M \<longleftrightarrow> hdr_abs h M \<and> normalizing_index_offset h = 0 \<and> (\<forall>v. trackable h v = trackable h0 v)"

text \<open>What one recorded time adds.\<close>

definition recorded_time :: "hdr_histogram \<Rightarrow> u64 \<Rightarrow> int multiset" where
  "recorded_time h0 t = (if trackable h0 (sint t) then {#sint t#} else {#})"

lemma size_recorded_time: "size (recorded_time h0 t) \<le> 1"
  by (simp add: recorded_time_def)

lemma record_into_hist:
  assumes "latency_hist h0 h M" "int (size M) < INT64_MAX"
  shows "\<exists>h'. record_into t h = Inr h' \<and> latency_hist h0 h' (M + recorded_time h0 t)"
proof (cases "trackable h0 (sint t)")
  case True
  have abs: "hdr_abs h M" and off: "normalizing_index_offset h = 0" and tr: "\<And>v. trackable h v = trackable h0 v"
    using assms(1) by (simp_all add: latency_hist_def)
  from True tr have t: "trackable h (sint t)" by simp
  obtain h' where h': "hdr_record_values h (sint t) (int 1) = Some (True, h')" "hdr_abs h' (M + replicate_mset 1 (sint t))"
    using hdr_record_values_abs [OF abs t, of 1] assms(2) by auto
  have "normalizing_index_offset h' = 0 \<and> (\<forall>v. trackable h' v = trackable h v)"
    using h'(1) hdr_record_values_trackable [OF hdr_absD(1,2) [OF abs] t, of 1] off by (auto simp: update_min_max_eq)
  then show ?thesis
    using h' tr True by (simp add: record_into_def hdr_record_value_def latency_hist_def recorded_time_def)
next
  case False
  then have "\<not> trackable h (sint t)" using assms(1) by (simp add: latency_hist_def)
  moreover have "sint t < value_limit" using sint_less [of t] by simp
  ultimately have "hdr_record_values h (sint t) 1 = Some (False, h)"
    using assms(1) hdr_absD(1) by (intro hdr_record_values_untrackable) (auto simp: latency_hist_def)
  then show ?thesis
    using False assms(1) by (simp add: record_into_def hdr_record_value_def recorded_time_def)
qed

text \<open>The contents of all histograms: everything, the last second, and by operation code.\<close>

definition latencies :: "hdr_histogram \<Rightarrow> 's rocksdb_cloud \<Rightarrow> int multiset \<Rightarrow> int multiset \<Rightarrow> (int \<Rightarrow> int multiset) \<Rightarrow> bool" where
  "latencies h0 s A L F \<longleftrightarrow>
     latency_hist h0 (rc_hdr_all s) A \<and> latency_hist h0 (rc_hdr_last_1s s) L
     \<and> latency_hist h0 (rc_hdr_put s) (F 1) \<and> latency_hist h0 (rc_hdr_get s) (F 2)
     \<and> latency_hist h0 (rc_hdr_update s) (F 3) \<and> latency_hist h0 (rc_hdr_scan s) (F 4)
     \<and> latency_hist h0 (rc_hdr_rmw s) (F 5)"

text \<open>Room for \<open>n\<close> more times.\<close>

definition room :: "nat \<Rightarrow> int multiset \<Rightarrow> int multiset \<Rightarrow> (int \<Rightarrow> int multiset) \<Rightarrow> bool" where
  "room n A L F \<longleftrightarrow> int (size A + n) \<le> INT64_MAX \<and> int (size L + n) \<le> INT64_MAX
     \<and> (\<forall>i. int (size (F i) + n) \<le> INT64_MAX)"

lemma room_less:
  assumes "room (Suc n) A L F"
  shows "int (size A) < INT64_MAX" "int (size L) < INT64_MAX" "int (size (F i)) < INT64_MAX"
proof -
  have le: "int (size A + Suc n) \<le> INT64_MAX" "int (size L + Suc n) \<le> INT64_MAX" "int (size (F i) + Suc n) \<le> INT64_MAX"
    using assms unfolding room_def by blast+
  show "int (size A) < INT64_MAX" using le(1) by linarith
  show "int (size L) < INT64_MAX" using le(2) by linarith
  show "int (size (F i)) < INT64_MAX" using le(3) by linarith
qed

lemma room_step:
  assumes "room (Suc n) A L F" "size x \<le> 1"
  shows "room n (A + x) (L + x) (F(op := F op + x))"
proof -
  have step: "int (size (B + x) + n) \<le> INT64_MAX" if "int (size B + Suc n) \<le> INT64_MAX" for B :: "int multiset"
    using that assms(2) by simp
  have keep: "int (size B + n) \<le> INT64_MAX" if "int (size B + Suc n) \<le> INT64_MAX" for B :: "int multiset"
    using that by simp
  have "int (size ((F(op := F op + x)) i) + n) \<le> INT64_MAX" for i
  proof -
    have "int (size (F i) + Suc n) \<le> INT64_MAX" using assms(1) unfolding room_def by blast
    from step [OF this] keep [OF this] show ?thesis by (cases "i = op") auto
  qed
  then show ?thesis
    using assms(1) step unfolding room_def by blast
qed

lemma RecordTime_latencies:
  assumes "latencies h0 s A L F" "room (Suc n) A L F"
  shows "\<exists>s'. RC_RecordTime op t s = Inr s'
    \<and> latencies h0 s' (A + recorded_time h0 t) (L + recorded_time h0 t) (F(op := F op + recorded_time h0 t))
    \<and> room n (A + recorded_time h0 t) (L + recorded_time h0 t) (F(op := F op + recorded_time h0 t))
    \<and> rc_db s' = rc_db s \<and> rc_noResult s' = rc_noResult s \<and> rc_hiccups s' = rc_hiccups s
    \<and> rc_qps s' = i64 (rc_qps s + 1)"
proof -
  have hist: "latency_hist h0 (rc_hdr_all s) A" "latency_hist h0 (rc_hdr_last_1s s) L"
    "latency_hist h0 (rc_hdr_put s) (F 1)" "latency_hist h0 (rc_hdr_get s) (F 2)"
    "latency_hist h0 (rc_hdr_update s) (F 3)" "latency_hist h0 (rc_hdr_scan s) (F 4)"
    "latency_hist h0 (rc_hdr_rmw s) (F 5)"
    using assms(1) by (simp_all add: latencies_def)
  note small = room_less [OF assms(2)]
  have "room n (A + recorded_time h0 t) (L + recorded_time h0 t) (F(op := F op + recorded_time h0 t))"
    by (rule room_step [OF assms(2) size_recorded_time])
  moreover obtain a l where "record_into t (rc_hdr_all s) = Inr a" "latency_hist h0 a (A + recorded_time h0 t)"
    "record_into t (rc_hdr_last_1s s) = Inr l" "latency_hist h0 l (L + recorded_time h0 t)"
    using record_into_hist [OF hist(1) small(1), of t] record_into_hist [OF hist(2) small(2), of t] by blast
  moreover obtain p g u c r where
    "record_into t (rc_hdr_put s) = Inr p" "latency_hist h0 p (F 1 + recorded_time h0 t)"
    "record_into t (rc_hdr_get s) = Inr g" "latency_hist h0 g (F 2 + recorded_time h0 t)"
    "record_into t (rc_hdr_update s) = Inr u" "latency_hist h0 u (F 3 + recorded_time h0 t)"
    "record_into t (rc_hdr_scan s) = Inr c" "latency_hist h0 c (F 4 + recorded_time h0 t)"
    "record_into t (rc_hdr_rmw s) = Inr r" "latency_hist h0 r (F 5 + recorded_time h0 t)"
    using record_into_hist [OF hist(3) small(3), of t] record_into_hist [OF hist(4) small(3), of t]
      record_into_hist [OF hist(5) small(3), of t] record_into_hist [OF hist(6) small(3), of t]
      record_into_hist [OF hist(7) small(3), of t] by metis
  moreover consider "op = 1" | "op = 2" | "op = 3" | "op = 4" | "op = 5" | "op \<notin> {1, 2, 3, 4, 5}" by blast
  ultimately show ?thesis
    using hist by cases (simp_all add: RC_RecordTime_def Let_def latencies_def)
qed

section \<open>Reports\<close>

text \<open>The percentile of a multiset as a latency histogram reports it.\<close>

definition reported_percentile :: "hdr_histogram \<Rightarrow> int multiset \<Rightarrow> real \<Rightarrow> int" where
  "reported_percentile h M p = highest_equivalent_value h (ranked_value M (percentile_rank (int (size M)) p))"

lemma latency_percentile:
  assumes "latency_hist h0 h M" "M \<noteq> {#}" "0 < p"
  shows "hdr_value_at_percentile h p = Some (reported_percentile h M p)"
proof -
  have abs: "hdr_abs h M" and off: "normalizing_index_offset h = 0"
    using assms(1) by (simp_all add: latency_hist_def)
  note wf = hdr_absD(1) [OF abs]
  let ?v = "ranked_value M (percentile_rank (int (size M)) p)"
  have "?v \<in># M"
    using percentile_rank_bounds [OF assms(2)] assms(3) by (intro ranked_value_mem) auto
  note t = trackableD(1,2) [OF wf hdr_absD(3) [OF abs this]]
  show ?thesis
    using get_value_rank [OF abs off assms(2), of p] lowest_equivalent_idem(1) [OF wf t]
      highest_median_of_lowest(1) [OF wf t] assms(3)
    by (auto simp: hdr_value_at_percentile_def ranked_value_def Let_def reported_percentile_def)
qed

definition reported_mean :: "hdr_histogram \<Rightarrow> int multiset \<Rightarrow> real" where
  "reported_mean h M = real_of_int (\<Sum>v\<in>#M. hdr_median_equivalent_value h v) / real (size M)"

lemma latency_reset:
  "latency_hist h0 h M \<Longrightarrow> latency_hist h0 (hdr_reset h) {#}"
  using hdr_reset_abs [of h] hdr_absD(1,2) [of h M] by (auto simp: latency_hist_def hdr_reset_def)

lemma latency_hiccup_total:
  assumes "latencies h0 s A L F"
  shows "\<exists>s'. RC_latency_hiccup iops s = Inr s' \<and> latencies h0 s' A {#} F \<and> rc_db s' = rc_db s
    \<and> rc_noResult s' = rc_noResult s"
proof -
  have l: "latency_hist h0 (rc_hdr_last_1s s) L" using assms by (simp add: latencies_def)
  then have abs: "hdr_abs (rc_hdr_last_1s s) L" by (simp add: latency_hist_def)
  obtain m where "hdr_mean (rc_hdr_last_1s s) = Some m" using hdr_mean_total [OF abs] by blast
  moreover obtain p q r where "hdr_value_at_percentile (rc_hdr_last_1s s) 95 = Some p"
    "hdr_value_at_percentile (rc_hdr_last_1s s) 99 = Some q"
    "hdr_value_at_percentile (rc_hdr_last_1s s) (9999 / 100) = Some r"
    using hdr_value_at_percentile_total [OF hdr_absD(1) [OF abs]] by metis
  ultimately show ?thesis
    using latency_reset [OF l] assms by (simp add: RC_latency_hiccup_def Let_def latencies_def)
qed

section \<open>Records in the store\<close>

definition store_ok :: "('s \<Rightarrow> string \<Rightarrow> byte list option) \<Rightarrow> 's \<Rightarrow> bool" where
  "store_ok view d \<longleftrightarrow> (\<forall>k b. view d k = Some b \<longrightarrow> (\<exists>kvs. \<forall>acc. DeSerializeValues b acc = Some (acc @ kvs)))"

text \<open>The record under a key, as its list of fields.\<close>

definition record_at :: "('s \<Rightarrow> string \<Rightarrow> byte list option) \<Rightarrow> 's \<Rightarrow> string \<Rightarrow> kvpair list option" where
  "record_at view d k = Option.bind (view d k) (\<lambda>b. DeSerializeValues b [])"

lemma kv_okD:
  assumes "kv_ok lib view"
  shows "view d k = None \<Longrightarrow> fst (kv_Get lib d k) = KV_NotFound"
    "view d k = Some v \<Longrightarrow> kv_Get lib d k = (KV_OK, v)"
    "fst (kv_Put lib d k v) = KV_OK" "view (snd (kv_Put lib d k v)) = (view d)(k \<mapsto> v)"
    "fst (kv_Delete lib d k) = KV_OK" "view (snd (kv_Delete lib d k)) = (view d)(k := None)"
  using assms unfolding kv_ok_def by (auto split: option.splits) (metis option.case)+

lemma RC_Insert_correct:
  assumes "kv_ok lib view" "store_ok view (rc_db s)" "length kvs < 2 ^ 32" "list_all pair_fits kvs"
  shows "\<exists>d. RC_Insert lib table key kvs s = Inr (kOK, s\<lparr>rc_db := d\<rparr>) \<and> store_ok view d
    \<and> record_at view d = (record_at view (rc_db s))(key \<mapsto> kvs)"
proof -
  obtain b where b: "SerializeValues kvs = Some b" "\<And>acc. DeSerializeValues b acc = Some (acc @ kvs)"
    using serialized_record [OF assms(3,4)] by blast
  obtain d where put: "kv_Put lib (rc_db s) key b = (KV_OK, d)"
    using kv_okD(3) [OF assms(1), of "rc_db s" key b] by (metis prod.collapse)
  have view: "view d = (view (rc_db s))(key \<mapsto> b)"
    using kv_okD(4) [OF assms(1), of "rc_db s" key b] put by simp
  have "store_ok view d"
    using assms(2) b(2) by (auto simp: store_ok_def view)
  moreover have "record_at view d = (record_at view (rc_db s))(key \<mapsto> kvs)"
    using b(2) [of "[]"] by (auto simp: record_at_def view fun_eq_iff)
  ultimately show ?thesis using b(1) put by (intro exI [of _ d]) (simp add: RC_Insert_def)
qed

lemma RC_Read_correct:
  assumes "kv_ok lib view" "store_ok view (rc_db s)"
  shows "RC_Read lib table key flds result s =
    (case record_at view (rc_db s) key of
       None \<Rightarrow> Inr (kOK, result, s\<lparr>rc_noResult := rc_noResult s + 1\<rparr>)
     | Some kvs \<Rightarrow> Inr (kOK, result @ kvs, s))"
proof (cases "view (rc_db s) key")
  case None
  then have "fst (kv_Get lib (rc_db s) key) = KV_NotFound" by (rule kv_okD(1) [OF assms(1)])
  then show ?thesis
    using None by (cases "kv_Get lib (rc_db s) key") (simp add: RC_Read_def record_at_def)
next
  case (Some b)
  obtain kvs where "\<And>acc. DeSerializeValues b acc = Some (acc @ kvs)"
    using assms(2) Some unfolding store_ok_def by blast
  then show ?thesis
    using kv_okD(2) [OF assms(1) Some] Some by (simp add: RC_Read_def record_at_def)
qed

lemma RC_Delete_correct:
  assumes "kv_ok lib view" "store_ok view (rc_db s)"
  shows "\<exists>d. RC_Delete lib table key s = Inr (kOK, s\<lparr>rc_db := d\<rparr>) \<and> store_ok view d
    \<and> record_at view d = (record_at view (rc_db s))(key := None)"
proof -
  obtain d where del: "kv_Delete lib (rc_db s) key = (KV_OK, d)"
    using kv_okD(5) [OF assms(1), of "rc_db s" key] by (metis prod.collapse)
  have view: "view d = (view (rc_db s))(key := None)"
    using kv_okD(6) [OF assms(1), of "rc_db s" key] del by simp
  have "store_ok view d" "record_at view d = (record_at view (rc_db s))(key := None)"
    using assms(2) by (auto simp: store_ok_def record_at_def view fun_eq_iff)
  then show ?thesis using del by (intro exI [of _ d]) (simp add: RC_Delete_def)
qed

text \<open>The invariant of the database: a working store that holds only records, histograms with room, and few enough
  times that the ticks of the percentile rows stay within 64 bits.\<close>

definition rocks_inv :: "'s kv_lib \<Rightarrow> nat \<Rightarrow> 's rocksdb_cloud \<Rightarrow> bool" where
  "rocks_inv lib n s \<longleftrightarrow> (\<exists>view. kv_ok lib view \<and> store_ok view (rc_db s))
     \<and> (\<exists>h0 A L F. latencies h0 s A L F \<and> room n A L F \<and> 20 * int (size A + n) \<le> INT64_MAX)"

lemma latencies_frame [simp]:
  "latencies h0 (s\<lparr>rc_db := d\<rparr>) A L F = latencies h0 s A L F"
  "latencies h0 (s\<lparr>rc_noResult := x\<rparr>) A L F = latencies h0 s A L F"
  by (simp_all add: latencies_def)

lemma RC_Insert_inv:
  assumes "rocks_inv lib n s" "length kvs < 2 ^ 32" "list_all pair_fits kvs"
  shows "\<exists>s'. RC_Insert lib table key kvs s = Inr (kOK, s') \<and> rocks_inv lib n s'"
proof -
  obtain view where "kv_ok lib view" "store_ok view (rc_db s)" using assms(1) by (auto simp: rocks_inv_def)
  then obtain d where "RC_Insert lib table key kvs s = Inr (kOK, s\<lparr>rc_db := d\<rparr>)" "store_ok view d" "kv_ok lib view"
    using RC_Insert_correct [of lib view s kvs table key] assms(2,3) by blast
  then show ?thesis using assms(1) by (auto simp: rocks_inv_def)
qed

interpretation rocks_db: database "RocksDBCloud lib" "rocks_inv lib" "\<lambda>_. True" for lib
proof unfold_locales
  fix n s table key flds result
  assume inv: "rocks_inv lib n s"
  then obtain view where view: "kv_ok lib view" "store_ok view (rc_db s)" by (auto simp: rocks_inv_def)
  show "\<exists>c r s'. db_Read (RocksDBCloud lib) table key flds result s = Inr (c, r, s') \<and> 0 \<le> c \<and> rocks_inv lib n s'"
    using RC_Read_correct [OF view, of table key flds result] inv
    by (cases "record_at view (rc_db s) key") (auto simp: RocksDBCloud_def kOK_def rocks_inv_def)
next
  fix n s table key kvs
  assume "rocks_inv lib n s" "length kvs < 2 ^ 32" "list_all pair_fits kvs"
  from RC_Insert_inv [OF this, of table key]
  show "\<exists>c s'. db_Update (RocksDBCloud lib) table key kvs s = Inr (c, s') \<and> 0 \<le> c \<and> rocks_inv lib n s'"
    "\<exists>c s'. db_Insert (RocksDBCloud lib) table key kvs s = Inr (c, s') \<and> 0 \<le> c \<and> rocks_inv lib n s'"
    by (auto simp: RocksDBCloud_def RC_Update_def kOK_def)
next
  fix n s op t
  assume inv: "rocks_inv lib (Suc n) s"
  then obtain h0 A L F where l: "latencies h0 s A L F" "room (Suc n) A L F" and rows: "20 * int (size A + Suc n) \<le> INT64_MAX"
    by (auto simp: rocks_inv_def)
  have "20 * int (size (A + recorded_time h0 t) + n) \<le> INT64_MAX" using rows size_recorded_time [of h0 t] by simp
  with RecordTime_latencies [OF l] show "\<exists>s'. db_RecordTime (RocksDBCloud lib) op t s = Inr s' \<and> rocks_inv lib n s'"
    using inv unfolding rocks_inv_def RocksDBCloud_def db_ops.simps by metis
next
  fix n s iops
  assume inv: "rocks_inv lib n s"
  then obtain h0 A L F where l: "latencies h0 s A L F" "room n A L F" and rows: "20 * int (size A + n) \<le> INT64_MAX"
    by (auto simp: rocks_inv_def)
  then have "room n A {#} F" by (simp add: room_def)
  with rows latency_hiccup_total [OF l(1), of iops]
  show "\<exists>s'. db_latency_hiccup (RocksDBCloud lib) iops s = Inr s' \<and> rocks_inv lib n s'"
    using inv unfolding rocks_inv_def RocksDBCloud_def db_ops.simps by metis
qed (simp_all add: RocksDBCloud_def RC_Scan_def kOK_def)

section \<open>The recorded run\<close>

fun record_all :: "(int \<times> u64) list \<Rightarrow> 's rocksdb_cloud \<Rightarrow> run_stop + 's rocksdb_cloud" where
  "record_all [] s = Inr s"
| "record_all ((op, t) # calls) s = andthen (RC_RecordTime op t s) (record_all calls)"

definition times_of :: "hdr_histogram \<Rightarrow> (int \<times> u64) list \<Rightarrow> int multiset" where
  "times_of h0 calls = (\<Sum>(op, t) \<leftarrow> calls. recorded_time h0 t)"

lemma record_all_latencies:
  assumes "latencies h0 s A L F" "room (length calls) A L F"
  shows "\<exists>s'. record_all calls s = Inr s' \<and> rc_db s' = rc_db s
    \<and> latencies h0 s' (A + times_of h0 calls) (L + times_of h0 calls)
        (\<lambda>i. F i + times_of h0 (filter (\<lambda>c. fst c = i) calls))"
  using assms
proof (induction calls arbitrary: s A L F)
  case Nil
  then show ?case by (simp add: times_of_def)
next
  case (Cons call calls)
  obtain op t where call: "call = (op, t)" by (cases call)
  obtain s1 where s1: "RC_RecordTime op t s = Inr s1" "rc_db s1 = rc_db s"
    "latencies h0 s1 (A + recorded_time h0 t) (L + recorded_time h0 t) (F(op := F op + recorded_time h0 t))"
    "room (length calls) (A + recorded_time h0 t) (L + recorded_time h0 t) (F(op := F op + recorded_time h0 t))"
    using RecordTime_latencies [OF Cons.prems(1), of "length calls" op t] Cons.prems(2) by auto
  obtain s' where "record_all calls s1 = Inr s'" "rc_db s' = rc_db s1"
    and l: "latencies h0 s' (A + recorded_time h0 t + times_of h0 calls) (L + recorded_time h0 t + times_of h0 calls)
        (\<lambda>i. (F(op := F op + recorded_time h0 t)) i + times_of h0 (filter (\<lambda>c. fst c = i) calls))"
    using Cons.IH [OF s1(3,4)] by blast
  moreover have "(\<lambda>i. (F(op := F op + recorded_time h0 t)) i + times_of h0 (filter (\<lambda>c. fst c = i) calls))
      = (\<lambda>i. F i + times_of h0 (filter (\<lambda>c. fst c = i) (call # calls)))"
    by (auto simp: call times_of_def fun_eq_iff)
  ultimately show ?case
    using s1(1,2) by (simp add: call times_of_def add.assoc)
qed

lemma latency_histogram_made:
  "latency_histogram calloc i = Inr r \<Longrightarrow> \<not> isl r \<Longrightarrow> hdr_init (calloc i) 1 3600000000 3 = Some (Inr (projr r))"
  by (auto simp: latency_histogram_def or_stop_def split: option.splits)

lemma hdr_init_deterministic:
  assumes "hdr_init c lo hi sf = Some (Inr h)" "hdr_init c' lo hi sf = Some (Inr h')"
  shows "h' = h"
  using assms by (auto simp: hdr_init_def split: option.splits sum.splits if_splits)

lemma latency_setup_cases:
  assumes "latency_setup calloc output hiccup = Inr hs"
  obtains h where "hdr_init (calloc 0) 1 3600000000 3 = Some (Inr h)" "hs = (h, h, h, h, h, h, h)"
proof -
  obtain a b c d e f g where
    made: "latency_histogram calloc 0 = Inr a" "latency_histogram calloc 1 = Inr b" "latency_histogram calloc 2 = Inr c"
      "latency_histogram calloc 3 = Inr d" "latency_histogram calloc 4 = Inr e" "latency_histogram calloc 5 = Inr f"
      "latency_histogram calloc 6 = Inr g"
    and body: "\<not> isl a" "\<not> list_ex isl [b, c, d, e, f, g]"
      "hs = (projr a, projr b, projr c, projr d, projr e, projr f, projr g)"
    using assms unfolding latency_setup_def andthen_eq_Inr by (metis sum.distinct(1) sum.inject(2))
  note first = latency_histogram_made [OF made(1) body(1)]
  have same: "projr r = projr a" if "latency_histogram calloc i = Inr r" "\<not> isl r" for i r
    using hdr_init_deterministic [OF first latency_histogram_made [OF that]] .
  have "projr b = projr a" "projr c = projr a" "projr d = projr a" "projr e = projr a" "projr f = projr a" "projr g = projr a"
    using body(2) made(2-) by (auto intro: same)
  with that [OF first] body(3) show thesis by simp
qed

lemma RocksDBCloud_new_cases:
  assumes "RocksDBCloud_new calloc output hiccup qps (Inr store) = Inr s"
  obtains h where "hdr_init (calloc 0) 1 3600000000 3 = Some (Inr h)"
    "s = \<lparr>rc_db = store, rc_noResult = 0, rc_qps = qps, rc_hdr_all = h, rc_hdr_last_1s = h, rc_hdr_get = h,
          rc_hdr_put = h, rc_hdr_update = h, rc_hdr_scan = h, rc_hdr_rmw = h, rc_hiccups = []\<rparr>"
proof -
  obtain hs where hs: "latency_setup calloc output hiccup = Inr hs"
    using assms by (auto simp: RocksDBCloud_new_def andthen_eq_Inr)
  obtain h where "hdr_init (calloc 0) 1 3600000000 3 = Some (Inr h)" "hs = (h, h, h, h, h, h, h)"
    by (rule latency_setup_cases [OF hs])
  with that assms hs show thesis by (simp add: RocksDBCloud_new_def)
qed

lemma RocksDBCloud_new_latencies:
  assumes "RocksDBCloud_new calloc output hiccup qps (Inr store) = Inr s"
  shows "latencies (rc_hdr_all s) s {#} {#} (\<lambda>_. {#})" "rc_db s = store" "rc_hiccups s = []"
    "0 \<le> v \<Longrightarrow> v \<le> 3600000000 \<Longrightarrow> trackable (rc_hdr_all s) v"
proof -
  obtain h where h: "hdr_init (calloc 0) 1 3600000000 3 = Some (Inr h)"
    and s: "s = \<lparr>rc_db = store, rc_noResult = 0, rc_qps = qps, rc_hdr_all = h, rc_hdr_last_1s = h, rc_hdr_get = h,
                 rc_hdr_put = h, rc_hdr_update = h, rc_hdr_scan = h, rc_hdr_rmw = h, rc_hiccups = []\<rparr>"
    using RocksDBCloud_new_cases [OF assms] by blast
  have ok: "hdr_abs h {#}" "normalizing_index_offset h = 0" "highest_trackable_value h = 3600000000" "hdr_config_wf h"
    using hdr_init_abs [OF _ _ h] hdr_init_success(1,6,7) [OF _ _ h] by simp_all
  then show "latencies (rc_hdr_all s) s {#} {#} (\<lambda>_. {#})"
    by (simp add: s latencies_def latency_hist_def)
  show "rc_db s = store" "rc_hiccups s = []" by (simp_all add: s)
  show "trackable (rc_hdr_all s) v" if "0 \<le> v" "v \<le> 3600000000"
    using that hdr_config_wf_precision(2) [OF ok(4)] ok(3) counts_index_for_less_iff [OF ok(4), of v]
    by (simp add: s trackable_def)
qed

text \<open>The configuration takes exactly the 23552 slots the constructor allows.\<close>

lemma latency_config: "map_option (map_sum id cfg_counts_len) (hdr_calculate_bucket_config 1 3600000000 3) = Some (Inr 23552)"
  by code_simp

lemma latency_setup_succeeds: "\<exists>hs. latency_setup (\<lambda>_ _. True) True True = Inr hs"
proof -
  obtain cfg where cfg: "hdr_calculate_bucket_config 1 3600000000 3 = Some (Inr cfg)" "cfg_counts_len cfg = 23552"
    using latency_config by (cases "the (hdr_calculate_bucket_config 1 3600000000 3)") auto
  then have "latency_histogram (\<lambda>_ _. True) i
      = Inr (Inr (hdr_init_preallocated (calloc_histogram (replicate (nat (cfg_counts_len cfg)) 0)) cfg))" for i
    by (simp add: latency_histogram_def hdr_init_def)
  moreover have "counts_len (hdr_init_preallocated g cfg) = 23552" for g
    using cfg(2) by (simp add: hdr_init_preallocated_def)
  ultimately show ?thesis by (simp add: latency_setup_def)
qed

lemma RocksDBCloud_new_succeeds: "\<exists>s. RocksDBCloud_new (\<lambda>_ _. True) True True qps (Inr store) = Inr s"
  using latency_setup_succeeds by (auto simp: RocksDBCloud_new_def)

definition hour_times :: "(int \<times> u64) list \<Rightarrow> bool" where
  "hour_times calls \<longleftrightarrow> list_all (\<lambda>(op, t). 1 \<le> op \<and> op \<le> 5 \<and> t \<le> 3600000000) calls"

abbreviation call_times :: "(int \<times> u64) list \<Rightarrow> int multiset" where
  "call_times calls \<equiv> mset (map (\<lambda>c. uint (snd c)) calls)"

abbreviation calls_of :: "int \<Rightarrow> (int \<times> u64) list \<Rightarrow> (int \<times> u64) list" where
  "calls_of op calls \<equiv> filter (\<lambda>c. fst c = op) calls"

lemma sint_eq_uint_hour: "t \<le> (3600000000 :: u64) \<Longrightarrow> sint t = uint t \<and> 0 \<le> uint t \<and> uint t \<le> 3600000000"
proof -
  assume "t \<le> (3600000000 :: u64)"
  then have le: "uint t \<le> 3600000000" by (simp add: word_le_def)
  moreover have "- 9223372036854775808 \<le> uint t" using uint_nonnegative [of t] by linarith
  ultimately have "signed_take_bit 63 (uint t) = uint t"
    using signed_take_bit_int_eq_self [of 63 "uint t"] by simp
  then have "sint t = uint t" by (simp add: sint_uint)
  with le show ?thesis by simp
qed

lemma times_of_hour:
  assumes "\<And>v. 0 \<le> v \<Longrightarrow> v \<le> 3600000000 \<Longrightarrow> trackable h0 v" "hour_times calls"
  shows "times_of h0 calls = call_times calls"
  using assms(2)
proof (induction calls)
  case (Cons c calls)
  then show ?case
    using sint_eq_uint_hour [of "snd c"] assms(1) by (cases c) (simp add: times_of_def recorded_time_def hour_times_def)
qed (simp add: times_of_def)

lemma hour_times_filter: "hour_times calls \<Longrightarrow> hour_times (filter P calls)"
  by (auto simp: hour_times_def list_all_iff)

lemma sum_by_operation:
  "hour_times calls \<Longrightarrow> length calls = length (calls_of 1 calls) + length (calls_of 2 calls)
     + length (calls_of 3 calls) + length (calls_of 4 calls) + length (calls_of 5 calls)"
proof (induction calls)
  case (Cons c calls)
  obtain op t where c: "c = (op, t)" by (cases c)
  then have "1 \<le> op" "op \<le> 5" using Cons.prems by (simp_all add: hour_times_def)
  then consider "op = 1" | "op = 2" | "op = 3" | "op = 4" | "op = 5" by linarith
  then show ?case using Cons c by cases (simp_all add: hour_times_def)
qed simp

section \<open>Properties\<close>

text \<open>C11: After any sequence of timed operations of up to one hour each, on a database that was just
  made, the overall histogram holds exactly the recorded times, the histogram of each kind of operation
  holds the times of that kind, and the five partial totals add up to the overall total; the stored
  records are untouched.\<close>

theorem RecordTime_partitions:
  assumes "RocksDBCloud_new calloc output hiccup qps (Inr store) = Inr s" "hour_times calls"
    "int (length calls) \<le> INT64_MAX"
  shows "\<exists>s'. record_all calls s = Inr s' \<and> rc_db s' = store
    \<and> hdr_abs (rc_hdr_all s') (call_times calls) \<and> hdr_abs (rc_hdr_put s') (call_times (calls_of 1 calls))
    \<and> hdr_abs (rc_hdr_get s') (call_times (calls_of 2 calls)) \<and> hdr_abs (rc_hdr_update s') (call_times (calls_of 3 calls))
    \<and> hdr_abs (rc_hdr_scan s') (call_times (calls_of 4 calls)) \<and> hdr_abs (rc_hdr_rmw s') (call_times (calls_of 5 calls))
    \<and> total_count (rc_hdr_all s') = total_count (rc_hdr_put s') + total_count (rc_hdr_get s')
        + total_count (rc_hdr_update s') + total_count (rc_hdr_scan s') + total_count (rc_hdr_rmw s')"
proof -
  note new = RocksDBCloud_new_latencies [OF assms(1)]
  have "room (length calls) {#} {#} (\<lambda>_. {#})" using assms(3) by (simp add: room_def)
  from record_all_latencies [OF new(1) this] new(2) obtain s' where
    s': "record_all calls s = Inr s'" "rc_db s' = store" and
    l: "latencies (rc_hdr_all s) s' ({#} + times_of (rc_hdr_all s) calls) ({#} + times_of (rc_hdr_all s) calls)
      (\<lambda>i. {#} + times_of (rc_hdr_all s) (calls_of i calls))" by auto
  have times: "times_of (rc_hdr_all s) calls = call_times calls"
    "\<And>i. times_of (rc_hdr_all s) (calls_of i calls) = call_times (calls_of i calls)"
    using times_of_hour [OF new(4)] hour_times_filter assms(2) by blast+
  have abs: "hdr_abs (rc_hdr_all s') (call_times calls)" "hdr_abs (rc_hdr_put s') (call_times (calls_of 1 calls))"
    "hdr_abs (rc_hdr_get s') (call_times (calls_of 2 calls))" "hdr_abs (rc_hdr_update s') (call_times (calls_of 3 calls))"
    "hdr_abs (rc_hdr_scan s') (call_times (calls_of 4 calls))" "hdr_abs (rc_hdr_rmw s') (call_times (calls_of 5 calls))"
    using l unfolding latencies_def latency_hist_def add_0 times by blast+
  have "total_count (rc_hdr_all s') = total_count (rc_hdr_put s') + total_count (rc_hdr_get s')
      + total_count (rc_hdr_update s') + total_count (rc_hdr_scan s') + total_count (rc_hdr_rmw s')"
    using sum_by_operation [OF assms(2)]
    unfolding hdr_absD(5) [OF abs(1)] hdr_absD(5) [OF abs(2)] hdr_absD(5) [OF abs(3)] hdr_absD(5) [OF abs(4)]
      hdr_absD(5) [OF abs(5)] hdr_absD(5) [OF abs(6)] size_mset length_map by linarith
  with s' abs show ?thesis by blast
qed

theorem RecordTime_partitions_witness:
  "\<exists>s s'. RocksDBCloud_new (\<lambda>_ _. True) True True 0 (Inr ()) = Inr s \<and> record_all [(2, 120), (1, 250), (2, 90)] s = Inr s'
     \<and> hdr_abs (rc_hdr_get s') {#120, 90#}"
proof -
  obtain s where s: "RocksDBCloud_new (\<lambda>_ _. True) True True 0 (Inr ()) = Inr s"
    using RocksDBCloud_new_succeeds [of 0 "()"] by blast
  show ?thesis
    using RecordTime_partitions [OF s, of "[(2, 120), (1, 250), (2, 90)]"] s by (auto simp: hour_times_def)
qed

lemma median_le: "hdr_median_equivalent_value h v \<le> INT64_MAX"
  using i64_range by (simp add: hdr_median_equivalent_value_def)

lemma one_read_recorded:
  obtains h0 and s :: "unit rocksdb_cloud" where
    "latencies h0 s {#500#} {#500#} ((\<lambda>_. {#})(2 := {#500#}))" "rc_hiccups s = []"
proof -
  obtain s :: "unit rocksdb_cloud" where s: "RocksDBCloud_new (\<lambda>_ _. True) True True 0 (Inr ()) = Inr s"
    using RocksDBCloud_new_succeeds [of 0 "()"] by blast
  note new = RocksDBCloud_new_latencies [OF s]
  have t: "recorded_time (rc_hdr_all s) 500 = {#500#}" using new(4) [of 500] by (simp add: recorded_time_def)
  have "room (Suc 0) {#} {#} (\<lambda>_. {#})" by (simp add: room_def)
  from RecordTime_latencies [OF new(1) this, of 2 500] new(3) that show thesis by (auto simp: t)
qed



lemma those_map_Some: "(\<And>x. x \<in> set xs \<Longrightarrow> f x = Some (g x)) \<Longrightarrow> those (map f xs) = Some (map g xs)"
  by (induction xs) auto




text \<open>A store that is a map, as an instance.\<close>

definition map_store :: "(string \<Rightarrow> byte list option) kv_lib" where
  "map_store =
     \<lparr>kv_Get = (\<lambda>m k. case m k of None \<Rightarrow> (KV_NotFound, []) | Some v \<Rightarrow> (KV_OK, v)),
      kv_Put = (\<lambda>m k v. (KV_OK, m(k \<mapsto> v))), kv_Delete = (\<lambda>m k. (KV_OK, m(k := None))),
      kv_Seek = (\<lambda>m k. [])\<rparr>"

lemma map_store_ok: "kv_ok map_store (\<lambda>m. m)"
  by (auto simp: kv_ok_def map_store_def split: option.splits)


end
