(* ===== verification/Ycsb_Hashtable.thy ===== *)
theory Ycsb_Hashtable
  imports Ycsb_Db "HOL-Library.AList"
begin

text \<open>
  The database over two levels of hash tables (\<open>db/hashtable_db.cc\<close>). The abstract class
  \<open>StringHashtable\<close> (\<open>lib/string_hashtable.h\<close>) has no implementation in the repository: its methods
  are a parameter, a record of functions, with the laws the database relies on stated as
  \<open>hashtable_ok\<close>. A table of fields is an object behind a pointer that the table of keys holds: the
  store maps addresses to field tables. The stored strings are never changed, so a copy of a string is
  the string up to its first NUL. The database refines a map from record names to maps from field names
  to values.
\<close>

section \<open>The abstract hash table\<close>

record ('t, 'v) string_hashtable =
  ht_Get :: "'t \<Rightarrow> string \<Rightarrow> 'v option"
  ht_Insert :: "'t \<Rightarrow> string \<Rightarrow> 'v \<Rightarrow> bool \<times> 't"
  ht_Update :: "'t \<Rightarrow> string \<Rightarrow> 'v \<Rightarrow> 'v option \<times> 't"
  ht_Remove :: "'t \<Rightarrow> string \<Rightarrow> 'v option \<times> 't"
  ht_Entries :: "'t \<Rightarrow> string option \<Rightarrow> nat \<Rightarrow> (string \<times> 'v) list"
  ht_Size :: "'t \<Rightarrow> nat"

text \<open>\<open>Insert\<close> refuses a key that is present, \<open>Update\<close> and \<open>Remove\<close> return the old value or NULL.\<close>

definition hashtable_ok :: "('t, 'v) string_hashtable \<Rightarrow> bool" where
  "hashtable_ok ops \<longleftrightarrow>
     (\<forall>t k v. fst (ht_Insert ops t k v) = (ht_Get ops t k = None)
        \<and> ht_Get ops (snd (ht_Insert ops t k v)) =
            (if ht_Get ops t k = None then (ht_Get ops t)(k \<mapsto> v) else ht_Get ops t))
     \<and> (\<forall>t k v. fst (ht_Update ops t k v) = ht_Get ops t k
        \<and> ht_Get ops (snd (ht_Update ops t k v)) =
            (if ht_Get ops t k = None then ht_Get ops t else (ht_Get ops t)(k \<mapsto> v)))
     \<and> (\<forall>t k. fst (ht_Remove ops t k) = ht_Get ops t k
        \<and> ht_Get ops (snd (ht_Remove ops t k)) = (ht_Get ops t)(k := None))
     \<and> (\<forall>t k n. \<forall>(x, v) \<in> set (ht_Entries ops t k n). ht_Get ops t x = Some v)
     \<and> (\<forall>t. map_of (ht_Entries ops t None (2 ^ 64 - 1)) = ht_Get ops t)"

section \<open>The database\<close>

text \<open>The two kinds of table, and \<open>NewFieldHashtable\<close>.\<close>

record ('k, 'f) hashtable_lib =
  key_ops :: "('k, nat) string_hashtable"
  field_ops :: "('f, string) string_hashtable"
  new_field_table :: 'f

record ('k, 'f) hashtable_db =
  key_table :: 'k
  field_tables :: "nat \<Rightarrow> 'f option"
  next_table :: nat

definition c_str :: "string \<Rightarrow> string" where
  "c_str s = takeWhile (\<lambda>c. c \<noteq> CHR 0x00) s"

definition key_index :: "string \<Rightarrow> string \<Rightarrow> string" where
  "key_index table key = c_str (table @ key)"

definition read_fields :: "('f, string) string_hashtable \<Rightarrow> 'f \<Rightarrow> string list option \<Rightarrow> kvpair list" where
  "read_fields ops f flds =
     (case flds of
        None \<Rightarrow> ht_Entries ops f None (2 ^ 64 - 1)
      | Some fs \<Rightarrow>
          List.map_filter (\<lambda>field. map_option (\<lambda>v. (field, v)) (ht_Get ops f (c_str field))) fs)"

definition HT_Read ::
    "('k, 'f) hashtable_lib \<Rightarrow> string \<Rightarrow> string \<Rightarrow> string list option \<Rightarrow> kvpair list \<Rightarrow> ('k, 'f) hashtable_db
       \<Rightarrow> run_stop + int \<times> kvpair list \<times> ('k, 'f) hashtable_db" where
  "HT_Read lib table key flds result s =
     (case ht_Get (key_ops lib) (key_table s) (key_index table key) of
        None \<Rightarrow> Inr (kErrorNoData, result, s)
      | Some p \<Rightarrow>
          andthen (or_stop Stop_Undefined (field_tables s p))
            (\<lambda>f. Inr (kOK, read_fields (field_ops lib) f flds, s)))"

fun scan_loop ::
    "('k, 'f) hashtable_lib \<Rightarrow> ('k, 'f) hashtable_db \<Rightarrow> string list option \<Rightarrow> (string \<times> nat) list
       \<Rightarrow> run_stop + kvpair list list" where
  "scan_loop lib s flds [] = Inr []"
| "scan_loop lib s flds ((k, p) # pairs) =
     andthen (or_stop Stop_Undefined (field_tables s p))
       (\<lambda>f. andthen (scan_loop lib s flds pairs)
         (\<lambda>rest. Inr (read_fields (field_ops lib) f flds # rest)))"

text \<open>The \<open>int\<close> length is converted to a \<open>size_t\<close>.\<close>

definition HT_Scan ::
    "('k, 'f) hashtable_lib \<Rightarrow> string \<Rightarrow> string \<Rightarrow> int \<Rightarrow> string list option \<Rightarrow> kvpair list list
       \<Rightarrow> ('k, 'f) hashtable_db \<Rightarrow> run_stop + int \<times> kvpair list list \<times> ('k, 'f) hashtable_db" where
  "HT_Scan lib table key len flds results s =
     andthen (scan_loop lib s flds
               (ht_Entries (key_ops lib) (key_table s) (Some (key_index table key)) (nat (len mod 2 ^ 64))))
       (\<lambda>rs. Inr (kOK, rs, s))"

text \<open>The loops over the given pairs: inserting into a new table, and updating an old one.\<close>

fun insert_new :: "('f, string) string_hashtable \<Rightarrow> 'f \<Rightarrow> kvpair list \<Rightarrow> 'f" where
  "insert_new ops f [] = f"
| "insert_new ops f ((k, v) # kvs) = insert_new ops (snd (ht_Insert ops f (c_str k) (c_str v))) kvs"

fun update_old :: "('f, string) string_hashtable \<Rightarrow> 'f \<Rightarrow> kvpair list \<Rightarrow> 'f" where
  "update_old ops f [] = f"
| "update_old ops f ((k, v) # kvs) =
     (case ht_Update ops f (c_str k) (c_str v) of
        (None, f') \<Rightarrow> update_old ops (snd (ht_Insert ops f' (c_str k) (c_str v))) kvs
      | (Some _, f') \<Rightarrow> update_old ops f' kvs)"

text \<open>Entering a new field table for a key.\<close>

definition new_record ::
    "('k, 'f) hashtable_lib \<Rightarrow> string \<Rightarrow> ('k, 'f) hashtable_db \<Rightarrow> nat \<times> ('k, 'f) hashtable_db" where
  "new_record lib index s =
     (let p = next_table s in
      (p, s\<lparr>key_table := snd (ht_Insert (key_ops lib) (key_table s) index p),
            field_tables := (field_tables s)(p \<mapsto> new_field_table lib), next_table := p + 1\<rparr>))"

definition HT_Update ::
    "('k, 'f) hashtable_lib \<Rightarrow> string \<Rightarrow> string \<Rightarrow> kvpair list \<Rightarrow> ('k, 'f) hashtable_db
       \<Rightarrow> run_stop + int \<times> ('k, 'f) hashtable_db" where
  "HT_Update lib table key kvs s =
     (case ht_Get (key_ops lib) (key_table s) (key_index table key) of
        None \<Rightarrow>
          (case new_record lib (key_index table key) s of (p, s1) \<Rightarrow>
             Inr (kOK, s1\<lparr>field_tables :=
               (field_tables s1)(p \<mapsto> insert_new (field_ops lib) (new_field_table lib) kvs)\<rparr>))
      | Some p \<Rightarrow>
          andthen (or_stop Stop_Undefined (field_tables s p))
            (\<lambda>f. Inr (kOK, s\<lparr>field_tables := (field_tables s)(p \<mapsto> update_old (field_ops lib) f kvs)\<rparr>)))"

text \<open>The loop of \<open>Insert\<close> returns at the first field that is already there.\<close>

fun insert_loop :: "('f, string) string_hashtable \<Rightarrow> 'f \<Rightarrow> kvpair list \<Rightarrow> int \<times> 'f" where
  "insert_loop ops f [] = (kOK, f)"
| "insert_loop ops f ((k, v) # kvs) =
     (case ht_Insert ops f (c_str k) (c_str v) of
        (True, f') \<Rightarrow> insert_loop ops f' kvs
      | (False, f') \<Rightarrow> (kErrorConflict, f'))"

definition HT_Insert ::
    "('k, 'f) hashtable_lib \<Rightarrow> string \<Rightarrow> string \<Rightarrow> kvpair list \<Rightarrow> ('k, 'f) hashtable_db
       \<Rightarrow> run_stop + int \<times> ('k, 'f) hashtable_db" where
  "HT_Insert lib table key kvs s =
     (let (p, s1) =
        (case ht_Get (key_ops lib) (key_table s) (key_index table key) of
           None \<Rightarrow> new_record lib (key_index table key) s
         | Some p \<Rightarrow> (p, s))
      in andthen (or_stop Stop_Undefined (field_tables s1 p))
           (\<lambda>f. case insert_loop (field_ops lib) f kvs of
                  (c, f') \<Rightarrow> Inr (c, s1\<lparr>field_tables := (field_tables s1)(p \<mapsto> f')\<rparr>)))"

definition HT_Delete ::
    "('k, 'f) hashtable_lib \<Rightarrow> string \<Rightarrow> string \<Rightarrow> ('k, 'f) hashtable_db
       \<Rightarrow> run_stop + int \<times> ('k, 'f) hashtable_db" where
  "HT_Delete lib table key s =
     (case ht_Remove (key_ops lib) (key_table s) (key_index table key) of
        (None, t) \<Rightarrow> Inr (kErrorNoData, s\<lparr>key_table := t\<rparr>)
      | (Some p, t) \<Rightarrow> Inr (kOK, s\<lparr>key_table := t, field_tables := (field_tables s)(p := None)\<rparr>))"

definition HashtableDB :: "('k, 'f) hashtable_lib \<Rightarrow> ('k, 'f) hashtable_db db_ops" where
  "HashtableDB lib =
     \<lparr>db_Init = Inr, db_Close = Inr, db_Read = HT_Read lib, db_Scan = HT_Scan lib,
      db_Update = HT_Update lib, db_Insert = HT_Insert lib, db_Delete = HT_Delete lib,
      db_HaveBalancedDistribution = (\<lambda>_. True), db_PrintStats = Inr,
      db_RecordTime = (\<lambda>_ _. Inr), db_latency_hiccup = (\<lambda>_. Inr)\<rparr>"

section \<open>Invariant and abstraction\<close>

definition hashtable_lib_ok :: "('k, 'f) hashtable_lib \<Rightarrow> bool" where
  "hashtable_lib_ok lib \<longleftrightarrow> hashtable_ok (key_ops lib) \<and> hashtable_ok (field_ops lib)
     \<and> ht_Get (field_ops lib) (new_field_table lib) = Map.empty"

abbreviation table_of :: "('k, 'f) hashtable_lib \<Rightarrow> ('k, 'f) hashtable_db \<Rightarrow> string \<Rightarrow> nat option" where
  "table_of lib s \<equiv> ht_Get (key_ops lib) (key_table s)"

text \<open>Every key points to a live field table of its own, below the next free address.\<close>

definition ht_inv :: "('k, 'f) hashtable_lib \<Rightarrow> ('k, 'f) hashtable_db \<Rightarrow> bool" where
  "ht_inv lib s \<longleftrightarrow>
     (\<forall>k p. table_of lib s k = Some p \<longrightarrow> p < next_table s \<and> field_tables s p \<noteq> None)
     \<and> inj_on (table_of lib s) (dom (table_of lib s))"

text \<open>The records: a map from record names to maps from field names to values.\<close>

definition ht_abs :: "('k, 'f) hashtable_lib \<Rightarrow> ('k, 'f) hashtable_db \<Rightarrow> string \<Rightarrow> (string \<Rightarrow> string option) option" where
  "ht_abs lib s k =
     map_option (\<lambda>p. ht_Get (field_ops lib) (the (field_tables s p))) (table_of lib s k)"

definition c_pairs :: "kvpair list \<Rightarrow> kvpair list" where
  "c_pairs kvs = map (\<lambda>(k, v). (c_str k, c_str v)) kvs"

lemma c_pairs_simps [simp]:
  "c_pairs [] = []" "c_pairs ((k, v) # kvs) = (c_str k, c_str v) # c_pairs kvs"
  "c_pairs (kvs @ kvs') = c_pairs kvs @ c_pairs kvs'"
  by (simp_all add: c_pairs_def)

lemma hashtable_okD:
  assumes "hashtable_ok ops"
  shows "fst (ht_Insert ops t k v) = (ht_Get ops t k = None)"
    "ht_Get ops (snd (ht_Insert ops t k v)) = (if ht_Get ops t k = None then (ht_Get ops t)(k \<mapsto> v) else ht_Get ops t)"
    "fst (ht_Update ops t k v) = ht_Get ops t k"
    "ht_Get ops (snd (ht_Update ops t k v)) = (if ht_Get ops t k = None then ht_Get ops t else (ht_Get ops t)(k \<mapsto> v))"
    "fst (ht_Remove ops t k) = ht_Get ops t k"
    "ht_Get ops (snd (ht_Remove ops t k)) = (ht_Get ops t)(k := None)"
    "(x, y) \<in> set (ht_Entries ops t ko n) \<Longrightarrow> ht_Get ops t x = Some y"
    "map_of (ht_Entries ops t None (2 ^ 64 - 1)) = ht_Get ops t"
  using assms unfolding hashtable_ok_def by blast+

lemma insert_new_get:
  "hashtable_ok ops \<Longrightarrow> ht_Get ops (insert_new ops f kvs) = map_of (c_pairs kvs) ++ ht_Get ops f"
proof (induction ops f kvs rule: insert_new.induct)
  case (2 ops f k v kvs)
  then show ?case
    by (auto simp: hashtable_okD(2) fun_eq_iff map_add_def split: option.splits)
qed simp

lemma update_old_get:
  "hashtable_ok ops \<Longrightarrow> ht_Get ops (update_old ops f kvs) = ht_Get ops f ++ map_of (rev (c_pairs kvs))"
proof (induction kvs arbitrary: f)
  case (Cons kv kvs)
  obtain k v where kv: "kv = (k, v)" by (cases kv)
  obtain old f' where up: "ht_Update ops f (c_str k) (c_str v) = (old, f')" by fastforce
  have old: "old = ht_Get ops f (c_str k)"
    and f': "ht_Get ops f' = (if old = None then ht_Get ops f else (ht_Get ops f)(c_str k \<mapsto> c_str v))"
    using hashtable_okD(3,4) [OF Cons.prems, of f "c_str k" "c_str v"] up by simp_all
  show ?case
  proof (cases old)
    case None
    then show ?thesis
      using Cons old f' up kv by (simp add: hashtable_okD(2) map_add_def fun_eq_iff split: option.splits)
  next
    case (Some x)
    then show ?thesis
      using Cons old f' up kv by (simp add: map_add_def fun_eq_iff split: option.splits)
  qed
qed simp

lemma ht_inv_inj: "ht_inv lib s \<Longrightarrow> table_of lib s x = Some p \<Longrightarrow> table_of lib s y = Some p \<Longrightarrow> x = y"
  unfolding ht_inv_def by (auto elim!: inj_onD)

text \<open>Changing the field table behind a key changes that record only.\<close>

lemma ht_abs_update:
  assumes "ht_inv lib s" "table_of lib s k = Some p"
  shows "ht_abs lib (s\<lparr>field_tables := (field_tables s)(p \<mapsto> f)\<rparr>) = (ht_abs lib s)(k \<mapsto> ht_Get (field_ops lib) f)"
    "ht_inv lib (s\<lparr>field_tables := (field_tables s)(p \<mapsto> f)\<rparr>)"
proof -
  have inj: "x = k" if "table_of lib s x = Some p" for x
    using ht_inv_inj [OF assms(1) that assms(2)] .
  show "ht_abs lib (s\<lparr>field_tables := (field_tables s)(p \<mapsto> f)\<rparr>) = (ht_abs lib s)(k \<mapsto> ht_Get (field_ops lib) f)"
  proof
    fix x
    show "ht_abs lib (s\<lparr>field_tables := (field_tables s)(p \<mapsto> f)\<rparr>) x
        = ((ht_abs lib s)(k \<mapsto> ht_Get (field_ops lib) f)) x"
    proof (cases "table_of lib s x = Some p")
      case True
      with inj have "x = k" by blast
      with assms(2) show ?thesis by (simp add: ht_abs_def)
    next
      case False
      with assms(2) show ?thesis by (cases "table_of lib s x") (auto simp: ht_abs_def)
    qed
  qed
  show "ht_inv lib (s\<lparr>field_tables := (field_tables s)(p \<mapsto> f)\<rparr>)"
    using assms(1) by (simp add: ht_inv_def)
qed

lemma new_record_correct:
  assumes "hashtable_lib_ok lib" "ht_inv lib s" "table_of lib s k = None" "new_record lib k s = (p, s1)"
  shows "ht_inv lib s1" "table_of lib s1 k = Some p" "field_tables s1 p = Some (new_field_table lib)"
    "ht_abs lib s1 = (ht_abs lib s)(k \<mapsto> Map.empty)"
proof -
  have s1: "s1 = s\<lparr>key_table := snd (ht_Insert (key_ops lib) (key_table s) k p),
      field_tables := (field_tables s)(p \<mapsto> new_field_table lib), next_table := p + 1\<rparr>" and p: "p = next_table s"
    using assms(4) by (auto simp: new_record_def Let_def)
  have key: "table_of lib s1 = (table_of lib s)(k \<mapsto> p)"
    using assms(1,3) by (simp add: s1 hashtable_lib_ok_def hashtable_okD(2))
  have fresh: "table_of lib s x \<noteq> Some p" for x
    using assms(2) by (auto simp: ht_inv_def p)
  show "table_of lib s1 k = Some p" "field_tables s1 p = Some (new_field_table lib)"
    unfolding key by (simp, simp add: s1)
  have ne: "q < next_table s" "field_tables s q \<noteq> None" if "table_of lib s x = Some q" for x q
    using assms(2) that by (auto simp: ht_inv_def)
  have "inj_on ((table_of lib s)(k \<mapsto> p)) (dom ((table_of lib s)(k \<mapsto> p)))"
    using assms(2) fresh by (fastforce simp: ht_inv_def inj_on_def dom_def)
  then show "ht_inv lib s1"
    using ne unfolding ht_inv_def key by (auto simp: s1 p less_Suc_eq)
  show "ht_abs lib s1 = (ht_abs lib s)(k \<mapsto> Map.empty)"
    using fresh assms(1) unfolding ht_abs_def key
    by (auto simp: fun_eq_iff s1 map_option_case hashtable_lib_ok_def split: option.splits)
qed

section \<open>The operations on the abstract records\<close>

lemma HT_Update_correct:
  assumes "hashtable_lib_ok lib" "ht_inv lib s"
  shows "\<exists>s'. HT_Update lib table key kvs s = Inr (kOK, s') \<and> ht_inv lib s'
    \<and> ht_abs lib s' = (ht_abs lib s)(key_index table key \<mapsto>
        (case ht_abs lib s (key_index table key) of
           None \<Rightarrow> map_of (c_pairs kvs)
         | Some r \<Rightarrow> r ++ map_of (rev (c_pairs kvs))))"
proof (cases "table_of lib s (key_index table key)")
  case None
  obtain p s1 where new: "new_record lib (key_index table key) s = (p, s1)" by fastforce
  note n = new_record_correct [OF assms None new]
  have abs: "ht_abs lib s (key_index table key) = None" by (simp add: ht_abs_def None)
  have "hashtable_ok (field_ops lib)" "ht_Get (field_ops lib) (new_field_table lib) = Map.empty"
    using assms(1) by (simp_all add: hashtable_lib_ok_def)
  then have get: "ht_Get (field_ops lib) (insert_new (field_ops lib) (new_field_table lib) kvs) = map_of (c_pairs kvs)"
    by (simp add: insert_new_get)
  show ?thesis
    using ht_abs_update [OF n(1,2)] None new by (simp add: HT_Update_def abs get n(4))
next
  case (Some p)
  with assms(2) obtain f where f: "field_tables s p = Some f" by (auto simp: ht_inv_def)
  have "hashtable_ok (field_ops lib)" using assms(1) by (simp add: hashtable_lib_ok_def)
  then show ?thesis
    using ht_abs_update [OF assms(2) Some] Some f
    by (simp add: HT_Update_def update_old_get) (simp add: ht_abs_def)
qed

lemma HT_Delete_correct:
  assumes "hashtable_lib_ok lib" "ht_inv lib s"
  shows "\<exists>s'. HT_Delete lib table key s
      = Inr (if ht_abs lib s (key_index table key) = None then kErrorNoData else kOK, s') \<and> ht_inv lib s'
    \<and> ht_abs lib s' = (ht_abs lib s)(key_index table key := None)"
proof -
  let ?k = "key_index table key"
  obtain old t where rem: "ht_Remove (key_ops lib) (key_table s) ?k = (old, t)" by fastforce
  have old: "old = table_of lib s ?k" and t: "ht_Get (key_ops lib) t = (table_of lib s)(?k := None)"
    using hashtable_okD(5,6) [of "key_ops lib" "key_table s" ?k] assms(1) rem by (simp_all add: hashtable_lib_ok_def)
  have ne: "q < next_table s" "field_tables s q \<noteq> None" if "table_of lib s x = Some q" for x q
    using assms(2) that by (auto simp: ht_inv_def)
  have inj: "inj_on ((table_of lib s)(?k := None)) (dom ((table_of lib s)(?k := None)))"
    using assms(2) by (auto simp: ht_inv_def inj_on_def dom_def)
  have other: "table_of lib s x \<noteq> Some p" if "table_of lib s ?k = Some p" "x \<noteq> ?k" for x p
    using ht_inv_inj [OF assms(2), of x p ?k] that by auto
  show ?thesis
  proof (cases old)
    case None
    have "ht_inv lib (s\<lparr>key_table := t\<rparr>)"
      using t inj ne unfolding ht_inv_def by simp
    moreover have "ht_abs lib (s\<lparr>key_table := t\<rparr>) = (ht_abs lib s)(?k := None)"
      by (simp add: ht_abs_def fun_eq_iff t)
    ultimately show ?thesis
      using rem None old by (simp add: HT_Delete_def ht_abs_def)
  next
    case (Some p)
    have "ht_inv lib (s\<lparr>key_table := t, field_tables := (field_tables s)(p := None)\<rparr>)"
      using t inj ne other Some old unfolding ht_inv_def by (auto split: if_splits)
    moreover have "ht_abs lib (s\<lparr>key_table := t, field_tables := (field_tables s)(p := None)\<rparr>) = (ht_abs lib s)(?k := None)"
      using t other Some old by (auto simp: ht_abs_def fun_eq_iff map_option_case split: option.splits)
    ultimately show ?thesis
      using rem Some old by (simp add: HT_Delete_def ht_abs_def)
  qed
qed

text \<open>Insertion of fields into an abstract record: it stops at the first field that is there.\<close>

fun insert_fields :: "(string \<Rightarrow> string option) \<Rightarrow> kvpair list \<Rightarrow> int \<times> (string \<Rightarrow> string option)" where
  "insert_fields r [] = (kOK, r)"
| "insert_fields r ((k, v) # kvs) =
     (if r k = None then insert_fields (r(k \<mapsto> v)) kvs else (kErrorConflict, r))"

lemma insert_fields_code:
  "fst (insert_fields r kvs) = (if distinct (map fst kvs) \<and> dom r \<inter> fst ` set kvs = {} then kOK else kErrorConflict)"
proof (induction kvs arbitrary: r)
  case (Cons kv kvs)
  obtain k v where kv: "kv = (k, v)" by (cases kv)
  show ?case
  proof (cases "r k")
    case None
    define r' where "r' = r(k \<mapsto> v)"
    have "dom r' \<inter> fst ` set kvs = {} \<longleftrightarrow> k \<notin> fst ` set kvs \<and> dom r \<inter> fst ` set kvs = {}"
      "dom r \<inter> fst ` set (kv # kvs) = dom r \<inter> fst ` set kvs"
      using None kv by (auto simp: r'_def)
    then show ?thesis using Cons.IH [of r'] None kv by (simp add: r'_def [symmetric])
  next
    case (Some x)
    then show ?thesis using kv by auto
  qed
qed simp

lemma insert_fields_map:
  "fst (insert_fields r kvs) = kOK \<Longrightarrow> snd (insert_fields r kvs) = r ++ map_of kvs"
proof (induction kvs arbitrary: r)
  case (Cons kv kvs)
  obtain k v where kv: "kv = (k, v)" by (cases kv)
  define r' where "r' = r(k \<mapsto> v)"
  have r: "r k = None" and ok: "fst (insert_fields r' kvs) = kOK"
    using Cons.prems kv by (auto simp: kOK_def kErrorConflict_def r'_def split: if_splits)
  have "k \<notin> fst ` set kvs"
    using ok unfolding insert_fields_code by (auto simp: kOK_def kErrorConflict_def r'_def split: if_splits)
  then have "map_of kvs k = None" by (simp add: map_of_eq_None_iff)
  then have "r' ++ map_of kvs = r ++ map_of ((k, v) # kvs)"
    by (auto simp: r'_def map_add_def fun_eq_iff split: option.splits)
  moreover have "snd (insert_fields r ((k, v) # kvs)) = snd (insert_fields r' kvs)"
    using r by (simp add: r'_def)
  ultimately show ?case
    using Cons.IH [OF ok] unfolding kv by argo
qed simp

lemma insert_fields_keeps: "r \<subseteq>\<^sub>m snd (insert_fields r kvs)"
proof (induction kvs arbitrary: r)
  case (Cons kv kvs)
  obtain k v where kv: "kv = (k, v)" by (cases kv)
  show ?case
  proof (cases "r k")
    case None
    define r' where "r' = r(k \<mapsto> v)"
    have "r \<subseteq>\<^sub>m r'" using None by (auto simp: map_le_def r'_def)
    from map_le_trans [OF this Cons.IH] show ?thesis using None kv by (simp add: r'_def [symmetric])
  qed (simp add: kv)
qed simp

lemma insert_loop_get:
  "hashtable_ok ops \<Longrightarrow>
     (fst (insert_loop ops f kvs), ht_Get ops (snd (insert_loop ops f kvs))) = insert_fields (ht_Get ops f) (c_pairs kvs)"
proof (induction kvs arbitrary: f)
  case (Cons kv kvs)
  obtain k v where kv: "kv = (k, v)" by (cases kv)
  obtain b f' where ins: "ht_Insert ops f (c_str k) (c_str v) = (b, f')" by fastforce
  have b: "b = (ht_Get ops f (c_str k) = None)"
    and f': "ht_Get ops f' = (if b then (ht_Get ops f)(c_str k \<mapsto> c_str v) else ht_Get ops f)"
    using hashtable_okD(1,2) [OF Cons.prems, of f "c_str k" "c_str v"] ins by simp_all
  show ?case
  proof (cases b)
    case True
    have "insert_fields (ht_Get ops f) (c_pairs ((k, v) # kvs)) = insert_fields (ht_Get ops f') (c_pairs kvs)"
      unfolding f' using True b by simp
    moreover have "insert_loop ops f ((k, v) # kvs) = insert_loop ops f' kvs"
      using True ins by simp
    ultimately show ?thesis unfolding kv using Cons.IH [OF Cons.prems, of f'] by argo
  next
    case False
    then have "ht_Insert ops f (c_str k) (c_str v) = (False, f')" "ht_Get ops f (c_str k) \<noteq> None"
      "ht_Get ops f' = ht_Get ops f"
      using ins b f' by auto
    then show ?thesis by (auto simp: kv)
  qed
qed simp

lemma HT_Insert_correct:
  assumes "hashtable_lib_ok lib" "ht_inv lib s"
  shows "\<exists>c r s'. insert_fields (case ht_abs lib s (key_index table key) of None \<Rightarrow> Map.empty | Some r \<Rightarrow> r) (c_pairs kvs) = (c, r)
    \<and> HT_Insert lib table key kvs s = Inr (c, s') \<and> ht_inv lib s'
    \<and> ht_abs lib s' = (ht_abs lib s)(key_index table key \<mapsto> r)"
proof -
  let ?k = "key_index table key"
  obtain p s1 f where s1: "ht_inv lib s1" "table_of lib s1 ?k = Some p" "field_tables s1 p = Some f"
    and abs: "(ht_abs lib s1)(?k := x) = (ht_abs lib s)(?k := x)"
      "ht_Get (field_ops lib) f = (case ht_abs lib s ?k of None \<Rightarrow> Map.empty | Some r \<Rightarrow> r)"
    and ins: "HT_Insert lib table key kvs s =
      (case insert_loop (field_ops lib) f kvs of
         (c, f') \<Rightarrow> Inr (c, s1\<lparr>field_tables := (field_tables s1)(p \<mapsto> f')\<rparr>))" for x
  proof (cases "table_of lib s ?k")
    case None
    obtain p s1 where new: "new_record lib ?k s = (p, s1)" by fastforce
    note n = new_record_correct [OF assms None new]
    have "ht_abs lib s ?k = None" by (simp add: ht_abs_def None)
    with n new None assms(1) show ?thesis
      by (intro that [of s1 p "new_field_table lib"]) (simp_all add: HT_Insert_def hashtable_lib_ok_def)
  next
    case (Some p)
    with assms(2) obtain f where f: "field_tables s p = Some f" by (auto simp: ht_inv_def)
    with Some assms(2) show ?thesis
      by (intro that [of s p f]) (simp_all add: HT_Insert_def ht_abs_def)
  qed
  obtain c f' where loop: "insert_loop (field_ops lib) f kvs = (c, f')" by fastforce
  have "hashtable_ok (field_ops lib)" using assms(1) by (simp add: hashtable_lib_ok_def)
  from insert_loop_get [OF this, of f kvs] have
    "insert_fields (ht_Get (field_ops lib) f) (c_pairs kvs) = (c, ht_Get (field_ops lib) f')"
    by (simp add: loop)
  then show ?thesis
    using ht_abs_update [OF s1(1,2), of f'] ins loop abs by simp
qed

lemma HT_Read_correct:
  assumes "hashtable_lib_ok lib" "ht_inv lib s"
  shows "ht_abs lib s (key_index table key) = None \<Longrightarrow> HT_Read lib table key flds result s = Inr (kErrorNoData, result, s)"
    "ht_abs lib s (key_index table key) = Some r \<Longrightarrow> HT_Read lib table key (Some fs) result s
       = Inr (kOK, List.map_filter (\<lambda>field. map_option (\<lambda>v. (field, v)) (r (c_str field))) fs, s)"
    "ht_abs lib s (key_index table key) = Some r \<Longrightarrow>
       \<exists>kvs. HT_Read lib table key None result s = Inr (kOK, kvs, s) \<and> map_of kvs = r"
proof -
  have live: "field_tables s p \<noteq> None" if "table_of lib s x = Some p" for x p
    using assms(2) that by (auto simp: ht_inv_def)
  show "ht_abs lib s (key_index table key) = None \<Longrightarrow> HT_Read lib table key flds result s = Inr (kErrorNoData, result, s)"
    by (simp add: ht_abs_def HT_Read_def)
  assume "ht_abs lib s (key_index table key) = Some r"
  then obtain p f where p: "table_of lib s (key_index table key) = Some p" "field_tables s p = Some f"
    "ht_Get (field_ops lib) f = r"
    using live [of "key_index table key"] by (fastforce simp: ht_abs_def)
  then show "HT_Read lib table key (Some fs) result s
       = Inr (kOK, List.map_filter (\<lambda>field. map_option (\<lambda>v. (field, v)) (r (c_str field))) fs, s)"
    by (simp add: HT_Read_def read_fields_def)
  show "\<exists>kvs. HT_Read lib table key None result s = Inr (kOK, kvs, s) \<and> map_of kvs = r"
    using p assms(1) hashtable_okD(8) [of "field_ops lib" f] by (simp add: HT_Read_def read_fields_def hashtable_lib_ok_def)
qed

lemma HT_Read_total:
  assumes "hashtable_lib_ok lib" "ht_inv lib s"
  shows "\<exists>c r. HT_Read lib table key flds result s = Inr (c, r, s) \<and> 0 \<le> c"
proof (cases "ht_abs lib s (key_index table key)")
  case None
  then show ?thesis using HT_Read_correct(1) [OF assms] by (simp add: kErrorNoData_def)
next
  case (Some r)
  then show ?thesis
    using HT_Read_correct(2) [OF assms Some] HT_Read_correct(3) [OF assms Some, of result]
    by (cases flds) (auto simp: kOK_def)
qed

lemma scan_loop_total:
  assumes "\<And>k p. (k, p) \<in> set pairs \<Longrightarrow> field_tables s p \<noteq> None"
  shows "\<exists>rs. scan_loop lib s flds pairs = Inr rs"
  using assms
proof (induction pairs)
  case (Cons kp pairs)
  obtain k p where kp: "kp = (k, p)" by (cases kp)
  have "\<exists>f. field_tables s p = Some f" using Cons.prems [of k p] kp by simp
  moreover have "\<exists>rs. scan_loop lib s flds pairs = Inr rs" using Cons.prems by (intro Cons.IH) auto
  ultimately show ?case using kp by auto
qed simp

lemma HT_Scan_total:
  assumes "hashtable_lib_ok lib" "ht_inv lib s"
  shows "\<exists>rs. HT_Scan lib table key len flds results s = Inr (kOK, rs, s)"
proof -
  let ?pairs = "ht_Entries (key_ops lib) (key_table s) (Some (key_index table key)) (nat (len mod 2 ^ 64))"
  have "field_tables s p \<noteq> None" if "(k, p) \<in> set ?pairs" for k p
    using hashtable_okD(7) [OF _ that] assms by (auto simp: hashtable_lib_ok_def ht_inv_def)
  then obtain rs where "scan_loop lib s flds ?pairs = Inr rs"
    using scan_loop_total [of ?pairs s lib flds] by blast
  then show ?thesis by (simp add: HT_Scan_def)
qed

lemma HT_Insert_total:
  assumes "hashtable_lib_ok lib" "ht_inv lib s"
  shows "\<exists>c s'. HT_Insert lib table key kvs s = Inr (c, s') \<and> 0 \<le> c \<and> ht_inv lib s'"
proof -
  obtain c r s' r0 where "insert_fields r0 (c_pairs kvs) = (c, r)" "HT_Insert lib table key kvs s = Inr (c, s')"
    "ht_inv lib s'"
    using HT_Insert_correct [OF assms, of table key kvs] by blast
  moreover from this(1) have "0 \<le> c"
    using insert_fields_code [of r0 "c_pairs kvs"] by (auto simp: kOK_def kErrorConflict_def split: if_splits)
  ultimately show ?thesis by blast
qed

interpretation hashtable_db: database "HashtableDB lib" "\<lambda>_ s. hashtable_lib_ok lib \<and> ht_inv lib s" "\<lambda>_. True" for lib
proof unfold_locales
  fix s table key flds result and results len kvs
  assume inv: "hashtable_lib_ok lib \<and> ht_inv lib s"
  then have ok: "hashtable_lib_ok lib" "ht_inv lib s" by simp_all
  show "\<exists>c r s'. db_Read (HashtableDB lib) table key flds result s = Inr (c, r, s') \<and> 0 \<le> c
      \<and> hashtable_lib_ok lib \<and> ht_inv lib s'"
    using HT_Read_total [OF ok] ok by (fastforce simp: HashtableDB_def)
  show "\<exists>c r s'. db_Scan (HashtableDB lib) table key len flds results s = Inr (c, r, s') \<and> 0 \<le> c
      \<and> hashtable_lib_ok lib \<and> ht_inv lib s'"
    using HT_Scan_total [OF ok, of table key len flds results] ok by (auto simp: HashtableDB_def kOK_def)
  show "\<exists>c s'. db_Update (HashtableDB lib) table key kvs s = Inr (c, s') \<and> 0 \<le> c \<and> hashtable_lib_ok lib \<and> ht_inv lib s'"
    using HT_Update_correct [OF ok, of table key kvs] ok by (auto simp: HashtableDB_def kOK_def)
  show "\<exists>c s'. db_Insert (HashtableDB lib) table key kvs s = Inr (c, s') \<and> 0 \<le> c \<and> hashtable_lib_ok lib \<and> ht_inv lib s'"
    using HT_Insert_total [OF ok, of table key kvs] ok by (auto simp: HashtableDB_def)
qed (simp_all add: HashtableDB_def)

section \<open>An instance of the hash table laws\<close>

definition alist_hashtable :: "((string \<times> 'v) list, 'v) string_hashtable" where
  "alist_hashtable =
     \<lparr>ht_Get = map_of,
      ht_Insert = (\<lambda>t k v. (map_of t k = None, if map_of t k = None then (k, v) # t else t)),
      ht_Update = (\<lambda>t k v. (map_of t k, if map_of t k = None then t else (k, v) # t)),
      ht_Remove = (\<lambda>t k. (map_of t k, AList.delete k t)),
      ht_Entries = (\<lambda>t ko n. case ko of None \<Rightarrow> AList.clearjunk t | Some _ \<Rightarrow> take n (AList.clearjunk t)),
      ht_Size = length\<rparr>"

lemma alist_hashtable_ok: "hashtable_ok alist_hashtable"
proof -
  have "map_of t x = Some v" if "(x, v) \<in> set (AList.clearjunk t)" for t :: "(string \<times> 'a) list" and x v
    using that by (metis distinct_clearjunk map_of_clearjunk map_of_is_SomeI)
  then have "\<forall>t k n. \<forall>(x, v) \<in> set (ht_Entries alist_hashtable t k n). map_of t x = Some (v :: 'a)"
    by (auto simp: alist_hashtable_def split: option.splits dest: in_set_takeD)
  then show ?thesis
    by (simp add: hashtable_ok_def) (auto simp: alist_hashtable_def delete_conv' map_of_clearjunk)
qed

definition alist_lib :: "((string \<times> nat) list, (string \<times> string) list) hashtable_lib" where
  "alist_lib = \<lparr>key_ops = alist_hashtable, field_ops = alist_hashtable, new_field_table = []\<rparr>"

definition empty_hashtable_db :: "((string \<times> nat) list, (string \<times> string) list) hashtable_db" where
  "empty_hashtable_db = \<lparr>key_table = [], field_tables = Map.empty, next_table = 0\<rparr>"

lemma alist_db_ok: "hashtable_lib_ok alist_lib" "ht_inv alist_lib empty_hashtable_db"
  by (simp_all add: hashtable_lib_ok_def alist_lib_def alist_hashtable_ok)
    (simp_all add: ht_inv_def alist_lib_def empty_hashtable_db_def alist_hashtable_def)

section \<open>Properties\<close>

text \<open>C13: The hash table database refines a map from record names to records. Reading reports
  missing data exactly for an absent record and otherwise returns the requested fields that exist,
  or all of them; updating writes the given fields and keeps the other fields and records; deleting
  removes the record. No field table is used after it was released, and two records never share one.\<close>

theorem HashtableDB_refines:
  assumes "hashtable_lib_ok lib" "ht_inv lib s" "k = key_index table key"
  shows "(ht_abs lib s k = None \<longrightarrow> HT_Read lib table key flds result s = Inr (kErrorNoData, result, s))
    \<and> (\<forall>r fs. ht_abs lib s k = Some r \<longrightarrow> HT_Read lib table key (Some fs) result s
         = Inr (kOK, List.map_filter (\<lambda>field. map_option (\<lambda>v. (field, v)) (r (c_str field))) fs, s))
    \<and> (\<forall>r. ht_abs lib s k = Some r \<longrightarrow>
         (\<exists>all. HT_Read lib table key None result s = Inr (kOK, all, s) \<and> map_of all = r))
    \<and> (\<exists>s'. HT_Update lib table key kvs s = Inr (kOK, s') \<and> ht_inv lib s'
         \<and> ht_abs lib s' = (ht_abs lib s)(k \<mapsto>
             (case ht_abs lib s k of
                None \<Rightarrow> map_of (c_pairs kvs)
              | Some r \<Rightarrow> r ++ map_of (rev (c_pairs kvs)))))
    \<and> (\<exists>s'. HT_Delete lib table key s = Inr (if ht_abs lib s k = None then kErrorNoData else kOK, s')
         \<and> ht_inv lib s' \<and> ht_abs lib s' = (ht_abs lib s)(k := None))"
  using HT_Read_correct [OF assms(1,2), of table key] HT_Update_correct [OF assms(1,2), of table key kvs]
    HT_Delete_correct [OF assms(1,2), of table key]
  unfolding assms(3) by blast

theorem HashtableDB_refines_witness:
  "\<exists>s'. HT_Update alist_lib ''t'' ''user1'' [(''field0'', ''x'')] empty_hashtable_db = Inr (kOK, s')
     \<and> ht_inv alist_lib s' \<and> ht_abs alist_lib s' = (ht_abs alist_lib empty_hashtable_db)(''tuser1'' \<mapsto> [''field0'' \<mapsto> ''x''])"
proof -
  have k: "''tuser1'' = key_index ''t'' ''user1''" by (simp add: key_index_def c_str_def)
  have "ht_abs alist_lib empty_hashtable_db ''tuser1'' = None" "c_pairs [(''field0'', ''x'')] = [(''field0'', ''x'')]"
    by (simp_all add: ht_abs_def alist_lib_def alist_hashtable_def empty_hashtable_db_def c_str_def)
  then show ?thesis
    using HashtableDB_refines [OF alist_db_ok k, where kvs = "[(''field0'', ''x'')]"] by simp
qed



end
