(* ===== verification/Ycsb_Client.thy ===== *)
theory Ycsb_Client
  imports Ycsb_Workload Ycsb_Rocks Ycsb_Hashtable "HOL-Library.Signed_Division"
begin

text \<open>
  The client of the benchmark (\<open>core/client.h\<close>). The state that all clients share is a record: the
  database, the workload, the random numbers, the number of clock readings so far, and the global and
  function-static counters.
\<close>

section \<open>Shared state\<close>

text \<open>What a client calls: the database, the random numbers and \<open>gettimeofday\<close>, whose \<open>k\<close>th answer is
  \<open>cx_clock cx k\<close>, seconds and microseconds.\<close>

record ('s, 'e) client_context =
  cx_db :: "'s db_ops"
  cx_lib :: "'e random_lib"
  cx_clock :: "nat \<Rightarrow> int \<times> int"

record ('s, 'e) client_state =
  sh_db :: 's
  sh_wl :: "'e core_workload"
  sh_env :: "'e rand_env"
  sh_readings :: nat
  sh_ops_cnt :: "operation \<Rightarrow> u64"
  sh_ops_time :: "operation \<Rightarrow> u64"
  sh_insert_counter :: u64
  sh_tiktok_start :: "u64 option"
  sh_tiktoks :: u64
  sh_iops :: u64

definition get_now_micros :: "('s, 'e) client_context \<Rightarrow> ('s, 'e) client_state \<Rightarrow> u64 \<times> ('s, 'e) client_state" where
  "get_now_micros cx s =
     (case cx_clock cx (sh_readings s) of (tv_sec, tv_usec) \<Rightarrow>
        (word_of_int (tv_sec * 1000000 + tv_usec), s\<lparr>sh_readings := sh_readings s + 1\<rparr>))"

text \<open>A call of the workload and a call of the database.\<close>

definition on_wl ::
    "('e core_workload \<Rightarrow> 'e rand_env \<Rightarrow> run_stop + 'r \<times> 'e core_workload \<times> 'e rand_env) \<Rightarrow> ('s, 'e) client_state
       \<Rightarrow> run_stop + 'r \<times> ('s, 'e) client_state" where
  "on_wl f s = andthen (f (sh_wl s) (sh_env s)) (\<lambda>(r, wl, env). Inr (r, s\<lparr>sh_wl := wl, sh_env := env\<rparr>))"

definition on_db ::
    "('s \<Rightarrow> run_stop + 'r \<times> 's) \<Rightarrow> ('s, 'e) client_state \<Rightarrow> run_stop + 'r \<times> ('s, 'e) client_state" where
  "on_db f s = andthen (f (sh_db s)) (\<lambda>(r, d). Inr (r, s\<lparr>sh_db := d\<rparr>))"

section \<open>The client\<close>

definition DoInsert :: "('s, 'e) client_context \<Rightarrow> ('s, 'e) client_state \<Rightarrow> run_stop + bool \<times> ('s, 'e) client_state" where
  "DoInsert cx s =
     andthen (on_wl (NextSequenceKey (cx_lib cx)) s) (\<lambda>(key, s1).
     andthen (on_wl (BuildValues (cx_lib cx) []) s1) (\<lambda>(pairs, s2).
     andthen (on_db (db_Insert (cx_db cx) (NextTable (sh_wl s2)) key pairs) s2) (\<lambda>(c, s3).
       Inr (c = kOK, s3))))"

text \<open>The fields to read: one field, under a name with the prefix twice, or all of them.\<close>

definition fields_to_read ::
    "('s, 'e) client_context \<Rightarrow> ('s, 'e) client_state \<Rightarrow> run_stop + string list option \<times> ('s, 'e) client_state" where
  "fields_to_read cx s =
     (if \<not> wl_read_all_fields (sh_wl s) then
        andthen (on_wl (NextFieldName (cx_lib cx)) s) (\<lambda>(name, s1). Inr (Some [''field'' @ name], s1))
      else Inr (None, s))"

definition values_to_write ::
    "('s, 'e) client_context \<Rightarrow> ('s, 'e) client_state \<Rightarrow> run_stop + kvpair list \<times> ('s, 'e) client_state" where
  "values_to_write cx s =
     (if wl_write_all_fields (sh_wl s) then on_wl (BuildValues (cx_lib cx) []) s
      else on_wl (BuildUpdate (cx_lib cx) []) s)"

definition read_call ::
    "('s, 'e) client_context \<Rightarrow> string \<Rightarrow> string \<Rightarrow> string list option \<Rightarrow> 's \<Rightarrow> run_stop + int \<times> 's" where
  "read_call cx table key flds d =
     map_sum id (\<lambda>(c, result, d'). (c, d')) (db_Read (cx_db cx) table key flds [] d)"

definition scan_call ::
    "('s, 'e) client_context \<Rightarrow> string \<Rightarrow> string \<Rightarrow> int \<Rightarrow> string list option \<Rightarrow> 's \<Rightarrow> run_stop + int \<times> 's" where
  "scan_call cx table key len flds d =
     map_sum id (\<lambda>(c, result, d'). (c, d')) (db_Scan (cx_db cx) table key len flds [] d)"

definition TransactionRead :: "('s, 'e) client_context \<Rightarrow> ('s, 'e) client_state \<Rightarrow> run_stop + int \<times> ('s, 'e) client_state" where
  "TransactionRead cx s =
     (let table = NextTable (sh_wl s) in
      andthen (on_wl (NextTransactionKey (cx_lib cx)) s) (\<lambda>(key, s1).
      andthen (fields_to_read cx s1) (\<lambda>(flds, s2).
        on_db (read_call cx table key flds) s2)))"

definition TransactionReadModifyWrite ::
    "('s, 'e) client_context \<Rightarrow> ('s, 'e) client_state \<Rightarrow> run_stop + int \<times> ('s, 'e) client_state" where
  "TransactionReadModifyWrite cx s =
     (let table = NextTable (sh_wl s) in
      andthen (on_wl (NextTransactionKey (cx_lib cx)) s) (\<lambda>(key, s1).
      andthen (fields_to_read cx s1) (\<lambda>(flds, s2).
      andthen (on_db (read_call cx table key flds) s2) (\<lambda>(c, s3).
      andthen (values_to_write cx s3) (\<lambda>(kvs, s4).
        on_db (db_Update (cx_db cx) table key kvs) s4)))))"

text \<open>The length of a scan is converted to \<open>int\<close>.\<close>

definition TransactionScan :: "('s, 'e) client_context \<Rightarrow> ('s, 'e) client_state \<Rightarrow> run_stop + int \<times> ('s, 'e) client_state" where
  "TransactionScan cx s =
     (let table = NextTable (sh_wl s) in
      andthen (on_wl (NextTransactionKey (cx_lib cx)) s) (\<lambda>(key, s1).
      andthen (on_wl (NextScanLength (cx_lib cx)) s1) (\<lambda>(n, s2).
      andthen (fields_to_read cx s2) (\<lambda>(flds, s3).
        on_db (scan_call cx table key (sint (ucast n :: u32)) flds) s3))))"

definition TransactionUpdate :: "('s, 'e) client_context \<Rightarrow> ('s, 'e) client_state \<Rightarrow> run_stop + int \<times> ('s, 'e) client_state" where
  "TransactionUpdate cx s =
     (let table = NextTable (sh_wl s) in
      andthen (on_wl (NextTransactionKey (cx_lib cx)) s) (\<lambda>(key, s1).
      andthen (values_to_write cx s1) (\<lambda>(kvs, s2).
        on_db (db_Update (cx_db cx) table key kvs) s2)))"

text \<open>The code after the first return of \<open>TransactionInsert\<close> is never reached.\<close>

definition TransactionInsert :: "('s, 'e) client_context \<Rightarrow> ('s, 'e) client_state \<Rightarrow> run_stop + int \<times> ('s, 'e) client_state" where
  "TransactionInsert cx s =
     (let table = NextTable (sh_wl s);
          key = ''user'' @ to_string (unat (sh_insert_counter s));
          s1 = s\<lparr>sh_insert_counter := sh_insert_counter s + 1\<rparr> in
      andthen (on_wl (BuildValues (cx_lib cx) []) s1) (\<lambda>(kvs, s2).
        on_db (db_Insert (cx_db cx) table key kvs) s2))"

fun Transaction :: "('s, 'e) client_context \<Rightarrow> operation \<Rightarrow> ('s, 'e) client_state \<Rightarrow> run_stop + int \<times> ('s, 'e) client_state" where
  "Transaction cx READ = TransactionRead cx"
| "Transaction cx UPDATE = TransactionUpdate cx"
| "Transaction cx INSERT = TransactionInsert cx"
| "Transaction cx SCAN = TransactionScan cx"
| "Transaction cx READMODIFYWRITE = TransactionReadModifyWrite cx"

fun record_code :: "operation \<Rightarrow> int" where
  "record_code INSERT = 1"
| "record_code READ = 2"
| "record_code UPDATE = 3"
| "record_code SCAN = 4"
| "record_code READMODIFYWRITE = 5"

definition account ::
    "operation \<Rightarrow> u64 \<Rightarrow> ('s, 'e) client_state \<Rightarrow> ('s, 'e) client_state" where
  "account op op_time s =
     s\<lparr>sh_ops_time := (sh_ops_time s)(op := sh_ops_time s op + op_time),
       sh_ops_cnt := (sh_ops_cnt s)(op := sh_ops_cnt s op + 1)\<rparr>"

definition record_call :: "('s, 'e) client_context \<Rightarrow> int \<Rightarrow> u64 \<Rightarrow> 's \<Rightarrow> run_stop + unit \<times> 's" where
  "record_call cx code op_time d = map_sum id (\<lambda>d'. ((), d')) (db_RecordTime (cx_db cx) code op_time d)"

definition DoTransaction :: "('s, 'e) client_context \<Rightarrow> ('s, 'e) client_state \<Rightarrow> run_stop + bool \<times> ('s, 'e) client_state" where
  "DoTransaction cx s =
     (case get_now_micros cx s of (start_time, s1) \<Rightarrow>
      andthen (on_wl (NextOperation (cx_lib cx)) s1) (\<lambda>(op, s2).
      andthen (Transaction cx op s2) (\<lambda>(status, s3).
      case get_now_micros cx s3 of (now, s4) \<Rightarrow>
        let op_time = now - start_time in
        andthen (on_db (record_call cx (record_code op) op_time) (account op op_time s4)) (\<lambda>(_, s5).
          if 0 \<le> status then Inr (status = kOK, s5) else Inl Stop_Assert))))"

section \<open>Databases that keep the times they are told\<close>

text \<open>
  The part of the contract that concerns times: recording one adds it to the log the database stands
  for, and no other call changes that log.
\<close>

locale timed_database = database db inv known
  for db :: "'s db_ops" and inv :: "nat \<Rightarrow> 's \<Rightarrow> bool" and known :: "string \<Rightarrow> bool" +
  fixes timed :: "(int \<times> u64) list \<Rightarrow> 's \<Rightarrow> bool"
  assumes timed_init: "timed L s \<Longrightarrow> db_Init db s = Inr s' \<Longrightarrow> timed L s'"
    and timed_close: "timed L s \<Longrightarrow> db_Close db s = Inr s' \<Longrightarrow> timed L s'"
    and timed_read: "timed L s \<Longrightarrow> db_Read db table key flds result s = Inr (c, r, s') \<Longrightarrow> timed L s'"
    and timed_scan: "timed L s \<Longrightarrow> db_Scan db table key len flds results s = Inr (c, rs, s') \<Longrightarrow> timed L s'"
    and timed_update: "timed L s \<Longrightarrow> db_Update db table key kvs s = Inr (c, s') \<Longrightarrow> timed L s'"
    and timed_insert: "timed L s \<Longrightarrow> db_Insert db table key kvs s = Inr (c, s') \<Longrightarrow> timed L s'"
    and timed_hiccup: "timed L s \<Longrightarrow> db_latency_hiccup db iops s = Inr s' \<Longrightarrow> timed L s'"
    and timed_record: "timed L s \<Longrightarrow> inv (Suc n) s \<Longrightarrow> db_RecordTime db op t s = Inr s' \<Longrightarrow> timed (L @ [(op, t)]) s'"

text \<open>Every key a transaction may use is known.\<close>

definition keys_known :: "(string \<Rightarrow> bool) \<Rightarrow> 'e core_workload \<Rightarrow> bool" where
  "keys_known K wl \<longleftrightarrow> (\<forall>k \<le> Counter_Last (wl_insert_key_sequence wl). K (BuildKeyName wl k))"

lemma keys_known_same: "same_settings wl wl' \<Longrightarrow> keys_known K wl' = keys_known K wl"
  by (simp add: keys_known_def same_settings_def BuildKeyName_def)

text \<open>The invariant of the shared state, with a budget of \<open>n\<close> further times and the log \<open>L\<close>.\<close>

definition client_inv ::
    "(nat \<Rightarrow> 's \<Rightarrow> bool) \<Rightarrow> ((int \<times> u64) list \<Rightarrow> 's \<Rightarrow> bool) \<Rightarrow> (string \<Rightarrow> bool) \<Rightarrow> 'e random_lib \<Rightarrow> nat
       \<Rightarrow> (int \<times> u64) list \<Rightarrow> ('s, 'e) client_state \<Rightarrow> bool" where
  "client_inv I T K lib n L s \<longleftrightarrow>
     I n (sh_db s) \<and> T L (sh_db s) \<and> workload_inv lib (sh_wl s) \<and> keys_known K (sh_wl s)"

definition op_stats :: "('s, 'e) client_state \<Rightarrow> (operation \<Rightarrow> u64) \<times> (operation \<Rightarrow> u64)" where
  "op_stats s = (sh_ops_cnt s, sh_ops_time s)"

text \<open>The counters of the client agree with the log.\<close>

definition accounted :: "(int \<times> u64) list \<Rightarrow> (operation \<Rightarrow> u64) \<times> (operation \<Rightarrow> u64) \<Rightarrow> bool" where
  "accounted L stats \<longleftrightarrow>
     (\<forall>op. fst stats op = of_nat (length (calls_of (record_code op) L))
         \<and> snd stats op = sum_list (map snd (calls_of (record_code op) L)))
     \<and> list_all (\<lambda>c. 1 \<le> fst c \<and> fst c \<le> 5) L"

lemma record_code_inject [simp]: "record_code a = record_code b \<longleftrightarrow> a = b"
  by (cases a; cases b) simp_all

lemma record_code_range: "1 \<le> record_code op \<and> record_code op \<le> 5"
  by (cases op) simp_all

lemma accounted_step:
  assumes "accounted L stats"
  shows "accounted (L @ [(record_code op, t)]) ((fst stats)(op := fst stats op + 1), (snd stats)(op := snd stats op + t))"
  using assms record_code_range [of op] by (auto simp: accounted_def add.commute)

lemma op_stats_frame [simp]:
  "op_stats (s\<lparr>sh_db := d\<rparr>) = op_stats s" "op_stats (s\<lparr>sh_wl := wl, sh_env := env\<rparr>) = op_stats s"
  "op_stats (s\<lparr>sh_readings := k\<rparr>) = op_stats s" "op_stats (s\<lparr>sh_insert_counter := c\<rparr>) = op_stats s"
  "op_stats (s\<lparr>sh_tiktoks := x, sh_iops := y\<rparr>) = op_stats s" "op_stats (s\<lparr>sh_tiktok_start := z\<rparr>) = op_stats s"
  "op_stats (s\<lparr>sh_tiktok_start := z, sh_tiktoks := x, sh_iops := y\<rparr>) = op_stats s"
  by (simp_all add: op_stats_def)

lemma client_inv_frame [simp]:
  "client_inv I T K lib n L (s\<lparr>sh_readings := k\<rparr>) = client_inv I T K lib n L s"
  "client_inv I T K lib n L (s\<lparr>sh_insert_counter := c\<rparr>) = client_inv I T K lib n L s"
  "client_inv I T K lib n L (s\<lparr>sh_tiktoks := x, sh_iops := y\<rparr>) = client_inv I T K lib n L s"
  "client_inv I T K lib n L (s\<lparr>sh_tiktok_start := z\<rparr>) = client_inv I T K lib n L s"
  "client_inv I T K lib n L (s\<lparr>sh_tiktok_start := z, sh_tiktoks := x, sh_iops := y\<rparr>) = client_inv I T K lib n L s"
  "client_inv I T K lib n L (account op t s) = client_inv I T K lib n L s"
  by (simp_all add: client_inv_def account_def)

lemma get_now_micros_cases:
  obtains now k where "get_now_micros cx s = (now, s\<lparr>sh_readings := k\<rparr>)"
  by (cases "cx_clock cx (sh_readings s)") (simp add: get_now_micros_def)

lemma on_wl_ok:
  assumes "client_inv I T K lib n L s"
    "\<exists>r wl' env'. f (sh_wl s) (sh_env s) = Inr (r, wl', env') \<and> workload_inv lib wl' \<and> same_settings (sh_wl s) wl' \<and> P r"
  shows "\<exists>r s'. on_wl f s = Inr (r, s') \<and> client_inv I T K lib n L s' \<and> P r \<and> op_stats s' = op_stats s"
  using assms by (auto simp: on_wl_def client_inv_def keys_known_same)

lemma on_db_ok:
  assumes "client_inv I T K lib n L s" "\<exists>r d. f (sh_db s) = Inr (r, d) \<and> I m d \<and> T L' d \<and> P r"
  shows "\<exists>r s'. on_db f s = Inr (r, s') \<and> client_inv I T K lib m L' s' \<and> P r \<and> op_stats s' = op_stats s"
  using assms by (auto simp: on_db_def client_inv_def)

text \<open>A database call that keeps the budget and the log and answers with a non-negative code.\<close>

definition db_call_ok ::
    "(nat \<Rightarrow> 's \<Rightarrow> bool) \<Rightarrow> ((int \<times> u64) list \<Rightarrow> 's \<Rightarrow> bool) \<Rightarrow> ('s \<Rightarrow> run_stop + int \<times> 's) \<Rightarrow> bool" where
  "db_call_ok I T f \<longleftrightarrow>
     (\<forall>n L d. I n d \<and> T L d \<longrightarrow> (\<exists>c d'. f d = Inr (c, d') \<and> I n d' \<and> T L d' \<and> 0 \<le> c))"

lemma on_db_call:
  assumes "client_inv I T K lib n L s" "db_call_ok I T f"
  shows "\<exists>c s'. on_db f s = Inr (c, s') \<and> 0 \<le> c \<and> client_inv I T K lib n L s' \<and> op_stats s' = op_stats s"
  using on_db_ok [OF assms(1), of f n L "\<lambda>c. 0 \<le> c"] assms by (auto simp: db_call_ok_def client_inv_def)

lemma fields_to_read_ok:
  assumes "client_inv I T K (cx_lib cx) n L s"
  shows "\<exists>flds s'. fields_to_read cx s = Inr (flds, s') \<and> client_inv I T K (cx_lib cx) n L s' \<and> op_stats s' = op_stats s"
proof (cases "wl_read_all_fields (sh_wl s)")
  case False
  have wl: "workload_inv (cx_lib cx) (sh_wl s)" using assms by (simp add: client_inv_def)
  with on_wl_ok [OF assms, of "NextFieldName (cx_lib cx)" "\<lambda>_. True"] NextFieldName_correct [OF wl, of "sh_env s"] False
  show ?thesis by (auto simp: fields_to_read_def)
qed (use assms in \<open>simp add: fields_to_read_def\<close>)

lemma values_to_write_ok:
  assumes "client_inv I T K (cx_lib cx) n L s"
  shows "\<exists>kvs s'. values_to_write cx s = Inr (kvs, s') \<and> client_inv I T K (cx_lib cx) n L s'
    \<and> list_all pair_fits kvs \<and> length kvs < 2 ^ 32 \<and> op_stats s' = op_stats s"
proof -
  let ?P = "\<lambda>kvs. list_all pair_fits kvs \<and> length kvs < 2 ^ 32"
  have wl: "workload_inv (cx_lib cx) (sh_wl s)" using assms by (simp add: client_inv_def)
  show ?thesis
  proof (cases "wl_write_all_fields (sh_wl s)")
    case True
    with on_wl_ok [OF assms, of "BuildValues (cx_lib cx) []" ?P] BuildValues_fit [OF wl, of "sh_env s"]
    show ?thesis by (auto simp: values_to_write_def)
  next
    case False
    have "\<exists>kvs wl' env'. BuildUpdate (cx_lib cx) [] (sh_wl s) (sh_env s) = Inr (kvs, wl', env')
        \<and> workload_inv (cx_lib cx) wl' \<and> same_settings (sh_wl s) wl' \<and> ?P kvs"
      using BuildUpdate_correct [OF wl, of "[]" "sh_env s"] by (auto simp: pair_fits_def)
    from on_wl_ok [OF assms, of "BuildUpdate (cx_lib cx) []" ?P, OF this] False
    show ?thesis by (auto simp: values_to_write_def)
  qed
qed

lemma next_key_ok:
  assumes "client_inv I T K (cx_lib cx) n L s"
  shows "\<exists>key s'. on_wl (NextTransactionKey (cx_lib cx)) s = Inr (key, s') \<and> client_inv I T K (cx_lib cx) n L s'
    \<and> K key \<and> op_stats s' = op_stats s"
proof -
  have wl: "workload_inv (cx_lib cx) (sh_wl s)" "keys_known K (sh_wl s)" using assms by (simp_all add: client_inv_def)
  from on_wl_ok [OF assms, of "NextTransactionKey (cx_lib cx)" K] NextTransactionKey_correct [OF wl(1), of "sh_env s"] wl(2)
  show ?thesis by (auto simp: keys_known_def)
qed

context timed_database
begin

lemma read_call_ok:
  assumes "cx_db cx = db" "known key"
  shows "db_call_ok inv timed (read_call cx table key flds)"
  unfolding db_call_ok_def
proof (intro allI impI)
  fix n L d assume d: "inv n d \<and> timed L d"
  then obtain c r d' where call: "db_Read db table key flds [] d = Inr (c, r, d')" "0 \<le> c" "inv n d'"
    using read [OF assms(2)] by meson
  moreover have "timed L d'" using d timed_read [OF _ call(1)] by blast
  ultimately show "\<exists>c d'. read_call cx table key flds d = Inr (c, d') \<and> inv n d' \<and> timed L d' \<and> 0 \<le> c"
    using assms by (simp add: read_call_def)
qed

lemma scan_call_ok:
  assumes "cx_db cx = db"
  shows "db_call_ok inv timed (scan_call cx table key len flds)"
  unfolding db_call_ok_def
proof (intro allI impI)
  fix n L d assume d: "inv n d \<and> timed L d"
  then obtain c r d' where call: "db_Scan db table key len flds [] d = Inr (c, r, d')" "0 \<le> c" "inv n d'"
    using scan by meson
  moreover have "timed L d'" using d timed_scan [OF _ call(1)] by blast
  ultimately show "\<exists>c d'. scan_call cx table key len flds d = Inr (c, d') \<and> inv n d' \<and> timed L d' \<and> 0 \<le> c"
    using assms by (simp add: scan_call_def)
qed

lemma update_call_ok:
  "list_all pair_fits kvs \<Longrightarrow> length kvs < 2 ^ 32 \<Longrightarrow> db_call_ok inv timed (db_Update db table key kvs)"
  unfolding db_call_ok_def using update timed_update by meson

lemma insert_call_ok:
  "list_all pair_fits kvs \<Longrightarrow> length kvs < 2 ^ 32 \<Longrightarrow> db_call_ok inv timed (db_Insert db table key kvs)"
  unfolding db_call_ok_def using insert timed_insert by meson

lemma build_values_ok:
  assumes "client_inv inv timed known (cx_lib cx) n L s"
  shows "\<exists>kvs s'. on_wl (BuildValues (cx_lib cx) []) s = Inr (kvs, s') \<and> client_inv inv timed known (cx_lib cx) n L s'
    \<and> list_all pair_fits kvs \<and> length kvs < 2 ^ 32 \<and> op_stats s' = op_stats s"
proof -
  have wl: "workload_inv (cx_lib cx) (sh_wl s)" using assms by (simp add: client_inv_def)
  from on_wl_ok [OF assms, of "BuildValues (cx_lib cx) []" "\<lambda>kvs. list_all pair_fits kvs \<and> length kvs < 2 ^ 32"]
    BuildValues_fit [OF wl, of "sh_env s"]
  show ?thesis by auto
qed

lemma DoInsert_ok:
  assumes "cx_db cx = db" "client_inv inv timed known (cx_lib cx) n L s"
  shows "\<exists>ok s'. DoInsert cx s = Inr (ok, s') \<and> client_inv inv timed known (cx_lib cx) n L s' \<and> op_stats s' = op_stats s"
proof -
  have wl: "workload_inv (cx_lib cx) (sh_wl s)" using assms(2) by (simp add: client_inv_def)
  obtain key s1 where 1: "on_wl (NextSequenceKey (cx_lib cx)) s = Inr (key, s1)"
    "client_inv inv timed known (cx_lib cx) n L s1" "op_stats s1 = op_stats s"
    using on_wl_ok [OF assms(2), of "NextSequenceKey (cx_lib cx)" "\<lambda>_. True"] NextSequenceKey_correct [OF wl, of "sh_env s"] by auto
  obtain kvs s2 where 2: "on_wl (BuildValues (cx_lib cx) []) s1 = Inr (kvs, s2)" "client_inv inv timed known (cx_lib cx) n L s2"
    "list_all pair_fits kvs" "length kvs < 2 ^ 32" "op_stats s2 = op_stats s1"
    using build_values_ok [OF 1(2)] by blast
  from on_db_call [OF 2(2) insert_call_ok [OF 2(3,4)], of "NextTable (sh_wl s2)" key] 1 2 assms(1)
  show ?thesis by (auto simp: DoInsert_def)
qed

lemma TransactionRead_ok:
  assumes "cx_db cx = db" "client_inv inv timed known (cx_lib cx) n L s"
  shows "\<exists>c s'. TransactionRead cx s = Inr (c, s') \<and> 0 \<le> c \<and> client_inv inv timed known (cx_lib cx) n L s' \<and> op_stats s' = op_stats s"
proof -
  obtain key s1 where 1: "on_wl (NextTransactionKey (cx_lib cx)) s = Inr (key, s1)"
    "client_inv inv timed known (cx_lib cx) n L s1" "op_stats s1 = op_stats s" "known key"
    using next_key_ok [OF assms(2)] by blast
  obtain flds s2 where 2: "fields_to_read cx s1 = Inr (flds, s2)" "client_inv inv timed known (cx_lib cx) n L s2" "op_stats s2 = op_stats s1"
    using fields_to_read_ok [OF 1(2)] by blast
  from on_db_call [OF 2(2) read_call_ok [OF assms(1) 1(4)], of "NextTable (sh_wl s)" flds] 1 2
  show ?thesis by (auto simp: TransactionRead_def Let_def)
qed

lemma TransactionScan_ok:
  assumes "cx_db cx = db" "client_inv inv timed known (cx_lib cx) n L s"
  shows "\<exists>c s'. TransactionScan cx s = Inr (c, s') \<and> 0 \<le> c \<and> client_inv inv timed known (cx_lib cx) n L s' \<and> op_stats s' = op_stats s"
proof -
  obtain key s1 where 1: "on_wl (NextTransactionKey (cx_lib cx)) s = Inr (key, s1)"
    "client_inv inv timed known (cx_lib cx) n L s1" "op_stats s1 = op_stats s" "known key"
    using next_key_ok [OF assms(2)] by blast
  then have wl: "workload_inv (cx_lib cx) (sh_wl s1)" by (simp add: client_inv_def)
  obtain len s2 where 2: "on_wl (NextScanLength (cx_lib cx)) s1 = Inr (len, s2)"
    "client_inv inv timed known (cx_lib cx) n L s2" "op_stats s2 = op_stats s1"
    using on_wl_ok [OF 1(2), of "NextScanLength (cx_lib cx)" "\<lambda>_. True"] NextScanLength_correct [OF wl, of "sh_env s1"] by auto
  obtain flds s3 where 3: "fields_to_read cx s2 = Inr (flds, s3)" "client_inv inv timed known (cx_lib cx) n L s3" "op_stats s3 = op_stats s2"
    using fields_to_read_ok [OF 2(2)] by blast
  from on_db_call [OF 3(2) scan_call_ok [OF assms(1)], of "NextTable (sh_wl s)" key "sint (ucast len :: u32)" flds] 1 2 3
  show ?thesis by (auto simp: TransactionScan_def Let_def)
qed

lemma TransactionUpdate_ok:
  assumes "cx_db cx = db" "client_inv inv timed known (cx_lib cx) n L s"
  shows "\<exists>c s'. TransactionUpdate cx s = Inr (c, s') \<and> 0 \<le> c \<and> client_inv inv timed known (cx_lib cx) n L s' \<and> op_stats s' = op_stats s"
proof -
  obtain key s1 where 1: "on_wl (NextTransactionKey (cx_lib cx)) s = Inr (key, s1)"
    "client_inv inv timed known (cx_lib cx) n L s1" "op_stats s1 = op_stats s" "known key"
    using next_key_ok [OF assms(2)] by blast
  obtain kvs s2 where 2: "values_to_write cx s1 = Inr (kvs, s2)" "client_inv inv timed known (cx_lib cx) n L s2"
    "list_all pair_fits kvs" "length kvs < 2 ^ 32" "op_stats s2 = op_stats s1"
    using values_to_write_ok [OF 1(2)] by blast
  from on_db_call [OF 2(2) update_call_ok [OF 2(3,4)], of "NextTable (sh_wl s)" key] 1 2 assms(1)
  show ?thesis by (auto simp: TransactionUpdate_def Let_def)
qed

lemma TransactionReadModifyWrite_ok:
  assumes "cx_db cx = db" "client_inv inv timed known (cx_lib cx) n L s"
  shows "\<exists>c s'. TransactionReadModifyWrite cx s = Inr (c, s') \<and> 0 \<le> c \<and> client_inv inv timed known (cx_lib cx) n L s' \<and> op_stats s' = op_stats s"
proof -
  obtain key s1 where 1: "on_wl (NextTransactionKey (cx_lib cx)) s = Inr (key, s1)"
    "client_inv inv timed known (cx_lib cx) n L s1" "op_stats s1 = op_stats s" "known key"
    using next_key_ok [OF assms(2)] by blast
  obtain flds s2 where 2: "fields_to_read cx s1 = Inr (flds, s2)" "client_inv inv timed known (cx_lib cx) n L s2" "op_stats s2 = op_stats s1"
    using fields_to_read_ok [OF 1(2)] by blast
  obtain c s3 where 3: "on_db (read_call cx (NextTable (sh_wl s)) key flds) s2 = Inr (c, s3)"
    "client_inv inv timed known (cx_lib cx) n L s3" "op_stats s3 = op_stats s2"
    using on_db_call [OF 2(2) read_call_ok [OF assms(1) 1(4)]] by blast
  obtain kvs s4 where 4: "values_to_write cx s3 = Inr (kvs, s4)" "client_inv inv timed known (cx_lib cx) n L s4"
    "list_all pair_fits kvs" "length kvs < 2 ^ 32" "op_stats s4 = op_stats s3"
    using values_to_write_ok [OF 3(2)] by blast
  from on_db_call [OF 4(2) update_call_ok [OF 4(3,4)], of "NextTable (sh_wl s)" key] 1 2 3 4 assms(1)
  show ?thesis by (auto simp: TransactionReadModifyWrite_def Let_def)
qed

lemma TransactionInsert_ok:
  assumes "cx_db cx = db" "client_inv inv timed known (cx_lib cx) n L s"
  shows "\<exists>c s'. TransactionInsert cx s = Inr (c, s') \<and> 0 \<le> c \<and> client_inv inv timed known (cx_lib cx) n L s' \<and> op_stats s' = op_stats s"
proof -
  define s1 where "s1 = s\<lparr>sh_insert_counter := sh_insert_counter s + 1\<rparr>"
  have 1: "client_inv inv timed known (cx_lib cx) n L s1" "op_stats s1 = op_stats s" using assms(2) by (simp_all add: s1_def)
  obtain kvs s2 where 2: "on_wl (BuildValues (cx_lib cx) []) s1 = Inr (kvs, s2)" "client_inv inv timed known (cx_lib cx) n L s2"
    "list_all pair_fits kvs" "length kvs < 2 ^ 32" "op_stats s2 = op_stats s1"
    using build_values_ok [OF 1(1)] by blast
  from on_db_call [OF 2(2) insert_call_ok [OF 2(3,4)], of "NextTable (sh_wl s)" "''user'' @ to_string (unat (sh_insert_counter s))"] 1 2 assms(1)
  show ?thesis by (auto simp: TransactionInsert_def Let_def s1_def)
qed

lemmas Transaction_ok = TransactionRead_ok TransactionUpdate_ok TransactionInsert_ok TransactionScan_ok TransactionReadModifyWrite_ok

end

section \<open>Timed transactions\<close>

text \<open>A transaction of kind \<open>op\<close> that took \<open>t\<close> microseconds, in the counters.\<close>

definition count_op ::
    "operation \<Rightarrow> u64 \<Rightarrow> (operation \<Rightarrow> u64) \<times> (operation \<Rightarrow> u64) \<Rightarrow> (operation \<Rightarrow> u64) \<times> (operation \<Rightarrow> u64)" where
  "count_op op t stats = ((fst stats)(op := fst stats op + 1), (snd stats)(op := snd stats op + t))"

lemma op_stats_account [simp]: "op_stats (account op t s) = count_op op t (op_stats s)"
  by (simp add: op_stats_def account_def count_op_def)

context timed_database
begin

lemma DoTransaction_ok:
  assumes "cx_db cx = db" "client_inv inv timed known (cx_lib cx) (Suc n) L s"
  shows "\<exists>ok op t s'. DoTransaction cx s = Inr (ok, s') \<and> client_inv inv timed known (cx_lib cx) n (L @ [(record_code op, t)]) s'
    \<and> op_stats s' = count_op op t (op_stats s)"
proof -
  let ?I = "\<lambda>n. client_inv inv timed known (cx_lib cx) n"
  obtain start k where now: "get_now_micros cx s = (start, s\<lparr>sh_readings := k\<rparr>)" by (rule get_now_micros_cases)
  define s1 where "s1 = s\<lparr>sh_readings := k\<rparr>"
  have 1: "?I (Suc n) L s1" "op_stats s1 = op_stats s" using assms(2) by (simp_all add: s1_def)
  then have wl: "workload_inv (cx_lib cx) (sh_wl s1)" by (simp add: client_inv_def)
  obtain op s2 where 2: "on_wl (NextOperation (cx_lib cx)) s1 = Inr (op, s2)" "?I (Suc n) L s2" "op_stats s2 = op_stats s1"
    using on_wl_ok [OF 1(1), of "NextOperation (cx_lib cx)" "\<lambda>_. True"] NextOperation_correct [OF wl, of "sh_env s1"] by auto
  obtain c s3 where 3: "Transaction cx op s2 = Inr (c, s3)" "0 \<le> c" "?I (Suc n) L s3" "op_stats s3 = op_stats s2"
    using Transaction_ok [OF assms(1) 2(2)] by (cases op) auto
  obtain now k where now3: "get_now_micros cx s3 = (now, s3\<lparr>sh_readings := k\<rparr>)" by (rule get_now_micros_cases)
  define t s4 where "t = now - start" and "s4 = account op t (s3\<lparr>sh_readings := k\<rparr>)"
  have 4: "?I (Suc n) L s4" "op_stats s4 = count_op op t (op_stats s3)" using 3(3) by (simp_all add: s4_def)
  have inv4: "inv (Suc n) (sh_db s4)" "timed L (sh_db s4)" using 4(1) by (simp_all add: client_inv_def)
  obtain d where d: "db_RecordTime db (record_code op) t (sh_db s4) = Inr d" "inv n d"
    using record_time [OF inv4(1)] by blast
  have "\<exists>r d. record_call cx (record_code op) t (sh_db s4) = Inr (r, d) \<and> inv n d
      \<and> timed (L @ [(record_code op, t)]) d \<and> True"
    using d timed_record [OF inv4(2,1) d(1)] assms(1) by (simp add: record_call_def)
  from on_db_ok [OF 4(1), of "record_call cx (record_code op) t" n "L @ [(record_code op, t)]" "\<lambda>_. True", OF this] 4 obtain s5 where
    5: "on_db (record_call cx (record_code op) t) s4 = Inr ((), s5)" "?I n (L @ [(record_code op, t)]) s5" "op_stats s5 = op_stats s4"
    by auto
  have "DoTransaction cx s = Inr (c = kOK, s5)"
    using 2(1) 3(1,2) now3 5(1) by (simp add: DoTransaction_def now s1_def s4_def t_def Let_def)
  with 5 4 3 2 1 show ?thesis by auto
qed

end

section \<open>The databases as instances\<close>

interpretation basic_timed: timed_database BasicDB "\<lambda>_ _. True" "\<lambda>_. True" "\<lambda>_ _. True"
  by unfold_locales simp_all

interpretation hashtable_timed: timed_database "HashtableDB lib" "\<lambda>_ s. hashtable_lib_ok lib \<and> ht_inv lib s" "\<lambda>_. True" "\<lambda>_ _. True" for lib
  by unfold_locales simp_all

text \<open>The times the latency histograms have been told, apart from the one-second histogram.\<close>

definition rocks_timed :: "(int \<times> u64) list \<Rightarrow> 's rocksdb_cloud \<Rightarrow> bool" where
  "rocks_timed L s \<longleftrightarrow>
     (\<exists>h0 M. (\<forall>v. 0 \<le> v \<and> v \<le> 3600000000 \<longrightarrow> trackable h0 v)
        \<and> latencies h0 s (times_of h0 L) M (\<lambda>i. times_of h0 (calls_of i L)))"

lemma times_of_snoc [simp]: "times_of h0 (L @ [(op, t)]) = times_of h0 L + recorded_time h0 t"
  by (simp add: times_of_def)

lemma times_of_calls_snoc:
  "(\<lambda>i. times_of h0 (calls_of i (L @ [(op, t)])))
     = (\<lambda>i. times_of h0 (calls_of i L))(op := times_of h0 (calls_of op L) + recorded_time h0 t)"
  by (auto simp: fun_eq_iff)

lemma size_times_of_filter: "size (times_of h0 (filter P L)) \<le> size (times_of h0 L)"
  by (induction L) (auto simp: times_of_def)

lemma latencies_sizes:
  assumes "latencies h0 s A M F" "latencies h1 s A' M' F'"
  shows "size A = size A'" "size M = size M'"
  using assms unfolding latencies_def latency_hist_def by (metis hdr_absD(5) of_nat_eq_iff)+

lemma rocks_timed_record:
  assumes "rocks_timed L s" "rocks_inv lib (Suc n) s" "RC_RecordTime op t s = Inr s'"
  shows "rocks_timed (L @ [(op, t)]) s'"
proof -
  obtain h0 M where h0: "\<And>v. 0 \<le> v \<Longrightarrow> v \<le> 3600000000 \<Longrightarrow> trackable h0 v"
    and l: "latencies h0 s (times_of h0 L) M (\<lambda>i. times_of h0 (calls_of i L))"
    using assms(1) by (auto simp: rocks_timed_def)
  obtain h1 A L1 F where l1: "latencies h1 s A L1 F" and room: "room (Suc n) A L1 F"
    using assms(2) by (auto simp: rocks_inv_def)
  note size = latencies_sizes [OF l l1]
  have le: "int (size (times_of h0 L) + Suc n) \<le> INT64_MAX" "int (size M + Suc n) \<le> INT64_MAX"
    using room size unfolding room_def by metis+
  have "int (size (times_of h0 (calls_of i L)) + Suc n) \<le> INT64_MAX" for i
    using size_times_of_filter [of h0 "\<lambda>c. fst c = i" L] le(1) by linarith
  with le have "room (Suc n) (times_of h0 L) M (\<lambda>i. times_of h0 (calls_of i L))" unfolding room_def by blast
  from RecordTime_latencies [OF l this, of op t] assms(3)
  have "latencies h0 s' (times_of h0 (L @ [(op, t)])) (M + recorded_time h0 t) (\<lambda>i. times_of h0 (calls_of i (L @ [(op, t)])))"
    unfolding times_of_calls_snoc by simp
  then show ?thesis unfolding rocks_timed_def using h0 by blast
qed

lemma rocks_timed_histograms:
  assumes "hour_times L" "rocks_timed L s"
  shows "hdr_abs (rc_hdr_all s) (call_times L) \<and> hdr_abs (rc_hdr_put s) (call_times (calls_of 1 L))
    \<and> hdr_abs (rc_hdr_get s) (call_times (calls_of 2 L)) \<and> hdr_abs (rc_hdr_update s) (call_times (calls_of 3 L))
    \<and> hdr_abs (rc_hdr_scan s) (call_times (calls_of 4 L)) \<and> hdr_abs (rc_hdr_rmw s) (call_times (calls_of 5 L))"
proof -
  obtain h0 M where h0: "\<And>v. 0 \<le> v \<Longrightarrow> v \<le> 3600000000 \<Longrightarrow> trackable h0 v"
    and l: "latencies h0 s (times_of h0 L) M (\<lambda>i. times_of h0 (calls_of i L))"
    using assms(2) by (auto simp: rocks_timed_def)
  have "times_of h0 L = call_times L" "\<And>i. times_of h0 (calls_of i L) = call_times (calls_of i L)"
    using times_of_hour [OF h0] hour_times_filter [OF assms(1)] assms(1) by blast+
  with l show ?thesis unfolding latencies_def latency_hist_def by metis
qed

lemma rocks_timed_frame [simp]:
  "rocks_timed L (s\<lparr>rc_db := d\<rparr>) = rocks_timed L s" "rocks_timed L (s\<lparr>rc_noResult := x\<rparr>) = rocks_timed L s"
  by (simp_all add: rocks_timed_def)

interpretation rocks_timed: timed_database "RocksDBCloud lib" "rocks_inv lib" "\<lambda>_. True" rocks_timed for lib
proof unfold_locales
  fix L s table key flds result c r s'
  assume "rocks_timed L s" "db_Read (RocksDBCloud lib) table key flds result s = Inr (c, r, s')"
  then show "rocks_timed L s'"
    by (auto simp: RocksDBCloud_def RC_Read_def andthen_eq_Inr split: prod.splits kv_status.splits)
next
  fix L and s :: "'a rocksdb_cloud" and table key kvs c s'
  assume t: "rocks_timed L s"
  then have "RC_Insert lib table key kvs s = Inr (c, s') \<Longrightarrow> rocks_timed L s'"
    by (auto simp: RC_Insert_def andthen_eq_Inr case_prod_beta split: if_splits)
  then show "db_Update (RocksDBCloud lib) table key kvs s = Inr (c, s') \<Longrightarrow> rocks_timed L s'"
    "db_Insert (RocksDBCloud lib) table key kvs s = Inr (c, s') \<Longrightarrow> rocks_timed L s'"
    by (simp_all add: RocksDBCloud_def RC_Update_def)
next
  fix L s iops s'
  assume t: "rocks_timed L s" "db_latency_hiccup (RocksDBCloud lib) iops s = Inr s'"
  then obtain h0 M where h0: "\<And>v. 0 \<le> v \<Longrightarrow> v \<le> 3600000000 \<Longrightarrow> trackable h0 v"
    and l: "latencies h0 s (times_of h0 L) M (\<lambda>i. times_of h0 (calls_of i L))"
    by (auto simp: rocks_timed_def)
  from latency_hiccup_total [OF l, of iops] t(2)
  have "latencies h0 s' (times_of h0 L) {#} (\<lambda>i. times_of h0 (calls_of i L))" by (auto simp: RocksDBCloud_def)
  then show "rocks_timed L s'" using h0 unfolding rocks_timed_def by blast
next
  fix L s n op t s'
  assume "rocks_timed L s" "rocks_inv lib (Suc n) s" "db_RecordTime (RocksDBCloud lib) op t s = Inr s'"
  then show "rocks_timed (L @ [(op, t)]) s'"
    using rocks_timed_record by (simp add: RocksDBCloud_def)
qed (simp_all add: RocksDBCloud_def RC_Scan_def)


end
