(* ===== verification/Ycsb_Threads.thy ===== *)
theory Ycsb_Threads
  imports Ycsb_Client
begin

text \<open>
  The loop of a client thread (\<open>ycsbc.cc\<close>, \<open>DelegateClient\<close>), the threads of a phase and their
  interleavings. A thread has a record for the local variables of its loop. A step of a phase is the
  start of a thread, one round of its loop, or its return; any thread may make the next step.
\<close>

section \<open>A client thread\<close>

datatype thread_state = Not_Started | Running | Returned

record client_thread =
  th_state :: thread_state
  th_num_ops :: int
  th_loading :: bool
  th_num :: int
  th_i :: int
  th_oks :: int
  th_next_report :: int

definition next_report_step :: "int \<Rightarrow> int" where
  "next_report_step n =
     (if n < 1000 then 100 else if n < 5000 then 500 else if n < 10000 then 1000 else if n < 50000 then 5000
      else if n < 100000 then 10000 else if n < 500000 then 50000 else 100000)"

text \<open>The progress report; the sum is an \<open>int\<close>, whose overflow is undefined.\<close>

definition progress :: "client_thread \<Rightarrow> run_stop + client_thread" where
  "progress th =
     (if th_next_report th \<le> th_i th then
        let n = th_next_report th + next_report_step (th_next_report th) in
        if n \<le> INT32_MAX then Inr (th\<lparr>th_next_report := n\<rparr>) else Inl Stop_Undefined
      else Inr th)"

definition of_bool_int :: "bool \<Rightarrow> int" where
  "of_bool_int b = (if b then 1 else 0)"

definition hiccup_call :: "('s, 'e) client_context \<Rightarrow> u64 \<Rightarrow> 's \<Rightarrow> run_stop + unit \<times> 's" where
  "hiccup_call cx iops d = map_sum id (\<lambda>d'. ((), d')) (db_latency_hiccup (cx_db cx) iops d)"

text \<open>What follows a transaction: thread 0 writes a line to the latency report about once per second.\<close>

definition after_transaction ::
    "('s, 'e) client_context \<Rightarrow> int \<Rightarrow> ('s, 'e) client_state \<Rightarrow> run_stop + ('s, 'e) client_state" where
  "after_transaction cx num s =
     (case get_now_micros cx s of (now, s1) \<Rightarrow>
        let tiktoks = now - (case sh_tiktok_start s1 of None \<Rightarrow> 0 | Some t \<Rightarrow> t);
            s2 = s1\<lparr>sh_tiktoks := tiktoks, sh_iops := sh_iops s1 + 1\<rparr> in
        if 1000000 \<le> tiktoks \<and> num = 0 then
          andthen (on_db (hiccup_call cx (sh_iops s2)) s2) (\<lambda>(_, s3).
          case get_now_micros cx s3 of (now', s4) \<Rightarrow>
            Inr (s4\<lparr>sh_tiktok_start := Some now', sh_tiktoks := 0, sh_iops := 0\<rparr>))
        else Inr s2)"

definition client_round ::
    "('s, 'e) client_context \<Rightarrow> client_thread \<Rightarrow> ('s, 'e) client_state
       \<Rightarrow> run_stop + client_thread \<times> ('s, 'e) client_state" where
  "client_round cx th s =
     andthen (progress th) (\<lambda>th1.
       if th_loading th1 then
         andthen (DoInsert cx s) (\<lambda>(ok, s1).
           Inr (th1\<lparr>th_oks := th_oks th1 + of_bool_int ok, th_i := th_i th1 + 1\<rparr>, s1))
       else
         andthen (DoTransaction cx s) (\<lambda>(ok, s1).
         andthen (after_transaction cx (th_num th1) s1) (\<lambda>s2.
           Inr (th1\<lparr>th_oks := th_oks th1 + of_bool_int ok, th_i := th_i th1 + 1\<rparr>, s2))))"

primrec client_rounds ::
    "('s, 'e) client_context \<Rightarrow> nat \<Rightarrow> client_thread \<Rightarrow> ('s, 'e) client_state
       \<Rightarrow> run_stop + client_thread \<times> ('s, 'e) client_state" where
  "client_rounds cx 0 th s = Inr (th, s)"
| "client_rounds cx (Suc k) th s =
     (if th_i th < th_num_ops th
      then andthen (client_round cx th s) (\<lambda>(th', s'). client_rounds cx k th' s')
      else Inr (th, s))"

definition new_thread :: "int \<Rightarrow> bool \<Rightarrow> int \<Rightarrow> client_thread" where
  "new_thread num_ops loading num =
     \<lparr>th_state = Not_Started, th_num_ops = num_ops, th_loading = loading, th_num = num, th_i = 0, th_oks = 0, th_next_report = 0\<rparr>"

text \<open>The start of \<open>DelegateClient\<close>; its static variables are initialised by the first call.\<close>

definition thread_start ::
    "('s, 'e) client_context \<Rightarrow> ('s, 'e) client_state \<Rightarrow> run_stop + ('s, 'e) client_state" where
  "thread_start cx s =
     andthen (db_Init (cx_db cx) (sh_db s)) (\<lambda>d.
       let s1 = s\<lparr>sh_db := d\<rparr> in
       case sh_tiktok_start s1 of
         None \<Rightarrow> (case get_now_micros cx s1 of (now, s2) \<Rightarrow> Inr (s2\<lparr>sh_tiktok_start := Some now\<rparr>))
       | Some t \<Rightarrow> Inr s1)"

definition thread_finish ::
    "('s, 'e) client_context \<Rightarrow> ('s, 'e) client_state \<Rightarrow> run_stop + ('s, 'e) client_state" where
  "thread_finish cx s = andthen (db_Close (cx_db cx) (sh_db s)) (\<lambda>d. Inr (s\<lparr>sh_db := d\<rparr>))"

definition DelegateClient ::
    "('s, 'e) client_context \<Rightarrow> int \<Rightarrow> bool \<Rightarrow> int \<Rightarrow> ('s, 'e) client_state \<Rightarrow> run_stop + int \<times> ('s, 'e) client_state" where
  "DelegateClient cx num_ops is_loading num s =
     andthen (thread_start cx s) (\<lambda>s1.
     andthen (client_rounds cx (nat num_ops) ((new_thread num_ops is_loading num)\<lparr>th_state := Running\<rparr>) s1) (\<lambda>(th, s2).
     andthen (thread_finish cx s2) (\<lambda>s3. Inr (th_oks th, s3))))"

section \<open>Interleavings\<close>

inductive client_step ::
    "('s, 'e) client_context \<Rightarrow> client_thread list \<times> ('s, 'e) client_state \<Rightarrow> client_thread list \<times> ('s, 'e) client_state \<Rightarrow> bool"
  for cx where
  thread_begins: "t < length ths \<Longrightarrow> th_state (ths ! t) = Not_Started \<Longrightarrow>
    thread_start cx s = Inr s' \<Longrightarrow> client_step cx (ths, s) (ths[t := (ths ! t)\<lparr>th_state := Running\<rparr>], s')"
| thread_round: "t < length ths \<Longrightarrow> th_state (ths ! t) = Running \<Longrightarrow> th_i (ths ! t) < th_num_ops (ths ! t) \<Longrightarrow>
    client_round cx (ths ! t) s = Inr (th', s') \<Longrightarrow> client_step cx (ths, s) (ths[t := th'], s')"
| thread_returns: "t < length ths \<Longrightarrow> th_state (ths ! t) = Running \<Longrightarrow> th_num_ops (ths ! t) \<le> th_i (ths ! t) \<Longrightarrow>
    thread_finish cx s = Inr s' \<Longrightarrow> client_step cx (ths, s) (ths[t := (ths ! t)\<lparr>th_state := Returned\<rparr>], s')"

definition thread_ok :: "client_thread \<Rightarrow> bool" where
  "thread_ok th \<longleftrightarrow> 0 \<le> th_oks th \<and> th_oks th \<le> th_i th \<and> (th_i th \<le> th_num_ops th \<or> th_i th = 0)
     \<and> th_num_ops th \<le> INT32_MAX - 100000 \<and> (th_state th = Returned \<longrightarrow> th_num_ops th \<le> th_i th)"

lemma progress_ok:
  assumes "thread_ok th" "th_i th < th_num_ops th"
  shows "\<exists>n. progress th = Inr (th\<lparr>th_next_report := n\<rparr>)"
proof (cases "th_next_report th \<le> th_i th")
  case True
  then have "th_next_report th + next_report_step (th_next_report th) \<le> INT32_MAX"
    using assms by (simp add: thread_ok_def next_report_step_def)
  with True show ?thesis by (auto simp: progress_def Let_def)
next
  case False
  then show ?thesis by (intro exI [of _ "th_next_report th"]) (simp add: progress_def)
qed

text \<open>The round of a thread: it makes one attempt, successful or not.\<close>

definition attempted :: "client_thread \<Rightarrow> client_thread \<Rightarrow> bool" where
  "attempted th th' \<longleftrightarrow> th_i th' = th_i th + 1 \<and> th_num_ops th' = th_num_ops th \<and> th_loading th' = th_loading th
     \<and> th_state th' = th_state th \<and> th_num th' = th_num th \<and> th_oks th \<le> th_oks th' \<and> th_oks th' \<le> th_oks th + 1"

lemma thread_ok_attempted:
  "thread_ok th \<Longrightarrow> th_i th < th_num_ops th \<Longrightarrow> attempted th th' \<Longrightarrow> thread_ok th'"
  by (auto simp: thread_ok_def attempted_def)

text \<open>A step that stops the program.\<close>

inductive client_stop :: "('s, 'e) client_context \<Rightarrow> client_thread list \<times> ('s, 'e) client_state \<Rightarrow> run_stop \<Rightarrow> bool"
  for cx where
  begin_stops: "t < length ths \<Longrightarrow> th_state (ths ! t) = Not_Started \<Longrightarrow> thread_start cx s = Inl e \<Longrightarrow> client_stop cx (ths, s) e"
| round_stops: "t < length ths \<Longrightarrow> th_state (ths ! t) = Running \<Longrightarrow> th_i (ths ! t) < th_num_ops (ths ! t) \<Longrightarrow>
    client_round cx (ths ! t) s = Inl e \<Longrightarrow> client_stop cx (ths, s) e"
| return_stops: "t < length ths \<Longrightarrow> th_state (ths ! t) = Running \<Longrightarrow> th_num_ops (ths ! t) \<le> th_i (ths ! t) \<Longrightarrow>
    thread_finish cx s = Inl e \<Longrightarrow> client_stop cx (ths, s) e"

text \<open>The threads of a phase, with the rounds they have made and those left, and the steps left.\<close>

definition threads_ok :: "bool \<Rightarrow> client_thread list \<Rightarrow> bool" where
  "threads_ok loading ths \<longleftrightarrow> list_all (\<lambda>th. thread_ok th \<and> th_loading th = loading) ths"

definition rounds_made :: "client_thread list \<Rightarrow> nat" where
  "rounds_made ths = (\<Sum>th\<leftarrow>ths. nat (th_i th))"

definition rounds_left :: "client_thread list \<Rightarrow> nat" where
  "rounds_left ths = (\<Sum>th\<leftarrow>ths. nat (th_num_ops th - th_i th))"

definition state_steps :: "thread_state \<Rightarrow> nat" where
  "state_steps st = (case st of Not_Started \<Rightarrow> 2 | Running \<Rightarrow> 1 | Returned \<Rightarrow> 0)"

definition steps_left :: "client_thread list \<Rightarrow> nat" where
  "steps_left ths = (\<Sum>th\<leftarrow>ths. nat (th_num_ops th - th_i th) + state_steps (th_state th))"

definition join_threads :: "client_thread list \<Rightarrow> int" where
  "join_threads ths = (\<Sum>th\<leftarrow>ths. th_oks th)"

lemma threads_ok_nth: "threads_ok b ths \<Longrightarrow> t < length ths \<Longrightarrow> thread_ok (ths ! t) \<and> th_loading (ths ! t) = b"
  by (simp add: threads_ok_def list_all_length)

lemma threads_ok_replaced:
  "threads_ok b ths \<Longrightarrow> thread_ok th \<Longrightarrow> th_loading th = b \<Longrightarrow> threads_ok b (ths[t := th])"
  by (cases "t < length ths") (auto simp: threads_ok_def list_all_length nth_list_update)

lemma sum_list_replaced:
  fixes f :: "'a \<Rightarrow> 'b :: cancel_comm_monoid_add"
  assumes "t < length xs"
  shows "sum_list (map f (xs[t := y])) + f (xs ! t) = sum_list (map f xs) + f y"
  using assms by (induction xs arbitrary: t) (auto simp: ac_simps split: nat.splits)

text \<open>What one thread contributes to each of the sums above.\<close>

lemma thread_sums:
  fixes ths t y
  assumes "t < length ths"
  defines "ths' \<equiv> ths[t := y]"
  shows "rounds_made ths' + nat (th_i (ths ! t)) = rounds_made ths + nat (th_i y)"
    "rounds_left ths' + nat (th_num_ops (ths ! t) - th_i (ths ! t)) = rounds_left ths + nat (th_num_ops y - th_i y)"
    "steps_left ths' + nat (th_num_ops (ths ! t) - th_i (ths ! t)) + state_steps (th_state (ths ! t))
       = steps_left ths + nat (th_num_ops y - th_i y) + state_steps (th_state y)"
    "join_threads ths' + th_oks (ths ! t) = join_threads ths + th_oks y"
  using sum_list_replaced [OF assms(1), of "\<lambda>th. nat (th_i th)" y]
    sum_list_replaced [OF assms(1), of "\<lambda>th. nat (th_num_ops th - th_i th)" y]
    sum_list_replaced [OF assms(1), of "\<lambda>th. nat (th_num_ops th - th_i th) + state_steps (th_state th)" y]
    sum_list_replaced [OF assms(1), of th_oks y]
  by (simp_all add: rounds_made_def rounds_left_def steps_left_def join_threads_def ths'_def)

lemma state_steps_simps [simp]:
  "state_steps Not_Started = 2" "state_steps Running = 1" "state_steps Returned = 0" "state_steps st = 0 \<longleftrightarrow> st = Returned"
  by (simp_all add: state_steps_def split: thread_state.split)

lemma steps_left_0: "steps_left ths = 0 \<longleftrightarrow> list_all (\<lambda>th. th_state th = Returned \<and> th_num_ops th \<le> th_i th) ths"
  by (auto simp: steps_left_def list_all_iff)

lemma rounds_left_le_steps: "rounds_left ths \<le> steps_left ths"
  by (simp add: rounds_left_def steps_left_def sum_list_mono)

lemma rounds_total:
  assumes "threads_ok b ths"
  shows "rounds_made ths + rounds_left ths = (\<Sum>th\<leftarrow>ths. nat (th_num_ops th))"
  using assms by (induction ths) (auto simp: threads_ok_def thread_ok_def rounds_made_def rounds_left_def)

lemma join_threads_bounds:
  assumes "threads_ok loading ths"
  shows "0 \<le> join_threads ths \<and> join_threads ths \<le> int (rounds_made ths)"
  using assms by (induction ths) (auto simp: threads_ok_def thread_ok_def join_threads_def rounds_made_def)

section \<open>The contract of a phase\<close>

text \<open>
  A phase of \<open>N\<close> rounds keeps a property \<open>J\<close> of the shared state that depends on the number of rounds
  made and of those that succeeded: a thread can start and return without changing it, and as long as
  rounds are left every thread can make one.
\<close>

locale client_phase =
  fixes cx :: "('s, 'e) client_context" and loading :: bool and N :: nat
    and J :: "nat \<Rightarrow> int \<Rightarrow> ('s, 'e) client_state \<Rightarrow> bool"
  assumes phase_start: "J k oks s \<Longrightarrow> \<exists>s'. thread_start cx s = Inr s' \<and> J k oks s'"
    and phase_finish: "J k oks s \<Longrightarrow> \<exists>s'. thread_finish cx s = Inr s' \<and> J k oks s'"
    and phase_round: "J k oks s \<Longrightarrow> k < N \<Longrightarrow> thread_ok th \<Longrightarrow> th_loading th = loading \<Longrightarrow> th_i th < th_num_ops th \<Longrightarrow>
      \<exists>th' s'. client_round cx th s = Inr (th', s') \<and> attempted th th' \<and> J (Suc k) (oks + (th_oks th' - th_oks th)) s'"

definition phase_inv ::
    "bool \<Rightarrow> nat \<Rightarrow> (nat \<Rightarrow> int \<Rightarrow> ('s, 'e) client_state \<Rightarrow> bool) \<Rightarrow> client_thread list \<Rightarrow> ('s, 'e) client_state \<Rightarrow> bool" where
  "phase_inv loading N J ths s \<longleftrightarrow>
     threads_ok loading ths \<and> rounds_made ths + rounds_left ths = N \<and> J (rounds_made ths) (join_threads ths) s"

lemma phase_inv_replaced:
  assumes "phase_inv loading N J ths s" "t < length ths" "thread_ok y" "th_loading y = loading"
    "th_i y = th_i (ths ! t)" "th_num_ops y = th_num_ops (ths ! t)" "th_oks y = th_oks (ths ! t)"
    "J (rounds_made ths) (join_threads ths) s'"
  shows "phase_inv loading N J (ths[t := y]) s'"
  using assms thread_sums [OF assms(2), of y] by (simp add: phase_inv_def threads_ok_replaced)

lemma phase_inv_round:
  assumes "phase_inv loading N J ths s" "t < length ths" "th_i (ths ! t) < th_num_ops (ths ! t)" "attempted (ths ! t) y"
    "J (Suc (rounds_made ths)) (join_threads ths + (th_oks y - th_oks (ths ! t))) s'"
  shows "phase_inv loading N J (ths[t := y]) s'"
proof -
  have ok: "threads_ok loading ths" "rounds_made ths + rounds_left ths = N" using assms(1) by (simp_all add: phase_inv_def)
  have t: "thread_ok (ths ! t)" "th_loading (ths ! t) = loading" using threads_ok_nth [OF ok(1) assms(2)] by simp_all
  have y: "thread_ok y" "th_loading y = loading"
    using thread_ok_attempted [OF t(1) assms(3,4)] t(2) assms(4) by (simp_all add: attempted_def)
  have "0 \<le> th_i (ths ! t)" using t(1) by (simp add: thread_ok_def)
  then have "nat (th_i y) = Suc (nat (th_i (ths ! t)))"
    "nat (th_num_ops (ths ! t) - th_i (ths ! t)) = Suc (nat (th_num_ops y - th_i y))"
    using assms(3,4) by (simp_all add: attempted_def)
  with thread_sums [OF assms(2), of y] have "rounds_made (ths[t := y]) = Suc (rounds_made ths)"
    "Suc (rounds_left (ths[t := y])) = rounds_left ths"
    "join_threads (ths[t := y]) = join_threads ths + (th_oks y - th_oks (ths ! t))" by simp_all
  with ok assms(5) threads_ok_replaced [OF ok(1) y] show ?thesis by (simp add: phase_inv_def)
qed

context client_phase
begin

lemma phase_step:
  assumes "client_step cx (ths, s) (ths', s')" "phase_inv loading N J ths s"
  shows "phase_inv loading N J ths' s' \<and> steps_left ths = Suc (steps_left ths')"
proof -
  have ok: "threads_ok loading ths" "rounds_made ths + rounds_left ths = N" "J (rounds_made ths) (join_threads ths) s"
    using assms(2) by (simp_all add: phase_inv_def)
  from assms(1) show ?thesis
  proof (cases rule: client_step.cases)
    case (thread_begins t)
    note t = threads_ok_nth [OF ok(1) thread_begins(2)]
    have "J (rounds_made ths) (join_threads ths) s'" using phase_start [OF ok(3)] thread_begins by auto
    from phase_inv_replaced [OF assms(2) thread_begins(2) _ _ _ _ _ this] thread_sums(3) [OF thread_begins(2), of "(ths ! t)\<lparr>th_state := Running\<rparr>"] t thread_begins
    show ?thesis by (auto simp: thread_ok_def)
  next
    case (thread_round t th')
    note t = threads_ok_nth [OF ok(1) thread_round(2)]
    have "rounds_left ths \<noteq> 0" using thread_round(2,4) by (auto simp: rounds_left_def set_conv_nth)
    then have "rounds_made ths < N" using ok(2) by linarith
    from phase_round [OF ok(3) this, of "ths ! t"] t thread_round have th': "attempted (ths ! t) th'"
      "J (Suc (rounds_made ths)) (join_threads ths + (th_oks th' - th_oks (ths ! t))) s'" by auto
    then have "nat (th_num_ops (ths ! t) - th_i (ths ! t)) = Suc (nat (th_num_ops th' - th_i th'))" "th_state th' = th_state (ths ! t)"
      using thread_round(4) by (simp_all add: attempted_def)
    with phase_inv_round [OF assms(2) thread_round(2,4) th'] thread_sums(3) [OF thread_round(2), of th'] thread_round show ?thesis by auto
  next
    case (thread_returns t)
    note t = threads_ok_nth [OF ok(1) thread_returns(2)]
    have "J (rounds_made ths) (join_threads ths) s'" using phase_finish [OF ok(3)] thread_returns by auto
    from phase_inv_replaced [OF assms(2) thread_returns(2) _ _ _ _ _ this] thread_sums(3) [OF thread_returns(2), of "(ths ! t)\<lparr>th_state := Returned\<rparr>"] t thread_returns
    show ?thesis by (auto simp: thread_ok_def)
  qed
qed

lemma phase_steps:
  assumes "(client_step cx ^^ k) (ths, s) (ths', s')" "phase_inv loading N J ths s"
  shows "phase_inv loading N J ths' s' \<and> k + steps_left ths' = steps_left ths"
  using assms(1)
proof (induction k arbitrary: ths' s')
  case 0
  then show ?case using assms(2) by simp
next
  case (Suc k)
  then obtain ths1 s1 where 1: "(client_step cx ^^ k) (ths, s) (ths1, s1)" "client_step cx (ths1, s1) (ths', s')"
    by (auto elim!: relpowp_Suc_E)
  from Suc.IH [OF 1(1)] phase_step [OF 1(2)] show ?case by auto
qed

lemma phase_progress:
  assumes "phase_inv loading N J ths s" "steps_left ths \<noteq> 0"
  shows "\<exists>y. client_step cx (ths, s) y"
proof -
  have ok: "threads_ok loading ths" "rounds_made ths + rounds_left ths = N" "J (rounds_made ths) (join_threads ths) s"
    using assms(1) by (simp_all add: phase_inv_def)
  obtain t where t: "t < length ths" "th_state (ths ! t) \<noteq> Returned \<or> th_i (ths ! t) < th_num_ops (ths ! t)"
    using assms(2) by (auto simp: steps_left_0 list_all_length)
  note th = threads_ok_nth [OF ok(1) t(1)]
  then consider "th_state (ths ! t) = Not_Started" | "th_state (ths ! t) = Running" "th_i (ths ! t) < th_num_ops (ths ! t)"
    | "th_state (ths ! t) = Running" "th_num_ops (ths ! t) \<le> th_i (ths ! t)"
    using t(2) by (cases "th_state (ths ! t)"; cases "th_i (ths ! t) < th_num_ops (ths ! t)") (simp_all add: thread_ok_def)
  then show ?thesis
  proof cases
    case 1
    then show ?thesis using phase_start [OF ok(3)] thread_begins [OF t(1)] by blast
  next
    case 2
    then have "rounds_left ths \<noteq> 0" using t(1) by (auto simp: rounds_left_def set_conv_nth)
    then have "rounds_made ths < N" using ok(2) by linarith
    from phase_round [OF ok(3) this] th 2 show ?thesis using thread_round [OF t(1)] by blast
  next
    case 3
    then show ?thesis using phase_finish [OF ok(3)] thread_returns [OF t(1)] by blast
  qed
qed

lemma phase_never_stops:
  assumes "phase_inv loading N J ths s"
  shows "\<not> client_stop cx (ths, s) e"
proof
  have ok: "threads_ok loading ths" "rounds_made ths + rounds_left ths = N" "J (rounds_made ths) (join_threads ths) s"
    using assms by (simp_all add: phase_inv_def)
  assume "client_stop cx (ths, s) e"
  then show False
  proof (cases rule: client_stop.cases)
    case (begin_stops t)
    then show False using phase_start [OF ok(3)] by auto
  next
    case (round_stops t)
    then have "rounds_left ths \<noteq> 0" by (auto simp: rounds_left_def set_conv_nth)
    then have "rounds_made ths < N" using ok(2) by linarith
    from phase_round [OF ok(3) this, of "ths ! t"] threads_ok_nth [OF ok(1)] round_stops show False by auto
  next
    case (return_stops t)
    then show False using phase_finish [OF ok(3)] by auto
  qed
qed

text \<open>A phase ends: whatever the threads have done so far, they can go on to the end, in a number of
  steps that does not depend on their order.\<close>

lemma phase_completes:
  assumes "phase_inv loading N J ths s"
  shows "\<exists>ths' s'. (client_step cx ^^ steps_left ths) (ths, s) (ths', s') \<and> steps_left ths' = 0"
  using assms
proof (induction "steps_left ths" arbitrary: ths s)
  case (Suc n)
  then obtain ths1 s1 where step: "client_step cx (ths, s) (ths1, s1)" using phase_progress by (metis nat.distinct(1) surj_pair)
  from phase_step [OF this Suc.prems] Suc.hyps(2) have "phase_inv loading N J ths1 s1" "n = steps_left ths1" by auto
  with Suc.hyps(1) [of ths1 s1] step Suc.hyps(2) show ?case
    by (metis relpowp_Suc_I2)
qed auto

end

section \<open>Transactions\<close>

context timed_database
begin

lemma thread_start_ok:
  assumes "cx_db cx = db" "client_inv inv timed known lib n L s"
  shows "\<exists>s'. thread_start cx s = Inr s' \<and> client_inv inv timed known lib n L s' \<and> op_stats s' = op_stats s"
proof -
  have inv: "inv n (sh_db s)" "timed L (sh_db s)" using assms(2) by (simp_all add: client_inv_def)
  obtain d where d: "db_Init db (sh_db s) = Inr d" "inv n d" using init [OF inv(1)] by blast
  have 1: "client_inv inv timed known lib n L (s\<lparr>sh_db := d\<rparr>)"
    using assms(2) d timed_init [OF inv(2) d(1)] by (simp add: client_inv_def)
  obtain now k where "get_now_micros cx (s\<lparr>sh_db := d\<rparr>) = (now, s\<lparr>sh_db := d\<rparr>\<lparr>sh_readings := k\<rparr>)"
    by (rule get_now_micros_cases)
  with 1 d(1) assms(1) show ?thesis
    by (cases "sh_tiktok_start s") (simp_all add: thread_start_def Let_def client_inv_def op_stats_def)
qed

lemma thread_finish_ok:
  assumes "cx_db cx = db" "client_inv inv timed known lib n L s"
  shows "\<exists>s'. thread_finish cx s = Inr s' \<and> client_inv inv timed known lib n L s' \<and> op_stats s' = op_stats s"
proof -
  have inv: "inv n (sh_db s)" "timed L (sh_db s)" using assms(2) by (simp_all add: client_inv_def)
  obtain d where d: "db_Close db (sh_db s) = Inr d" "inv n d" using close [OF inv(1)] by blast
  have "client_inv inv timed known lib n L (s\<lparr>sh_db := d\<rparr>)"
    using assms(2) d timed_close [OF inv(2) d(1)] by (simp add: client_inv_def)
  with d(1) assms(1) show ?thesis by (simp add: thread_finish_def)
qed

lemma after_transaction_ok:
  assumes "cx_db cx = db" "client_inv inv timed known (cx_lib cx) n L s"
  shows "\<exists>s'. after_transaction cx num s = Inr s' \<and> client_inv inv timed known (cx_lib cx) n L s' \<and> op_stats s' = op_stats s"
proof -
  let ?I = "client_inv inv timed known (cx_lib cx) n L"
  obtain now k where now: "get_now_micros cx s = (now, s\<lparr>sh_readings := k\<rparr>)" by (rule get_now_micros_cases)
  define tt where "tt = now - (case sh_tiktok_start s of None \<Rightarrow> 0 | Some t \<Rightarrow> t)"
  define s2 where "s2 = s\<lparr>sh_readings := k, sh_tiktoks := tt, sh_iops := sh_iops s + 1\<rparr>"
  have 2: "?I s2" "op_stats s2 = op_stats s" using assms(2) by (simp_all add: s2_def client_inv_def op_stats_def)
  show ?thesis
  proof (cases "1000000 \<le> tt \<and> num = 0")
    case True
    have inv2: "inv n (sh_db s2)" "timed L (sh_db s2)" using 2(1) by (simp_all add: client_inv_def)
    obtain d where d: "db_latency_hiccup db (sh_iops s2) (sh_db s2) = Inr d" "inv n d" using hiccup [OF inv2(1)] by blast
    have "\<exists>r d. hiccup_call cx (sh_iops s2) (sh_db s2) = Inr (r, d) \<and> inv n d \<and> timed L d \<and> True"
      using d timed_hiccup [OF inv2(2) d(1)] assms(1) by (simp add: hiccup_call_def)
    from on_db_ok [OF 2(1), of "hiccup_call cx (sh_iops s2)" n L "\<lambda>_. True", OF this] obtain s3 where
      3: "on_db (hiccup_call cx (sh_iops s2)) s2 = Inr ((), s3)" "?I s3" "op_stats s3 = op_stats s2" by auto
    obtain now' k' where now': "get_now_micros cx s3 = (now', s3\<lparr>sh_readings := k'\<rparr>)" by (rule get_now_micros_cases)
    have "after_transaction cx num s
        = Inr (s3\<lparr>sh_readings := k', sh_tiktok_start := Some now', sh_tiktoks := 0, sh_iops := 0\<rparr>)"
      using True 3(1) now' by (simp add: after_transaction_def now Let_def tt_def s2_def)
    with 2 3 show ?thesis by (simp add: client_inv_def op_stats_def)
  next
    case False
    then have "after_transaction cx num s = Inr s2"
      by (auto simp add: after_transaction_def now Let_def tt_def s2_def)
    with 2 show ?thesis by simp
  qed
qed

lemma transaction_round_ok:
  assumes "cx_db cx = db" "client_inv inv timed known (cx_lib cx) (Suc n) L s" "thread_ok th" "th_i th < th_num_ops th" "\<not> th_loading th"
  shows "\<exists>th' s' op t. client_round cx th s = Inr (th', s') \<and> attempted th th'
    \<and> client_inv inv timed known (cx_lib cx) n (L @ [(record_code op, t)]) s' \<and> op_stats s' = count_op op t (op_stats s)"
proof -
  obtain m where m: "progress th = Inr (th\<lparr>th_next_report := m\<rparr>)" using progress_ok [OF assms(3,4)] by blast
  obtain ok op t s1 where 1: "DoTransaction cx s = Inr (ok, s1)" "client_inv inv timed known (cx_lib cx) n (L @ [(record_code op, t)]) s1"
    "op_stats s1 = count_op op t (op_stats s)"
    using DoTransaction_ok [OF assms(1,2)] by blast
  obtain s2 where "after_transaction cx (th_num th) s1 = Inr s2" "client_inv inv timed known (cx_lib cx) n (L @ [(record_code op, t)]) s2"
    "op_stats s2 = op_stats s1"
    using after_transaction_ok [OF assms(1) 1(2)] by blast
  with m 1 assms(5) show ?thesis
    by (auto simp: client_round_def attempted_def of_bool_int_def)
qed

end

text \<open>After \<open>k\<close> of \<open>N\<close> rounds the log has \<open>k\<close> entries more than at the start.\<close>

definition transactions_made ::
    "(nat \<Rightarrow> 's \<Rightarrow> bool) \<Rightarrow> ((int \<times> u64) list \<Rightarrow> 's \<Rightarrow> bool) \<Rightarrow> (string \<Rightarrow> bool) \<Rightarrow> 's db_ops \<Rightarrow> ('s, 'e) client_context \<Rightarrow> nat
       \<Rightarrow> nat \<Rightarrow> int \<Rightarrow> ('s, 'e) client_state \<Rightarrow> bool" where
  "transactions_made I T K db cx N k oks s \<longleftrightarrow> cx_db cx = db \<and>
     (\<exists>L. length L = k \<and> client_inv I T K (cx_lib cx) (N - k) L s \<and> accounted L (op_stats s))"

sublocale timed_database \<subseteq> run: client_phase cx False N "transactions_made inv timed known db cx N" for cx N
proof
  fix k oks s
  assume J: "transactions_made inv timed known db cx N k oks s"
  then obtain L where L: "cx_db cx = db" "length L = k" "client_inv inv timed known (cx_lib cx) (N - k) L s" "accounted L (op_stats s)"
    by (auto simp: transactions_made_def)
  from thread_start_ok [OF L(1,3)] L show "\<exists>s'. thread_start cx s = Inr s' \<and> transactions_made inv timed known db cx N k oks s'"
    by (fastforce simp: transactions_made_def)
  from thread_finish_ok [OF L(1,3)] L show "\<exists>s'. thread_finish cx s = Inr s' \<and> transactions_made inv timed known db cx N k oks s'"
    by (fastforce simp: transactions_made_def)
  fix th
  assume k: "k < N" and th: "thread_ok th" "th_loading th = False" "th_i th < th_num_ops th"
  have "N - k = Suc (N - Suc k)" using k by simp
  with L(3) have "client_inv inv timed known (cx_lib cx) (Suc (N - Suc k)) L s" by simp
  from transaction_round_ok [OF L(1) this th(1,3)] th(2) obtain th' s' op t where
    r: "client_round cx th s = Inr (th', s')" "attempted th th'"
      "client_inv inv timed known (cx_lib cx) (N - Suc k) (L @ [(record_code op, t)]) s'" "op_stats s' = count_op op t (op_stats s)" by blast
  moreover have "accounted (L @ [(record_code op, t)]) (op_stats s')"
    using accounted_step [OF L(4), of op t] r(4) by (simp add: count_op_def)
  ultimately show "\<exists>th' s'. client_round cx th s = Inr (th', s') \<and> attempted th th'
      \<and> transactions_made inv timed known db cx N (Suc k) (oks + (th_oks th' - th_oks th)) s'"
    using L(1,2) unfolding transactions_made_def by (metis length_append_singleton)
qed

section \<open>One thread\<close>

text \<open>What a thread still does when it runs alone.\<close>

definition thread_rest :: "('s, 'e) client_context \<Rightarrow> client_thread \<Rightarrow> ('s, 'e) client_state \<Rightarrow> run_stop + int \<times> ('s, 'e) client_state" where
  "thread_rest cx th s =
     (let loop = \<lambda>th s. andthen (client_rounds cx (nat (th_num_ops th - th_i th)) th s) (\<lambda>(th', s').
                   andthen (thread_finish cx s') (\<lambda>s''. Inr (th_oks th', s'')))
      in case th_state th of
           Not_Started \<Rightarrow> andthen (thread_start cx s) (loop (th\<lparr>th_state := Running\<rparr>))
         | Running \<Rightarrow> loop th s
         | Returned \<Rightarrow> Inr (th_oks th, s))"

lemma client_round_frame:
  assumes "client_round cx th s = Inr (th', s')"
  shows "th_state th' = th_state th" "th_i th' = th_i th + 1" "th_num_ops th' = th_num_ops th"
proof -
  obtain th1 where th1: "progress th = Inr th1"
    using assms by (cases "progress th") (simp_all add: client_round_def)
  then have "th_state th1 = th_state th" "th_i th1 = th_i th" "th_num_ops th1 = th_num_ops th"
    by (auto simp: progress_def Let_def split: if_splits)
  then show "th_state th' = th_state th" "th_i th' = th_i th + 1" "th_num_ops th' = th_num_ops th"
    using assms th1 by (auto simp: client_round_def andthen_eq_Inr split: if_splits)
qed

lemma thread_rest_round:
  assumes "th_state th = Running" "th_i th < th_num_ops th" "client_round cx th s = Inr (th', s')"
  shows "thread_rest cx th s = thread_rest cx th' s'"
proof -
  note th' = client_round_frame [OF assms(3)]
  have "nat (th_num_ops th - th_i th) = Suc (nat (th_num_ops th' - th_i th'))" using assms(2) th' by simp
  then show ?thesis using assms th' by (simp add: thread_rest_def)
qed

lemma client_rounds_done: "th_num_ops th \<le> th_i th \<Longrightarrow> client_rounds cx k th s = Inr (th, s)"
  by (cases k) simp_all

lemma single_step_rest:
  assumes "client_step cx ([th], s) (ths', s')"
  obtains th' where "ths' = [th']" "thread_rest cx th s = thread_rest cx th' s'"
  using assms
proof (cases rule: client_step.cases)
  case (thread_begins t)
  then show ?thesis by (intro that [of "th\<lparr>th_state := Running\<rparr>"]) (simp_all add: thread_rest_def)
next
  case (thread_round t th')
  then show ?thesis by (intro that [of th']) (simp_all add: thread_rest_round)
next
  case (thread_returns t)
  then show ?thesis
    by (intro that [of "th\<lparr>th_state := Returned\<rparr>"]) (simp_all add: thread_rest_def client_rounds_done)
qed

lemma single_steps_rest:
  assumes "(client_step cx)\<^sup>*\<^sup>* ([th], s) ([th'], s')" "th_state th' = Returned"
  shows "thread_rest cx th s = Inr (th_oks th', s')"
  using assms(1)
proof (induction "([th], s)" arbitrary: th s rule: converse_rtranclp_induct)
  case base
  then show ?case using assms(2) by (simp add: thread_rest_def)
next
  case (step y)
  obtain ths1 s1 where y: "y = (ths1, s1)" by (cases y)
  with step(1) obtain th1 where "ths1 = [th1]" "thread_rest cx th s = thread_rest cx th1 s1" by (auto elim: single_step_rest)
  with step(3) y show ?case by simp
qed

lemma client_rounds_steps:
  assumes "client_rounds cx (nat (th_num_ops th - th_i th)) th s = Inr (th', s')" "th_state th = Running"
  shows "(client_step cx)\<^sup>*\<^sup>* ([th], s) ([th'], s') \<and> th_state th' = Running \<and> th_num_ops th' \<le> th_i th'"
  using assms
proof (induction "nat (th_num_ops th - th_i th)" arbitrary: th s)
  case 0
  then show ?case by (auto simp: client_rounds_done)
next
  case (Suc n)
  then have less: "th_i th < th_num_ops th" by linarith
  have "client_rounds cx (Suc n) th s = Inr (th', s')" using Suc.prems(1) unfolding Suc.hyps(2) [symmetric] .
  with less obtain th1 s1 where r: "client_round cx th s = Inr (th1, s1)" "client_rounds cx n th1 s1 = Inr (th', s')"
    by (auto simp: andthen_eq_Inr)
  note f = client_round_frame [OF r(1)]
  have "n = nat (th_num_ops th1 - th_i th1)" using f Suc.hyps(2) by simp
  from Suc.hyps(1) [OF this] r(2) f(1) Suc.prems(2) this
  have "(client_step cx)\<^sup>*\<^sup>* ([th1], s1) ([th'], s')" "th_state th' = Running" "th_num_ops th' \<le> th_i th'" by simp_all
  moreover have "client_step cx ([th], s) ([th1], s1)"
    using thread_round [of 0 "[th]" cx s th1 s1] Suc.prems(2) less r(1) by simp
  ultimately show ?case by (auto intro: converse_rtranclp_into_rtranclp)
qed

lemma thread_rest_steps:
  assumes "thread_rest cx (new_thread num_ops is_loading num) s = Inr (r, s')"
  shows "\<exists>th. (client_step cx)\<^sup>*\<^sup>* ([new_thread num_ops is_loading num], s) ([th], s') \<and> th_state th = Returned \<and> th_oks th = r"
proof -
  let ?th = "new_thread num_ops is_loading num"
  from assms obtain s1 th1 s2 where 1: "thread_start cx s = Inr s1"
    "client_rounds cx (nat (th_num_ops (?th\<lparr>th_state := Running\<rparr>) - th_i (?th\<lparr>th_state := Running\<rparr>))) (?th\<lparr>th_state := Running\<rparr>) s1 = Inr (th1, s2)"
    "thread_finish cx s2 = Inr s'" "r = th_oks th1"
    by (auto simp: thread_rest_def andthen_eq_Inr new_thread_def)
  note 2 = client_rounds_steps [OF 1(2)]
  have "client_step cx ([?th], s) ([?th\<lparr>th_state := Running\<rparr>], s1)"
    using thread_begins [of 0 "[?th]" cx s s1] 1(1) by (simp add: new_thread_def)
  moreover have "client_step cx ([th1], s2) ([th1\<lparr>th_state := Returned\<rparr>], s')"
    using thread_returns [of 0 "[th1]" cx s2 s'] 1(3) 2 by simp
  ultimately have "(client_step cx)\<^sup>*\<^sup>* ([?th], s) ([th1\<lparr>th_state := Returned\<rparr>], s')"
    using 2 by (auto intro: converse_rtranclp_into_rtranclp rtranclp.rtrancl_into_rtrancl)
  then show ?thesis using 1(4) by (intro exI [of _ "th1\<lparr>th_state := Returned\<rparr>"]) simp
qed

section \<open>The phases of the benchmark\<close>

text \<open>The state before the first phase: the counters are global variables.\<close>

definition client_start :: "'s \<Rightarrow> 'e core_workload \<Rightarrow> 'e rand_env \<Rightarrow> ('s, 'e) client_state" where
  "client_start d wl env =
     \<lparr>sh_db = d, sh_wl = wl, sh_env = env, sh_readings = 0, sh_ops_cnt = (\<lambda>_. 0), sh_ops_time = (\<lambda>_. 0),
      sh_insert_counter = 100 * 10000, sh_tiktok_start = None, sh_tiktoks = 0, sh_iops = 0\<rparr>"

text \<open>The threads \<open>main\<close> starts for one phase, and the sum over their results.\<close>

definition spawn :: "int \<Rightarrow> nat \<Rightarrow> bool \<Rightarrow> client_thread list" where
  "spawn total_ops num_threads loading =
     map (\<lambda>i. new_thread (total_ops sdiv int num_threads) loading (int i)) [0..<num_threads]"

text \<open>A phase after its threads have made \<open>k\<close> steps in some order, and a phase that is over.\<close>

definition phase_after ::
    "('s, 'e) client_context \<Rightarrow> int \<Rightarrow> nat \<Rightarrow> bool \<Rightarrow> ('s, 'e) client_state \<Rightarrow> nat \<Rightarrow> client_thread list
       \<Rightarrow> ('s, 'e) client_state \<Rightarrow> bool" where
  "phase_after cx total_ops num_threads loading s k ths s' \<longleftrightarrow>
     (client_step cx ^^ k) (spawn total_ops num_threads loading, s) (ths, s')"

definition phase_over :: "client_thread list \<Rightarrow> bool" where
  "phase_over ths \<longleftrightarrow> list_all (\<lambda>th. th_state th = Returned) ths"

text \<open>The steps of a phase that makes all its rounds: each thread also starts and returns.\<close>

definition phase_rounds :: "int \<Rightarrow> nat \<Rightarrow> nat" where
  "phase_rounds total_ops num_threads = num_threads * nat (total_ops sdiv int num_threads)"

lemma phase_over_iff: "threads_ok loading ths \<Longrightarrow> phase_over ths \<longleftrightarrow> steps_left ths = 0"
  by (auto simp: phase_over_def steps_left_0 threads_ok_def thread_ok_def list_all_iff)

lemma accounted_Nil [simp]: "accounted [] (op_stats (client_start d wl env))"
  by (simp add: accounted_def op_stats_def client_start_def)

lemma share_bounds:
  assumes "0 \<le> total_ops" "0 < num_threads"
  shows "0 \<le> total_ops sdiv int num_threads" "total_ops sdiv int num_threads \<le> total_ops"
    "total_ops sdiv int num_threads = total_ops div int num_threads"
proof -
  obtain n where n: "total_ops = int n" using assms(1) nonneg_int_cases by blast
  show eq: "total_ops sdiv int num_threads = total_ops div int num_threads"
    using assms by (auto simp: signed_divide_int_def sgn_if)
  show "0 \<le> total_ops sdiv int num_threads" "total_ops sdiv int num_threads \<le> total_ops"
    unfolding eq by (simp_all add: n flip: zdiv_int)
qed

lemma spawn_ok:
  assumes "0 \<le> total_ops" "total_ops \<le> INT32_MAX - 100000"
  shows "threads_ok loading (spawn total_ops num_threads loading)"
    "rounds_made (spawn total_ops num_threads loading) = 0"
    "rounds_left (spawn total_ops num_threads loading) = phase_rounds total_ops num_threads"
    "steps_left (spawn total_ops num_threads loading) = phase_rounds total_ops num_threads + 2 * num_threads"
    "join_threads (spawn total_ops num_threads loading) = 0"
proof -
  have "total_ops sdiv int num_threads \<le> INT32_MAX - 100000" if "0 < num_threads"
    using share_bounds [OF assms(1) that] assms(2) by linarith
  then show "threads_ok loading (spawn total_ops num_threads loading)"
    by (auto simp: threads_ok_def spawn_def list_all_iff thread_ok_def new_thread_def)
  show "rounds_made (spawn total_ops num_threads loading) = 0"
    "rounds_left (spawn total_ops num_threads loading) = phase_rounds total_ops num_threads"
    "steps_left (spawn total_ops num_threads loading) = phase_rounds total_ops num_threads + 2 * num_threads"
    "join_threads (spawn total_ops num_threads loading) = 0"
    by (simp_all add: rounds_made_def rounds_left_def steps_left_def join_threads_def phase_rounds_def spawn_def new_thread_def
        comp_def sum_list_triv)
qed

lemma phase_rounds_le:
  assumes "0 \<le> total_ops"
  shows "int (phase_rounds total_ops num_threads) \<le> total_ops"
proof (cases "num_threads = 0")
  case False
  then have "0 < num_threads" by simp
  note share = share_bounds [OF assms this]
  have "int (phase_rounds total_ops num_threads) = int num_threads * (total_ops div int num_threads)"
    using share by (simp add: phase_rounds_def)
  also have "\<dots> \<le> total_ops" using div_mult_mod_eq [of total_ops "int num_threads"] \<open>0 < num_threads\<close>
    by (metis add_le_same_cancel1 le_add_same_cancel1 mult.commute of_nat_0_less_iff pos_mod_sign add.commute)
  finally show ?thesis .
qed (use assms in \<open>simp add: phase_rounds_def\<close>)

lemma phase_inv_spawn:
  assumes "0 \<le> total_ops" "total_ops \<le> INT32_MAX - 100000" "J 0 0 s"
  shows "phase_inv loading (phase_rounds total_ops num_threads) J (spawn total_ops num_threads loading) s"
  using assms(3) by (simp add: phase_inv_def spawn_ok [OF assms(1,2)])

lemma phase_invD:
  assumes "phase_inv loading N J ths s"
  shows "J (rounds_made ths) (join_threads ths) s" "rounds_made ths + rounds_left ths = N" "threads_ok loading ths"
    "0 \<le> join_threads ths" "join_threads ths \<le> int (rounds_made ths)" "phase_over ths \<longleftrightarrow> steps_left ths = 0"
    "phase_over ths \<Longrightarrow> rounds_made ths = N"
  using assms join_threads_bounds [of loading ths] phase_over_iff [of loading ths] rounds_left_le_steps [of ths]
  by (auto simp: phase_inv_def)

text \<open>A phase that has not begun, and its first step.\<close>

lemma phase_after_0: "phase_after cx total_ops num_threads loading s 0 (spawn total_ops num_threads loading) s"
  by (simp add: phase_after_def)

lemma phase_after_Suc:
  "phase_after cx total_ops num_threads loading s k ths s' \<Longrightarrow> client_step cx (ths, s') (ths', s'') \<Longrightarrow>
   phase_after cx total_ops num_threads loading s (Suc k) ths' s''"
  by (auto simp: phase_after_def)

lemma phase_after_reaches:
  assumes "\<And>k ths s'. phase_after cx total_ops num_threads loading s k ths s' \<Longrightarrow> k < n \<Longrightarrow> \<exists>y. client_step cx (ths, s') y"
  obtains ths s' where "phase_after cx total_ops num_threads loading s n ths s'"
proof -
  have "\<exists>ths s'. phase_after cx total_ops num_threads loading s k ths s'" if "k \<le> n" for k
    using that
  proof (induction k)
    case (Suc k)
    then obtain ths s' where k: "phase_after cx total_ops num_threads loading s k ths s'" by auto
    from assms [OF this] Suc.prems have "\<exists>y. client_step cx (ths, s') y" by auto
    with phase_after_Suc [OF k] show ?case by auto
  qed (use phase_after_0 in blast)
  then show thesis using that by blast
qed

section \<open>Properties\<close>




end
