(* ===== verification/Ycsb_Load.thy ===== *)
theory Ycsb_Load
  imports Ycsb_Threads
begin

text \<open>
  The load phase of the benchmark: \<open>DelegateClient\<close> in loading mode, in any interleaving of the
  threads, on the RocksDB-Cloud database and on the hash table database. Every round writes the
  record of the next key of the sequence.
\<close>

section \<open>Strings without a NUL\<close>

definition c_clean :: "string \<Rightarrow> bool" where
  "c_clean s \<longleftrightarrow> CHR 0x00 \<notin> set s"

lemma c_str_clean [simp]: "c_clean s \<Longrightarrow> c_str s = s"
  by (auto simp: c_clean_def c_str_def takeWhile_eq_all_conv)

lemma c_clean_append [simp]: "c_clean (s @ t) \<longleftrightarrow> c_clean s \<and> c_clean t"
  by (auto simp: c_clean_def)

lemma c_clean_to_string [simp]: "c_clean (to_string n)"
  using to_string_digits [of n] by (auto simp: c_clean_def list_all_iff is_digit_def)

lemma c_clean_names [simp]: "c_clean (field_name i)" "c_clean (BuildKeyName wl k)"
  using c_clean_to_string by (auto simp: field_name_def BuildKeyName_def c_clean_def)

lemma c_clean_value: "value_ok R v \<Longrightarrow> c_clean v"
  by (auto simp: value_ok_def c_clean_def)

section \<open>The key generator during a load\<close>

lemma next_value_key_generator:
  "next_value lib wl env = Inr (v, wl', env') \<Longrightarrow> wl_key_generator wl' = wl_key_generator wl"
  by (auto simp: next_value_def andthen_eq_Inr case_prod_beta)

lemma build_values_loop_key_generator:
  "build_values_loop lib n i kvs wl env = Inr (r, wl', env') \<Longrightarrow> wl_key_generator wl' = wl_key_generator wl"
proof (induction n arbitrary: i kvs wl env)
  case (Suc n)
  then show ?case by (auto simp: andthen_eq_Inr dest!: next_value_key_generator)
qed simp

text \<open>The keys of a load that starts its counter at \<open>start\<close>, in the order they are handed out.\<close>

definition load_key :: "'e core_workload \<Rightarrow> u64 \<Rightarrow> nat \<Rightarrow> string" where
  "load_key wl start i = BuildKeyName wl (start + of_nat i)"

definition load_ready :: "'e random_lib \<Rightarrow> 'e core_workload \<Rightarrow> u64 \<Rightarrow> nat \<Rightarrow> 'e core_workload \<Rightarrow> bool" where
  "load_ready lib wl start k wl' \<longleftrightarrow> workload_inv lib wl' \<and> same_settings wl wl'
     \<and> wl_key_generator wl' = Some (GCounter \<lparr>c_counter = start + of_nat k\<rparr>)"

text \<open>The record a load writes: all fields in order, each with a value of the workload.\<close>

definition loaded_record :: "'e core_workload \<Rightarrow> kvpair list \<Rightarrow> bool" where
  "loaded_record wl kvs \<longleftrightarrow> map fst kvs = map field_name [0..<nat (wl_field_count wl)] \<and> list_all pair_fits kvs \<and> length kvs < 2 ^ 32
     \<and> list_all (\<lambda>kv. c_clean (fst kv) \<and> c_clean (snd kv)) kvs"

lemma load_key_clean [simp]: "c_clean (load_key wl start i)"
  by (simp add: load_key_def)

lemma load_calls:
  assumes "load_ready (cx_lib cx) wl start k (sh_wl s)"
  shows "\<exists>kvs s1 s2. on_wl (NextSequenceKey (cx_lib cx)) s = Inr (load_key wl start k, s1)
    \<and> on_wl (BuildValues (cx_lib cx) []) s1 = Inr (kvs, s2) \<and> loaded_record wl kvs \<and> sh_db s2 = sh_db s
    \<and> load_ready (cx_lib cx) wl start (Suc k) (sh_wl s2) \<and> op_stats s2 = op_stats s"
proof -
  let ?lib = "cx_lib cx"
  have ready: "workload_inv ?lib (sh_wl s)" "same_settings wl (sh_wl s)"
    "wl_key_generator (sh_wl s) = Some (GCounter \<lparr>c_counter = start + of_nat k\<rparr>)"
    using assms by (simp_all add: load_ready_def)
  define wl1 where "wl1 = (sh_wl s)\<lparr>wl_key_generator := Some (GCounter \<lparr>c_counter = start + of_nat (Suc k)\<rparr>)\<rparr>"
  define s1 where "s1 = s\<lparr>sh_wl := wl1, sh_env := sh_env s\<rparr>"
  have key: "NextSequenceKey ?lib (sh_wl s) (sh_env s) = Inr (load_key wl start k, wl1, sh_env s)"
    using ready by (simp add: NextSequenceKey_def call_gen_def Counter_Next_def wl1_def load_key_def BuildKeyName_def
        same_settings_def add.assoc)
  then have 1: "on_wl (NextSequenceKey ?lib) s = Inr (load_key wl start k, s1)" by (simp add: on_wl_def s1_def)
  have wl1: "workload_inv ?lib wl1" "same_settings (sh_wl s) wl1"
    using NextSequenceKey_correct [OF ready(1), of "sh_env s"] key by auto
  obtain vs wl2 env2 where b: "BuildValues ?lib [] wl1 (sh_env s) = Inr (zip (map field_name [0..<nat (wl_field_count wl1)]) vs, wl2, env2)"
    "length vs = nat (wl_field_count wl1)" "workload_inv ?lib wl2" "same_settings wl1 wl2"
    "list_all (value_ok (length_range wl1)) vs"
    using BuildValues_correct [OF wl1(1), of "[]" "sh_env s"] by auto
  let ?kvs = "zip (map field_name [0..<nat (wl_field_count wl1)]) vs"
  have "list_all pair_fits ?kvs \<and> length ?kvs < 2 ^ 32" using BuildValues_fit [OF wl1(1), of "sh_env s"] b(1) by auto
  moreover have "list_all (\<lambda>kv. c_clean (fst kv) \<and> c_clean (snd kv)) ?kvs"
    using b(2,5) by (auto simp: list_all_length dest: c_clean_value)
  ultimately have rcd: "loaded_record wl ?kvs"
    using b(2) ready(2) wl1(2) by (simp add: loaded_record_def same_settings_def)
  have "wl_key_generator wl2 = Some (GCounter \<lparr>c_counter = start + of_nat (Suc k)\<rparr>)"
    using build_values_loop_key_generator b(1) unfolding BuildValues_def by (fastforce simp: wl1_def)
  then have "load_ready ?lib wl start (Suc k) wl2"
    using b(3,4) ready(2) wl1(2) by (auto simp: load_ready_def intro: same_settings_trans)
  with 1 rcd b(1) show ?thesis
    by (intro exI [of _ ?kvs] exI [of _ s1] exI [of _ "s1\<lparr>sh_wl := wl2, sh_env := env2\<rparr>"]) (simp add: on_wl_def s1_def)
qed

section \<open>Rounds of a load\<close>

text \<open>
  A database on which inserting always succeeds and stores the record: \<open>has d\<close> says which records a
  state holds. The laws are those of the databases of the program.
\<close>

locale loadable =
  fixes db :: "'s db_ops" and ok :: "'s \<Rightarrow> bool" and has :: "'s \<Rightarrow> string \<Rightarrow> string \<Rightarrow> kvpair list \<Rightarrow> bool"
    and fresh :: "'s \<Rightarrow> string \<Rightarrow> string \<Rightarrow> bool"
  assumes load_init: "ok d \<Longrightarrow> db_Init db d = Inr d"
    and load_close: "ok d \<Longrightarrow> db_Close db d = Inr d"
    and load_insert: "ok d \<Longrightarrow> c_clean table \<Longrightarrow> c_clean key \<Longrightarrow> fresh d table key \<Longrightarrow> list_all pair_fits kvs \<Longrightarrow>
      length kvs < 2 ^ 32 \<Longrightarrow> distinct (map fst kvs) \<Longrightarrow> list_all (\<lambda>kv. c_clean (fst kv) \<and> c_clean (snd kv)) kvs \<Longrightarrow>
      \<exists>d'. db_Insert db table key kvs d = Inr (kOK, d') \<and> ok d' \<and> has d' table key kvs
        \<and> (\<forall>key' r. key' \<noteq> key \<and> c_clean key' \<and> has d table key' r \<longrightarrow> has d' table key' r)
        \<and> (\<forall>key'. key' \<noteq> key \<and> c_clean key' \<and> fresh d table key' \<longrightarrow> fresh d' table key')"
begin

lemma DoInsert_loads:
  assumes "cx_db cx = db" "ok (sh_db s)" "load_ready (cx_lib cx) wl start k (sh_wl s)" "c_clean (wl_table_name wl)"
    "fresh (sh_db s) (wl_table_name wl) (load_key wl start k)"
  shows "\<exists>kvs s'. DoInsert cx s = Inr (True, s') \<and> ok (sh_db s') \<and> op_stats s' = op_stats s \<and> load_ready (cx_lib cx) wl start (Suc k) (sh_wl s')
    \<and> loaded_record wl kvs \<and> has (sh_db s') (wl_table_name wl) (load_key wl start k) kvs
    \<and> (\<forall>key r. key \<noteq> load_key wl start k \<and> c_clean key \<and> has (sh_db s) (wl_table_name wl) key r
         \<longrightarrow> has (sh_db s') (wl_table_name wl) key r)
    \<and> (\<forall>key. key \<noteq> load_key wl start k \<and> c_clean key \<and> fresh (sh_db s) (wl_table_name wl) key
         \<longrightarrow> fresh (sh_db s') (wl_table_name wl) key)"
proof -
  obtain kvs s1 s2 where c: "on_wl (NextSequenceKey (cx_lib cx)) s = Inr (load_key wl start k, s1)"
    "on_wl (BuildValues (cx_lib cx) []) s1 = Inr (kvs, s2)" "loaded_record wl kvs" "sh_db s2 = sh_db s"
    "load_ready (cx_lib cx) wl start (Suc k) (sh_wl s2)" "op_stats s2 = op_stats s"
    using load_calls [OF assms(3)] by blast
  have fit: "list_all pair_fits kvs" "length kvs < 2 ^ 32" "distinct (map fst kvs)"
    "list_all (\<lambda>kv. c_clean (fst kv) \<and> c_clean (snd kv)) kvs"
    using c(3) by (auto simp: loaded_record_def distinct_map inj_on_def)
  have table: "NextTable (sh_wl s2) = wl_table_name wl"
    using c(5) by (simp add: NextTable_def load_ready_def same_settings_def)
  obtain d where d: "db_Insert db (wl_table_name wl) (load_key wl start k) kvs (sh_db s) = Inr (kOK, d)" "ok d"
    "has d (wl_table_name wl) (load_key wl start k) kvs"
    "\<forall>key r. key \<noteq> load_key wl start k \<and> c_clean key \<and> has (sh_db s) (wl_table_name wl) key r \<longrightarrow> has d (wl_table_name wl) key r"
    "\<forall>key. key \<noteq> load_key wl start k \<and> c_clean key \<and> fresh (sh_db s) (wl_table_name wl) key \<longrightarrow> fresh d (wl_table_name wl) key"
    using load_insert [OF assms(2,4) load_key_clean assms(5) fit] by blast
  have "DoInsert cx s = Inr (True, s2\<lparr>sh_db := d\<rparr>)"
    using c(1,2,4) d(1) assms(1) table by (simp add: DoInsert_def on_db_def)
  with d c(3,5,6) show ?thesis by (intro exI [of _ kvs] exI [of _ "s2\<lparr>sh_db := d\<rparr>"]) simp
qed

end

text \<open>After \<open>k\<close> of \<open>N\<close> rounds: the first \<open>k\<close> keys have their records and the others are free.\<close>

definition records_loaded ::
    "'s db_ops \<Rightarrow> ('s \<Rightarrow> bool) \<Rightarrow> ('s \<Rightarrow> string \<Rightarrow> string \<Rightarrow> kvpair list \<Rightarrow> bool) \<Rightarrow> ('s \<Rightarrow> string \<Rightarrow> string \<Rightarrow> bool)
       \<Rightarrow> ('s, 'e) client_context \<Rightarrow> 'e core_workload \<Rightarrow> u64 \<Rightarrow> (operation \<Rightarrow> u64) \<times> (operation \<Rightarrow> u64)
       \<Rightarrow> nat \<Rightarrow> nat \<Rightarrow> int \<Rightarrow> ('s, 'e) client_state \<Rightarrow> bool" where
  "records_loaded db ok has fresh cx wl start st N k oks s \<longleftrightarrow> op_stats s = st \<and>
     cx_db cx = db \<and> c_clean (wl_table_name wl) \<and> (inj_on (load_key wl start) {..<N} \<or> (\<forall>d table key. fresh d table key))
     \<and> oks = int k \<and> ok (sh_db s) \<and> load_ready (cx_lib cx) wl start k (sh_wl s)
     \<and> (\<forall>i<k. \<exists>kvs. loaded_record wl kvs \<and> has (sh_db s) (wl_table_name wl) (load_key wl start i) kvs)
     \<and> (\<forall>i. k \<le> i \<and> i < N \<longrightarrow> fresh (sh_db s) (wl_table_name wl) (load_key wl start i))"

lemma thread_start_nothing:
  assumes "db_Init (cx_db cx) (sh_db s) = Inr (sh_db s)"
  shows "\<exists>s'. thread_start cx s = Inr s' \<and> sh_db s' = sh_db s \<and> sh_wl s' = sh_wl s \<and> op_stats s' = op_stats s"
  by (cases "sh_tiktok_start s") (simp_all add: op_stats_def thread_start_def Let_def assms get_now_micros_def case_prod_beta)

context loadable
begin

lemma load_round:
  assumes "records_loaded db ok has fresh cx wl start st N k oks s" "k < N" "thread_ok th" "th_loading th" "th_i th < th_num_ops th"
  shows "\<exists>th' s'. client_round cx th s = Inr (th', s') \<and> attempted th th'
    \<and> records_loaded db ok has fresh cx wl start st N (Suc k) (oks + (th_oks th' - th_oks th)) s'"
proof -
  let ?t = "wl_table_name wl"
  have J: "cx_db cx = db" "c_clean ?t" "inj_on (load_key wl start) {..<N} \<or> (\<forall>d table key. fresh d table key)"
    "oks = int k" "ok (sh_db s)" "load_ready (cx_lib cx) wl start k (sh_wl s)" "op_stats s = st"
    "\<And>i. i < k \<Longrightarrow> \<exists>kvs. loaded_record wl kvs \<and> has (sh_db s) ?t (load_key wl start i) kvs"
    "\<And>i. k \<le> i \<Longrightarrow> i < N \<Longrightarrow> fresh (sh_db s) ?t (load_key wl start i)"
    using assms(1) unfolding records_loaded_def by blast+
  obtain kvs s' where ins: "op_stats s' = op_stats s" "DoInsert cx s = Inr (True, s')" "ok (sh_db s')" "load_ready (cx_lib cx) wl start (Suc k) (sh_wl s')"
    "loaded_record wl kvs" "has (sh_db s') ?t (load_key wl start k) kvs"
    "\<And>key r. key \<noteq> load_key wl start k \<Longrightarrow> c_clean key \<Longrightarrow> has (sh_db s) ?t key r \<Longrightarrow> has (sh_db s') ?t key r"
    "\<And>key. key \<noteq> load_key wl start k \<Longrightarrow> c_clean key \<Longrightarrow> fresh (sh_db s) ?t key \<Longrightarrow> fresh (sh_db s') ?t key"
    using DoInsert_loads [OF J(1,5,6,2) J(9) [OF le_refl assms(2)]] by blast
  have "\<exists>kvs. loaded_record wl kvs \<and> has (sh_db s') ?t (load_key wl start i) kvs" if "i < Suc k" for i
  proof (cases "load_key wl start i = load_key wl start k")
    case False
    then have "i < k" using that by (cases "i = k") auto
    from J(8) [OF this] show ?thesis using ins(7) [OF False load_key_clean] by blast
  qed (use ins(5,6) in auto)
  moreover have "fresh (sh_db s') ?t (load_key wl start i)" if i: "Suc k \<le> i" "i < N" for i
  proof (cases "\<forall>d table key. fresh d table key")
    case False
    with J(3) have "load_key wl start i \<noteq> load_key wl start k" using i assms(2) by (auto dest: inj_onD)
    from ins(8) [OF this load_key_clean J(9)] i show ?thesis by simp
  qed simp
  ultimately have loaded: "records_loaded db ok has fresh cx wl start st N (Suc k) (oks + 1) s'"
    unfolding records_loaded_def using J(1-4,7) ins(1,3,4) by simp
  obtain m where "progress th = Inr (th\<lparr>th_next_report := m\<rparr>)" using progress_ok [OF assms(3,5)] by blast
  with ins(2) assms(4) loaded show ?thesis
    by (simp add: client_round_def attempted_def of_bool_int_def)
qed

end

sublocale loadable \<subseteq> load: client_phase cx True N "records_loaded db ok has fresh cx wl start st N" for cx N wl start st
proof
  fix k oks s
  assume J: "records_loaded db ok has fresh cx wl start st N k oks s"
  then have d: "cx_db cx = db" "ok (sh_db s)" by (simp_all add: records_loaded_def)
  obtain s' where s': "thread_start cx s = Inr s'" "sh_db s' = sh_db s" "sh_wl s' = sh_wl s" "op_stats s' = op_stats s"
    using thread_start_nothing [of cx s] load_init [OF d(2)] d(1) by auto
  then show "\<exists>s'. thread_start cx s = Inr s' \<and> records_loaded db ok has fresh cx wl start st N k oks s'"
    using J by (intro exI [of _ s']) (simp add: records_loaded_def)
  show "\<exists>s'. thread_finish cx s = Inr s' \<and> records_loaded db ok has fresh cx wl start st N k oks s'"
    using J d load_close [OF d(2)] by (intro exI [of _ s]) (simp add: thread_finish_def)
qed (use load_round in simp)

section \<open>The databases as instances\<close>

text \<open>A working store with nothing but records, in a database that is otherwise \<open>d0\<close>.\<close>

definition rocks_store_ok ::
    "'s kv_lib \<Rightarrow> ('s \<Rightarrow> string \<Rightarrow> byte list option) \<Rightarrow> 's rocksdb_cloud \<Rightarrow> 's rocksdb_cloud \<Rightarrow> bool" where
  "rocks_store_ok lib view d0 d \<longleftrightarrow> kv_ok lib view \<and> store_ok view (rc_db d) \<and> d = d0\<lparr>rc_db := rc_db d\<rparr>"

interpretation rocks_load: loadable "RocksDBCloud lib" "rocks_store_ok lib view d0"
    "\<lambda>d table key kvs. record_at view (rc_db d) key = Some kvs" "\<lambda>_ _ _. True" for lib view d0
proof unfold_locales
  fix d :: "'a rocksdb_cloud"
  show "db_Init (RocksDBCloud lib) d = Inr d" "db_Close (RocksDBCloud lib) d = Inr d" by (simp_all add: RocksDBCloud_def)
next
  fix d :: "'a rocksdb_cloud" and table key kvs
  assume ok: "rocks_store_ok lib view d0 d" and "list_all pair_fits kvs" "length kvs < 2 ^ 32"
  then obtain d' where "RC_Insert lib table key kvs d = Inr (kOK, d\<lparr>rc_db := d'\<rparr>)" "store_ok view d'"
    "record_at view d' = (record_at view (rc_db d))(key \<mapsto> kvs)" "kv_ok lib view"
    using RC_Insert_correct [of lib view d kvs table key] unfolding rocks_store_ok_def by blast
  moreover have "d\<lparr>rc_db := d'\<rparr> = d0\<lparr>rc_db := d'\<rparr>" using ok by (cases d; cases d0) (simp add: rocks_store_ok_def)
  ultimately show "\<exists>d'. db_Insert (RocksDBCloud lib) table key kvs d = Inr (kOK, d') \<and> rocks_store_ok lib view d0 d'
      \<and> record_at view (rc_db d') key = Some kvs
      \<and> (\<forall>key' r. key' \<noteq> key \<and> c_clean key' \<and> record_at view (rc_db d) key' = Some r \<longrightarrow> record_at view (rc_db d') key' = Some r)
      \<and> (\<forall>key'. key' \<noteq> key \<and> c_clean key' \<and> True \<longrightarrow> True)"
    by (intro exI [of _ "d\<lparr>rc_db := d'\<rparr>"]) (simp add: RocksDBCloud_def rocks_store_ok_def)
qed

lemma c_pairs_clean: "list_all (\<lambda>kv. c_clean (fst kv) \<and> c_clean (snd kv)) kvs \<Longrightarrow> c_pairs kvs = kvs"
  by (induction kvs) (auto simp: c_pairs_def)

lemma key_index_clean:
  "c_clean table \<Longrightarrow> c_clean key \<Longrightarrow> c_clean key' \<Longrightarrow> key_index table key = key_index table key' \<longleftrightarrow> key = key'"
  by (simp add: key_index_def)

interpretation hashtable_load: loadable "HashtableDB lib" "\<lambda>d. hashtable_lib_ok lib \<and> ht_inv lib d"
    "\<lambda>d table key kvs. ht_abs lib d (key_index table key) = Some (map_of kvs)"
    "\<lambda>d table key. ht_abs lib d (key_index table key) = None" for lib
proof unfold_locales
  fix d
  show "db_Init (HashtableDB lib) d = Inr d" "db_Close (HashtableDB lib) d = Inr d" by (simp_all add: HashtableDB_def)
next
  fix d table key and kvs :: "kvpair list"
  let ?k = "key_index table key"
  assume a: "hashtable_lib_ok lib \<and> ht_inv lib d" "c_clean table" "c_clean key" "ht_abs lib d ?k = None"
    "distinct (map fst kvs)" "list_all (\<lambda>kv. c_clean (fst kv) \<and> c_clean (snd kv)) kvs"
  from HT_Insert_correct [of lib d table key kvs] a(1,4) c_pairs_clean [OF a(6)] obtain c r d' where
    ins: "insert_fields Map.empty kvs = (c, r)" "HT_Insert lib table key kvs d = Inr (c, d')"
    "ht_inv lib d'" "ht_abs lib d' = (ht_abs lib d)(?k \<mapsto> r)" by auto
  have "c = kOK" using insert_fields_code [of Map.empty kvs] ins(1) a(5) by simp
  moreover have "r = map_of kvs" using insert_fields_map [of Map.empty kvs] ins(1) \<open>c = kOK\<close> by simp
  ultimately show "\<exists>d'. db_Insert (HashtableDB lib) table key kvs d = Inr (kOK, d') \<and> (hashtable_lib_ok lib \<and> ht_inv lib d')
      \<and> ht_abs lib d' ?k = Some (map_of kvs)
      \<and> (\<forall>key' r. key' \<noteq> key \<and> c_clean key' \<and> ht_abs lib d (key_index table key') = Some (map_of r)
           \<longrightarrow> ht_abs lib d' (key_index table key') = Some (map_of r))
      \<and> (\<forall>key'. key' \<noteq> key \<and> c_clean key' \<and> ht_abs lib d (key_index table key') = None
           \<longrightarrow> ht_abs lib d' (key_index table key') = None)"
    using ins(2-4) a(1-3) by (intro exI [of _ d']) (auto simp: HashtableDB_def key_index_clean)
qed

section \<open>Properties\<close>

lemma load_ready_start:
  assumes "workload_inv lib wl" "wl_key_generator wl = Some (GCounter (CounterGenerator start))"
  shows "load_ready lib wl start 0 wl"
  using assms by (simp add: load_ready_def CounterGenerator_def)

lemma load_key_inj:
  assumes "wl_ordered_inserts wl" "n \<le> 2 ^ 64"
  shows "inj_on (load_key wl start) {..<n}"
  using assms by (auto simp: inj_on_def load_key_def BuildKeyName_inject of_nat_u64_inject)

text \<open>C3: The load phase on the RocksDB-Cloud database, with any number of threads in any interleaving:
  no step can stop the program, every round succeeds, and after any number of steps the first keys of
  the sequence, one per round made, have a record with all fields of the workload in order. The phase
  makes \<open>t * (n div t)\<close> rounds for \<open>n\<close> records over \<open>t\<close> threads, so it leaves out the remainder of the
  division.\<close>

theorem load_phase_rocks:
  assumes "kv_ok lib view" "store_ok view (rc_db d)" "workload_inv rlib wl"
    "wl_key_generator wl = Some (GCounter (CounterGenerator start))" "c_clean (wl_table_name wl)"
    "0 \<le> total_ops" "total_ops \<le> INT32_MAX - 100000"
    "cx = \<lparr>cx_db = RocksDBCloud lib, cx_lib = rlib, cx_clock = clock\<rparr>"
    "phase_after cx total_ops num_threads True (client_start d wl env) k ths s"
  shows "k + steps_left ths = phase_rounds total_ops num_threads + 2 * num_threads \<and> join_threads ths = int (rounds_made ths)
    \<and> (phase_over ths \<longleftrightarrow> steps_left ths = 0) \<and> (phase_over ths \<longrightarrow> rounds_made ths = phase_rounds total_ops num_threads)
    \<and> (phase_over ths \<or> (\<exists>y. client_step cx (ths, s) y))
    \<and> (\<forall>i<rounds_made ths. \<exists>kvs. loaded_record wl kvs \<and> record_at view (rc_db (sh_db s)) (load_key wl start i) = Some kvs)"
proof -
  let ?N = "phase_rounds total_ops num_threads"
  let ?J = "records_loaded (RocksDBCloud lib) (rocks_store_ok lib view d)
    (\<lambda>d table key kvs. record_at view (rc_db d) key = Some kvs) (\<lambda>_ _ _. True) cx wl start (op_stats (client_start d wl env)) ?N"
  have "?J 0 0 (client_start d wl env)"
    using assms(1-5) load_ready_start [OF assms(3,4)] by (simp add: records_loaded_def rocks_store_ok_def assms(8) client_start_def)
  note J0 = phase_inv_spawn [where J = ?J, OF assms(6,7) this, where loading = True and num_threads = num_threads]
  have after: "phase_inv True ?N ?J ths s" "k + steps_left ths = ?N + 2 * num_threads"
    using rocks_load.load.phase_steps [OF assms(9) [unfolded phase_after_def] J0] spawn_ok(4) [OF assms(6,7)] by simp_all
  have "phase_over ths \<or> (\<exists>y. client_step cx (ths, s) y)"
    using rocks_load.load.phase_progress [OF after(1)] phase_invD(6) [OF after(1)] by blast
  then show ?thesis
    using after(2) phase_invD(6,7) [OF after(1)] phase_invD(1) [OF after(1)] by (simp add: records_loaded_def)
qed

theorem load_phase_rocks_witness:
  "\<exists>(d :: (string \<Rightarrow> byte list option) rocksdb_cloud) (wl :: unit core_workload) env cx ths s.
     phase_after cx 5 2 True (client_start d wl env) 8 ths s \<and> phase_over ths \<and> join_threads ths = 4
     \<and> (\<exists>kvs. record_at (\<lambda>m. m) (rc_db (sh_db s)) ''user0'' = Some kvs \<and> map fst kvs = map field_name [0..<2])"
proof -
  obtain d where d: "RocksDBCloud_new (\<lambda>_ _. True) True True 0 (Inr (Map.empty :: string \<Rightarrow> byte list option)) = Inr d"
    using RocksDBCloud_new_succeeds [of 0 "Map.empty"] by blast
  obtain wl :: "unit core_workload" and env :: "unit rand_env" where
    wl: "workload_inv least_lib wl" "wl_key_generator wl = Some (GCounter (CounterGenerator 0))" "wl_field_count wl = 2"
      "wl_ordered_inserts wl" "c_clean (wl_table_name wl)"
    by (rule small_workload) (auto simp: c_clean_def)
  define cx where "cx = \<lparr>cx_db = RocksDBCloud map_store, cx_lib = least_lib, cx_clock = (\<lambda>k. (0, int k))\<rparr>"
  have store: "store_ok (\<lambda>m. m) (rc_db d)" using RocksDBCloud_new_latencies(2) [OF d] by (simp add: store_ok_def)
  note load = load_phase_rocks [OF map_store_ok store wl(1,2,5), of 5, OF _ _ cx_def, where num_threads = 2 and env = env]
  have rounds: "phase_rounds 5 2 = 4" by (simp add: phase_rounds_def signed_divide_int_def)
  obtain ths s where step: "phase_after cx 5 2 True (client_start d wl env) 8 ths s"
  proof (rule phase_after_reaches [of cx 5 2 True "client_start d wl env" 8])
    fix k ths s
    assume "phase_after cx 5 2 True (client_start d wl env) k ths s" "k < 8"
    from load [OF _ _ this(1)] this(2) rounds show "\<exists>y. client_step cx (ths, s) y" by auto
  qed
  have key: "load_key wl 0 0 = ''user0''" using wl(4) by (simp add: load_key_def BuildKeyName_def to_string_small)
  from load [OF _ _ step] rounds have over: "phase_over ths" "join_threads ths = 4" "rounds_made ths = 4" by auto
  with load [OF _ _ step] key obtain kvs where "loaded_record wl kvs" "record_at (\<lambda>m. m) (rc_db (sh_db s)) ''user0'' = Some kvs"
    by (auto dest: spec [of _ 0])
  then show ?thesis using step over wl(3) by (auto simp: loaded_record_def intro!: exI)
qed


lemma empty_hashtable_abs: "ht_abs alist_lib empty_hashtable_db = Map.empty"
  by (auto simp: ht_abs_def alist_lib_def empty_hashtable_db_def alist_hashtable_def)


end
