(* ===== verification/Ycsb_Main.thy ===== *)
theory Ycsb_Main
  imports Ycsb_Load
begin

text \<open>
  The main program (\<open>ycsbc.cc\<close>, \<open>main\<close>): the choice of the database (\<open>db/db_factory.cc\<close>), the
  settings, the load and the run phase with their reports, and what follows them. The order in which the
  threads of a phase make their steps is not determined, so the phases are relations.
\<close>

section \<open>Settings\<close>

datatype db_choice =
    Choose_Basic
  | Choose_RocksDBCloud string

text \<open>\<open>None\<close> is the null pointer.\<close>

definition CreateDB :: "properties \<Rightarrow> run_stop + db_choice option" where
  "CreateDB props =
     andthen (or_throw (property_at props ''dbname'')) (\<lambda>dbname.
       if dbname = ''basic'' then Inr (Some Choose_Basic)
       else if dbname = ''rocksdb'' then Inr None
       else if dbname = ''rocksdb-cloud'' then
         Inr (Some (Choose_RocksDBCloud (c_str (GetProperty props ''dbpath'' ''/tmp/test-rocksdb''))))
       else Inr None)"

record main_settings =
  ms_load :: bool
  ms_run :: bool
  ms_num_threads :: int
  ms_wait_for_balance :: bool

definition read_main_settings :: "properties \<Rightarrow> run_stop + main_settings" where
  "read_main_settings props =
     andthen (or_throw (StrToBool (GetProperty props ''load'' ''false''))) (\<lambda>load.
     andthen (or_throw (StrToBool (GetProperty props ''run'' ''false''))) (\<lambda>run.
     andthen (or_throw (c_stoi (GetProperty props ''threadcount'' ''1''))) (\<lambda>num_threads.
     andthen (or_throw (property_at props ''dbwaitforbalance'')) (\<lambda>wait.
     andthen (or_throw (StrToBool wait)) (\<lambda>wait_for_balance.
       Inr \<lparr>ms_load = load, ms_run = run, ms_num_threads = num_threads, ms_wait_for_balance = wait_for_balance\<rparr>)))))"

text \<open>What \<open>PrintInfo\<close> writes.\<close>

definition PrintInfo :: "properties \<Rightarrow> run_stop + string" where
  "PrintInfo props =
     andthen (or_throw (property_at props ''dbname'')) (\<lambda>dbname.
     andthen (or_throw (property_at props ''dbpath'')) (\<lambda>dbpath.
       Inr (''---- dbname:'' @ c_str dbname @ ''  dbpath:'' @ c_str dbpath @ '' ----'' @ newline
            @ c_str (DebugString props) @ ''----------------------------------------'' @ newline)))"

text \<open>From the command line to the settings; the process ends when the database is unknown.\<close>

definition main_start ::
    "(string \<Rightarrow> string option) \<Rightarrow> string list \<Rightarrow> cmd_exit + (run_stop + properties \<times> db_choice \<times> main_settings \<times> string)" where
  "main_start files argv =
     (case ParseCommandLine files argv (default_properties []) of
        Inl e \<Rightarrow> Inl e
      | Inr (file_name, props) \<Rightarrow>
          Inr (andthen (CreateDB props) (\<lambda>db.
               andthen (or_stop Stop_Exit db) (\<lambda>choice.
               andthen (read_main_settings props) (\<lambda>ms.
               andthen (PrintInfo props) (\<lambda>info.
                 Inr (props, choice, ms, info)))))))"

section \<open>Phases\<close>

text \<open>
  The threads of a phase run to the end, or one of them stops the program, or the assertion on the number
  of futures fails because the number of threads is negative.
\<close>

inductive threads_run ::
    "('s, 'e) client_context \<Rightarrow> int \<Rightarrow> int \<Rightarrow> bool \<Rightarrow> ('s, 'e) client_state \<Rightarrow> run_stop + int \<times> ('s, 'e) client_state \<Rightarrow> bool"
  for cx total_ops num_threads loading s where
  all_return: "0 \<le> num_threads \<Longrightarrow> (client_step cx)\<^sup>*\<^sup>* (spawn total_ops (nat num_threads) loading, s) (ths, s') \<Longrightarrow>
    phase_over ths \<Longrightarrow> threads_run cx total_ops num_threads loading s (Inr (join_threads ths, s'))"
| one_stops: "0 \<le> num_threads \<Longrightarrow> (client_step cx)\<^sup>*\<^sup>* (spawn total_ops (nat num_threads) loading, s) (ths, s') \<Longrightarrow>
    client_stop cx (ths, s') e \<Longrightarrow> threads_run cx total_ops num_threads loading s (Inl e)"
| no_futures: "num_threads < 0 \<Longrightarrow> threads_run cx total_ops num_threads loading s (Inl Stop_Assert)"

text \<open>
  The start of a phase: the workload, the number of operations and the time. The load phase takes the
  time before it reads the number of records, the run phase after.
\<close>

definition phase_setup ::
    "('s, 'e) client_context \<Rightarrow> properties \<Rightarrow> bool \<Rightarrow> ('s, 'e) client_state \<Rightarrow> run_stop + int \<times> u64 \<times> ('s, 'e) client_state" where
  "phase_setup cx props loading s =
     andthen (Workload_Init (cx_lib cx) props CoreWorkload (sh_env s)) (\<lambda>(wl, env).
     andthen (or_throw (property_at props (if loading then RECORD_COUNT_PROPERTY else OPERATION_COUNT_PROPERTY))) (\<lambda>count.
     andthen (or_throw (c_stoi count)) (\<lambda>total_ops.
       case get_now_micros cx (s\<lparr>sh_wl := wl, sh_env := env\<rparr>) of (start, s') \<Rightarrow> Inr (total_ops, start, s'))))"

text \<open>The numbers of a report: how many operations succeeded, and in how many microseconds.\<close>

inductive benchmark_phase ::
    "('s, 'e) client_context \<Rightarrow> properties \<Rightarrow> int \<Rightarrow> bool \<Rightarrow> ('s, 'e) client_state
       \<Rightarrow> run_stop + (int \<times> u64) \<times> ('s, 'e) client_state \<Rightarrow> bool"
  for cx props num_threads loading s where
  setup_stops: "phase_setup cx props loading s = Inl e \<Longrightarrow> benchmark_phase cx props num_threads loading s (Inl e)"
| threads_stop: "phase_setup cx props loading s = Inr (total_ops, start, s1) \<Longrightarrow>
    threads_run cx total_ops num_threads loading s1 (Inl e) \<Longrightarrow> benchmark_phase cx props num_threads loading s (Inl e)"
| phase_reports: "phase_setup cx props loading s = Inr (total_ops, start, s1) \<Longrightarrow>
    threads_run cx total_ops num_threads loading s1 (Inr (oks, s2)) \<Longrightarrow> get_now_micros cx s2 = (now, s3) \<Longrightarrow>
    benchmark_phase cx props num_threads loading s (Inr ((oks, now - start), s3))"

text \<open>The phases in the order of the program; a report for each.\<close>

inductive phases_run ::
    "('s, 'e) client_context \<Rightarrow> properties \<Rightarrow> int \<Rightarrow> bool list \<Rightarrow> ('s, 'e) client_state
       \<Rightarrow> run_stop + (int \<times> u64) list \<times> ('s, 'e) client_state \<Rightarrow> bool"
  for cx props num_threads where
  no_phase: "phases_run cx props num_threads [] s (Inr ([], s))"
| first_stops: "benchmark_phase cx props num_threads b s (Inl e) \<Longrightarrow> phases_run cx props num_threads (b # bs) s (Inl e)"
| first_reports: "benchmark_phase cx props num_threads b s (Inr (r, s1)) \<Longrightarrow> phases_run cx props num_threads bs s1 (Inr (rs, s2)) \<Longrightarrow>
    phases_run cx props num_threads (b # bs) s (Inr (r # rs, s2))"
| later_stops: "benchmark_phase cx props num_threads b s (Inr (r, s1)) \<Longrightarrow> phases_run cx props num_threads bs s1 (Inl e) \<Longrightarrow>
    phases_run cx props num_threads (b # bs) s (Inl e)"

definition phases_of :: "main_settings \<Rightarrow> bool list" where
  "phases_of ms = (if ms_load ms then [True] else []) @ (if ms_run ms then [False] else [])"

section \<open>After the phases\<close>

text \<open>
  The statistics are always printed, again after the wait. The database is asked every ten seconds
  whether it is balanced and nothing changes it meanwhile. After a load the program waits for ever.
\<close>

definition wait_for_balance :: "('s, 'e) client_context \<Rightarrow> ('s, 'e) client_state \<Rightarrow> run_stop + ('s, 'e) client_state" where
  "wait_for_balance cx s =
     (if db_HaveBalancedDistribution (cx_db cx) (sh_db s)
      then andthen (db_PrintStats (cx_db cx) (sh_db s)) (\<lambda>d. Inr (s\<lparr>sh_db := d\<rparr>))
      else Inl Stop_Diverges)"

definition main_finish :: "('s, 'e) client_context \<Rightarrow> main_settings \<Rightarrow> ('s, 'e) client_state \<Rightarrow> run_stop + ('s, 'e) client_state" where
  "main_finish cx ms s =
     andthen (db_PrintStats (cx_db cx) (sh_db s)) (\<lambda>d.
     andthen (if ms_wait_for_balance ms then wait_for_balance cx (s\<lparr>sh_db := d\<rparr>) else Inr (s\<lparr>sh_db := d\<rparr>)) (\<lambda>s'.
       if ms_load ms then Inl Stop_Diverges else Inr s'))"

text \<open>The lines of the run report by kind: only for kinds with operations, in a fixed order.\<close>

definition operation_report :: "('s, 'e) client_state \<Rightarrow> (operation \<times> u64 \<times> u64) list" where
  "operation_report s =
     map (\<lambda>op. (op, sh_ops_cnt s op, sh_ops_time s op))
       (filter (\<lambda>op. sh_ops_cnt s op \<noteq> 0) [INSERT, READ, UPDATE, SCAN, READMODIFYWRITE])"

section \<open>The contract of a phase and its outcome\<close>

context client_phase
begin

lemma phase_outcome:
  assumes "phase_inv loading N J (spawn total_ops (nat num_threads) loading) s" "0 \<le> num_threads"
  shows "\<exists>oks s'. threads_run cx total_ops num_threads loading s (Inr (oks, s'))"
    "threads_run cx total_ops num_threads loading s r \<Longrightarrow>
       \<exists>oks s'. r = Inr (oks, s') \<and> J N oks s' \<and> 0 \<le> oks \<and> oks \<le> int N"
proof -
  have reach: "phase_inv loading N J ths s'"
    if "(client_step cx)\<^sup>*\<^sup>* (spawn total_ops (nat num_threads) loading, s) (ths, s')" for ths s'
    using that phase_steps [OF _ assms(1)] by (metis rtranclp_imp_relpowp)
  obtain ths s' where end_state: "(client_step cx ^^ steps_left (spawn total_ops (nat num_threads) loading))
      (spawn total_ops (nat num_threads) loading, s) (ths, s')" "steps_left ths = 0"
    using phase_completes [OF assms(1)] by blast
  then have "phase_over ths" using phase_invD(6) [OF reach] by (metis relpowp_imp_rtranclp)
  with end_state(1) assms(2) show "\<exists>oks s'. threads_run cx total_ops num_threads loading s (Inr (oks, s'))"
    by (metis all_return relpowp_imp_rtranclp)
  assume "threads_run cx total_ops num_threads loading s r"
  then show "\<exists>oks s'. r = Inr (oks, s') \<and> J N oks s' \<and> 0 \<le> oks \<and> oks \<le> int N"
  proof (cases rule: threads_run.cases)
    case (all_return ths s')
    note inv = phase_invD [OF reach [OF all_return(3)]]
    show ?thesis using inv(1,4,5,7) all_return(1,4) by auto
  next
    case (one_stops ths s' e)
    then show ?thesis using phase_never_stops [OF reach] by blast
  next
    case no_futures
    then show ?thesis using assms(2) by simp
  qed
qed

end

section \<open>A database in which every known key has a record\<close>

definition rocks_found ::
    "'s kv_lib \<Rightarrow> ('s \<Rightarrow> string \<Rightarrow> byte list option) \<Rightarrow> (string \<Rightarrow> bool) \<Rightarrow> u32 \<Rightarrow> nat \<Rightarrow> 's rocksdb_cloud \<Rightarrow> bool" where
  "rocks_found lib view K c n d \<longleftrightarrow> rocks_inv lib n d \<and> kv_ok lib view \<and> store_ok view (rc_db d)
     \<and> (\<forall>key. K key \<longrightarrow> record_at view (rc_db d) key \<noteq> None) \<and> rc_noResult d = c"

lemma RecordTime_frame: "RC_RecordTime op t s = Inr s' \<Longrightarrow> rc_db s' = rc_db s \<and> rc_noResult s' = rc_noResult s"
  by (auto simp: RC_RecordTime_def Let_def andthen_eq_Inr split: if_splits)

lemma hiccup_frame: "RC_latency_hiccup iops s = Inr s' \<Longrightarrow> rc_db s' = rc_db s \<and> rc_noResult s' = rc_noResult s"
  by (auto simp: RC_latency_hiccup_def Let_def andthen_eq_Inr)

lemma rocks_found_insert:
  assumes "rocks_found lib view K c n s" "length kvs < 2 ^ 32" "list_all pair_fits kvs"
  shows "\<exists>s'. RC_Insert lib table key kvs s = Inr (kOK, s') \<and> rocks_found lib view K c n s'"
proof -
  have s: "rocks_inv lib n s" "kv_ok lib view" "store_ok view (rc_db s)" using assms(1) by (simp_all add: rocks_found_def)
  obtain d where d: "RC_Insert lib table key kvs s = Inr (kOK, s\<lparr>rc_db := d\<rparr>)" "store_ok view d"
    "record_at view d = (record_at view (rc_db s))(key \<mapsto> kvs)"
    using RC_Insert_correct [OF s(2,3) assms(2,3)] by blast
  moreover have "rocks_inv lib n (s\<lparr>rc_db := d\<rparr>)" using RC_Insert_inv [OF s(1) assms(2,3), of table key] d(1) by auto
  ultimately show ?thesis using assms(1) by (auto simp: rocks_found_def)
qed

interpretation rocks_found: timed_database "RocksDBCloud lib" "rocks_found lib view K c" K rocks_timed for lib view K c
proof unfold_locales
  fix key n s table flds result
  assume "K key" and s: "rocks_found lib view K c n s"
  then obtain kvs where "record_at view (rc_db s) key = Some kvs" by (auto simp: rocks_found_def)
  then have "RC_Read lib table key flds result s = Inr (kOK, result @ kvs, s)"
    using RC_Read_correct [of lib view s] s by (simp add: rocks_found_def)
  with s show "\<exists>c' r s'. db_Read (RocksDBCloud lib) table key flds result s = Inr (c', r, s') \<and> 0 \<le> c'
      \<and> rocks_found lib view K c n s'" by (simp add: RocksDBCloud_def kOK_def)
next
  fix n s table key kvs
  assume "rocks_found lib view K c n s" "length kvs < 2 ^ 32" "list_all pair_fits kvs"
  from rocks_found_insert [OF this, of table key]
  show "\<exists>c' s'. db_Update (RocksDBCloud lib) table key kvs s = Inr (c', s') \<and> 0 \<le> c' \<and> rocks_found lib view K c n s'"
    "\<exists>c' s'. db_Insert (RocksDBCloud lib) table key kvs s = Inr (c', s') \<and> 0 \<le> c' \<and> rocks_found lib view K c n s'"
    by (auto simp: RocksDBCloud_def RC_Update_def kOK_def)
next
  fix n s op t
  assume s: "rocks_found lib view K c (Suc n) s"
  obtain s' where "db_RecordTime (RocksDBCloud lib) op t s = Inr s'" "rocks_inv lib n s'"
    using rocks_db.record_time [of lib n s op t] s by (auto simp: rocks_found_def)
  with s RecordTime_frame [of op t s s'] show "\<exists>s'. db_RecordTime (RocksDBCloud lib) op t s = Inr s' \<and> rocks_found lib view K c n s'"
    by (auto simp: rocks_found_def RocksDBCloud_def)
next
  fix n s iops
  assume s: "rocks_found lib view K c n s"
  obtain s' where "db_latency_hiccup (RocksDBCloud lib) iops s = Inr s'" "rocks_inv lib n s'"
    using rocks_db.hiccup [of lib n s iops] s by (auto simp: rocks_found_def)
  with s hiccup_frame [of iops s s'] show "\<exists>s'. db_latency_hiccup (RocksDBCloud lib) iops s = Inr s' \<and> rocks_found lib view K c n s'"
    by (auto simp: rocks_found_def RocksDBCloud_def)
next
  fix L s n op t s'
  assume "rocks_timed L s" "rocks_found lib view K c (Suc n) s" "db_RecordTime (RocksDBCloud lib) op t s = Inr s'"
  then show "rocks_timed (L @ [(op, t)]) s'" using rocks_timed.timed_record by (auto simp: rocks_found_def)
next
  fix L and s s' :: "'a rocksdb_cloud" and table key len flds results rs kvs iops result cd r
  assume "rocks_timed L s"
  note timed = rocks_timed.timed_read [OF this] rocks_timed.timed_update [OF this] rocks_timed.timed_insert [OF this]
    rocks_timed.timed_hiccup [OF this]
  show "db_Read (RocksDBCloud lib) table key flds result s = Inr (cd, r, s') \<Longrightarrow> rocks_timed L s'"
    "db_Update (RocksDBCloud lib) table key kvs s = Inr (cd, s') \<Longrightarrow> rocks_timed L s'"
    "db_Insert (RocksDBCloud lib) table key kvs s = Inr (cd, s') \<Longrightarrow> rocks_timed L s'"
    "db_latency_hiccup (RocksDBCloud lib) iops s = Inr s' \<Longrightarrow> rocks_timed L s'"
    by (rule timed, assumption)+
qed (simp_all add: RocksDBCloud_def RC_Scan_def kOK_def)

section \<open>Valid settings\<close>

definition settings_valid :: "properties \<Rightarrow> workload_settings \<Rightarrow> bool" where
  "settings_valid p st \<longleftrightarrow>
     (\<exists>fc. c_stoi (GetProperty p FIELD_COUNT_PROPERTY FIELD_COUNT_DEFAULT) = Inr fc)
     \<and> field_length_valid p \<and> read_settings p = Inr st \<and> some_operation st \<and> key_distribution_valid p st
     \<and> ws_scan_len_dist st = ''uniform'' \<and> (ws_request_dist st = ''zipfian'' \<longrightarrow> ws_insert st = 0)
     \<and> c_clean (GetProperty p TABLENAME_PROPERTY TABLENAME_DEFAULT)"

lemma settings_record_count:
  assumes "read_settings p = Inr st"
  obtains cs where "property_at p RECORD_COUNT_PROPERTY = Inr cs" "c_stoi cs = Inr (ws_record_count st)"
proof -
  have rc: "c_stoi (GetProperty p RECORD_COUNT_PROPERTY '''') = Inr (ws_record_count st)"
    using assms by (auto simp: read_settings_def andthen_eq_Inr or_throw_eq_Inr)
  show thesis
  proof (cases "map_of p RECORD_COUNT_PROPERTY")
    case None
    then show ?thesis using rc by (simp add: GetProperty_def c_stoi_def split_sign_def Let_def)
  next
    case (Some cs)
    then show ?thesis using rc that by (simp add: GetProperty_def property_at_def)
  qed
qed

lemma phase_setup_ok:
  assumes "random_lib_ok (cx_lib cx)" "settings_valid p st" "ws_record_count st \<le> INT32_MAX"
    "property_at p (if loading then RECORD_COUNT_PROPERTY else OPERATION_COUNT_PROPERTY) = Inr cs" "c_stoi cs = Inr total_ops"
  shows "\<exists>start s1. phase_setup cx p loading s = Inr (total_ops, start, s1) \<and> sh_db s1 = sh_db s \<and> op_stats s1 = op_stats s
    \<and> workload_inv (cx_lib cx) (sh_wl s1) \<and> c_clean (wl_table_name (sh_wl s1))
    \<and> wl_key_generator (sh_wl s1) = Some (GCounter (CounterGenerator (word_of_int (ws_insert_start st))))
    \<and> Counter_Last (wl_insert_key_sequence (sh_wl s1)) = word_of_int (ws_record_count st) - 1
    \<and> wl_ordered_inserts (sh_wl s1) = (GetProperty p INSERT_ORDER_PROPERTY INSERT_ORDER_DEFAULT \<noteq> ''hashed'')"
proof -
  obtain fc where valid: "c_stoi (GetProperty p FIELD_COUNT_PROPERTY FIELD_COUNT_DEFAULT) = Inr fc" "field_length_valid p"
    "read_settings p = Inr st" "some_operation st" "key_distribution_valid p st" "ws_scan_len_dist st = ''uniform''"
    "\<not> (ws_request_dist st = ''zipfian'' \<and> ws_insert st \<noteq> 0)" "c_clean (GetProperty p TABLENAME_PROPERTY TABLENAME_DEFAULT)"
    using assms(2) unfolding settings_valid_def by blast
  obtain wl env where wl: "Workload_Init (cx_lib cx) p CoreWorkload (sh_env s) = Inr (wl, env)" "workload_ok (cx_lib cx) wl"
    "wl_table_name wl = GetProperty p TABLENAME_PROPERTY TABLENAME_DEFAULT"
    "wl_key_generator wl = Some (GCounter (CounterGenerator (word_of_int (ws_insert_start st))))"
    "Counter_Last (wl_insert_key_sequence wl) = word_of_int (ws_record_count st) - 1"
    "wl_ordered_inserts wl = (GetProperty p INSERT_ORDER_PROPERTY INSERT_ORDER_DEFAULT \<noteq> ''hashed'')" "keys_found (cx_lib cx) wl"
    using Workload_Init_ok [OF assms(1) valid(1-4) assms(3) valid(5,6), of "sh_env s"] valid(7) by blast
  obtain start k where "get_now_micros cx (s\<lparr>sh_wl := wl, sh_env := env\<rparr>) = (start, s\<lparr>sh_wl := wl, sh_env := env\<rparr>\<lparr>sh_readings := k\<rparr>)"
    by (rule get_now_micros_cases)
  with wl valid(8) assms(4,5) show ?thesis
    by (simp add: phase_setup_def workload_inv_def op_stats_def)
qed

lemma benchmark_phase_outcome:
  assumes "phase_setup cx p loading s = Inr (total_ops, start, s1)"
    "\<exists>oks s'. threads_run cx total_ops num_threads loading s1 (Inr (oks, s'))"
    "\<And>r. threads_run cx total_ops num_threads loading s1 r \<Longrightarrow> \<exists>oks s'. r = Inr (oks, s') \<and> Q oks s'"
    "\<And>oks s' k. Q oks s' \<Longrightarrow> Q oks (s'\<lparr>sh_readings := k\<rparr>)"
  shows "\<exists>r s'. benchmark_phase cx p num_threads loading s (Inr (r, s'))"
    "benchmark_phase cx p num_threads loading s r \<Longrightarrow> \<exists>oks t s'. r = Inr ((oks, t), s') \<and> Q oks s'"
proof -
  obtain oks s2 where "threads_run cx total_ops num_threads loading s1 (Inr (oks, s2))" using assms(2) by blast
  from phase_reports [OF assms(1) this] show "\<exists>r s'. benchmark_phase cx p num_threads loading s (Inr (r, s'))"
    by (meson get_now_micros_cases)
  assume "benchmark_phase cx p num_threads loading s r"
  then show "\<exists>oks t s'. r = Inr ((oks, t), s') \<and> Q oks s'"
  proof (cases rule: benchmark_phase.cases)
    case (phase_reports total start' s1' oks s2 now s3)
    obtain n k where "get_now_micros cx s2 = (n, s2\<lparr>sh_readings := k\<rparr>)" by (rule get_now_micros_cases)
    with phase_reports assms(1,4) assms(3) [of "Inr (oks, s2)"] show ?thesis by auto
  next
    case (threads_stop total start' s1' e)
    then show ?thesis using assms(1) assms(3) [of "Inl e"] by auto
  qed (use assms(1) in auto)
qed

text \<open>The keys of the first \<open>n\<close> records, by the insert order of the properties.\<close>

definition loaded_keys :: "properties \<Rightarrow> nat \<Rightarrow> string \<Rightarrow> bool" where
  "loaded_keys p n key \<longleftrightarrow> (\<exists>i<n. key = ''user'' @ to_string (unat
     (if GetProperty p INSERT_ORDER_PROPERTY INSERT_ORDER_DEFAULT \<noteq> ''hashed'' then of_nat i else FNVHash64 (of_nat i))))"

lemma loaded_keys_load_key:
  assumes "wl_ordered_inserts wl = (GetProperty p INSERT_ORDER_PROPERTY INSERT_ORDER_DEFAULT \<noteq> ''hashed'')"
  shows "loaded_keys p n key \<longleftrightarrow> (\<exists>i<n. key = load_key wl 0 i)"
  by (simp add: loaded_keys_def load_key_def BuildKeyName_def assms)

lemma keys_known_loaded:
  assumes "wl_ordered_inserts wl = (GetProperty p INSERT_ORDER_PROPERTY INSERT_ORDER_DEFAULT \<noteq> ''hashed'')"
    "Counter_Last (wl_insert_key_sequence wl) = word_of_int rc - 1" "1 \<le> rc" "rc \<le> INT32_MAX"
  shows "keys_known (loaded_keys p (nat rc)) wl"
  unfolding keys_known_def
proof (intro allI impI)
  fix k assume "k \<le> Counter_Last (wl_insert_key_sequence wl)"
  moreover have "Counter_Last (wl_insert_key_sequence wl) = word_of_int (rc - 1)" using assms(2) by (simp add: wi_hom_syms)
  moreover have "unat (word_of_int (rc - 1) :: u64) = nat (rc - 1)" using assms(3,4) by (intro word_of_small_int) simp_all
  ultimately have "unat k < nat rc" using assms(3) by (simp add: word_le_nat_alt)
  moreover have "BuildKeyName wl k = load_key wl 0 (unat k)" by (simp add: load_key_def)
  ultimately show "loaded_keys p (nat rc) (BuildKeyName wl k)" unfolding loaded_keys_load_key [OF assms(1)] by blast
qed

lemma load_benchmark:
  assumes "kv_ok lib view" "store_ok view (rc_db (sh_db s))" "cx = \<lparr>cx_db = RocksDBCloud lib, cx_lib = rlib, cx_clock = clock\<rparr>"
    "random_lib_ok rlib" "settings_valid p st" "ws_insert_start st = 0" "0 \<le> ws_record_count st"
    "ws_record_count st \<le> INT32_MAX - 100000" "0 \<le> num_threads"
  shows "\<exists>r s'. benchmark_phase cx p num_threads True s (Inr (r, s'))"
    "benchmark_phase cx p num_threads True s r \<Longrightarrow> \<exists>oks t s'. r = Inr ((oks, t), s')
       \<and> oks = int (phase_rounds (ws_record_count st) (nat num_threads)) \<and> rocks_store_ok lib view (sh_db s) (sh_db s')
       \<and> op_stats s' = op_stats s
       \<and> (\<forall>key. loaded_keys p (phase_rounds (ws_record_count st) (nat num_threads)) key \<longrightarrow> record_at view (rc_db (sh_db s')) key \<noteq> None)"
proof -
  let ?N = "phase_rounds (ws_record_count st) (nat num_threads)"
  obtain cs where cs: "property_at p RECORD_COUNT_PROPERTY = Inr cs" "c_stoi cs = Inr (ws_record_count st)"
    using settings_record_count [of p st] assms(5) by (auto simp: settings_valid_def)
  obtain start s1 where s1: "phase_setup cx p True s = Inr (ws_record_count st, start, s1)" "sh_db s1 = sh_db s" "op_stats s1 = op_stats s"
    "workload_inv rlib (sh_wl s1)" "c_clean (wl_table_name (sh_wl s1))"
    "wl_key_generator (sh_wl s1) = Some (GCounter (CounterGenerator 0))"
    "wl_ordered_inserts (sh_wl s1) = (GetProperty p INSERT_ORDER_PROPERTY INSERT_ORDER_DEFAULT \<noteq> ''hashed'')"
    using phase_setup_ok [of cx p st True cs "ws_record_count st" s] assms(3-6,8) cs by auto
  let ?J = "records_loaded (RocksDBCloud lib) (rocks_store_ok lib view (sh_db s))
    (\<lambda>d table key kvs. record_at view (rc_db d) key = Some kvs) (\<lambda>_ _ _. True) cx (sh_wl s1) 0 (op_stats s) ?N"
  have "?J 0 0 s1"
    using assms(1,2) s1 load_ready_start [OF s1(4,6)] by (simp add: records_loaded_def rocks_store_ok_def assms(3))
  note J0 = phase_inv_spawn [where J = ?J, OF assms(7,8) this, where loading = True and num_threads = "nat num_threads"]
  note run = rocks_load.load.phase_outcome [OF J0 assms(9)]
  let ?Q = "\<lambda>oks s'. oks = int ?N \<and> rocks_store_ok lib view (sh_db s) (sh_db s') \<and> op_stats s' = op_stats s
    \<and> (\<forall>key. loaded_keys p ?N key \<longrightarrow> record_at view (rc_db (sh_db s')) key \<noteq> None)"
  have Q: "\<exists>oks s'. r = Inr (oks, s') \<and> ?Q oks s'" if r: "threads_run cx (ws_record_count st) num_threads True s1 r" for r
  proof -
    obtain oks s' where s': "r = Inr (oks, s')" "?J ?N oks s'" using run(2) [OF r] by (elim exE conjE)
    then have "oks = int ?N \<and> rocks_store_ok lib view (sh_db s) (sh_db s') \<and> op_stats s' = op_stats s"
      "\<forall>i<?N. \<exists>kvs. record_at view (rc_db (sh_db s')) (load_key (sh_wl s1) 0 i) = Some kvs"
      unfolding records_loaded_def by blast+
    then show ?thesis unfolding loaded_keys_load_key [OF s1(7)] using s'(1) by auto
  qed
  note out = benchmark_phase_outcome [where Q = ?Q, OF s1(1) run(1) Q]
  show "\<exists>r s'. benchmark_phase cx p num_threads True s (Inr (r, s'))" by (rule out(1)) simp_all
  show "\<exists>oks t s'. r = Inr ((oks, t), s') \<and> ?Q oks s'" if "benchmark_phase cx p num_threads True s r"
    by (rule out(2) [OF _ _ that]) simp_all
qed

lemma run_benchmark:
  assumes "cx = \<lparr>cx_db = RocksDBCloud lib, cx_lib = rlib, cx_clock = clock\<rparr>" "random_lib_ok rlib" "settings_valid p st"
    "1 \<le> ws_record_count st" "ws_record_count st \<le> INT32_MAX" "property_at p OPERATION_COUNT_PROPERTY = Inr cs"
    "c_stoi cs = Inr total_ops" "0 \<le> total_ops" "total_ops \<le> INT32_MAX - 100000" "0 \<le> num_threads"
    "N = phase_rounds total_ops (nat num_threads)" "K = loaded_keys p (nat (ws_record_count st))"
    "rocks_found lib view K c N (sh_db s)" "rocks_timed [] (sh_db s)" "accounted [] (op_stats s)"
  shows "\<exists>r s'. benchmark_phase cx p num_threads False s (Inr (r, s'))"
    "benchmark_phase cx p num_threads False s r \<Longrightarrow> \<exists>oks t s'. r = Inr ((oks, t), s') \<and> 0 \<le> oks \<and> oks \<le> int N
       \<and> rocks_found lib view K c 0 (sh_db s') \<and> (\<exists>L. length L = N \<and> rocks_timed L (sh_db s') \<and> accounted L (op_stats s'))"
proof -
  obtain start s1 where s1: "phase_setup cx p False s = Inr (total_ops, start, s1)" "sh_db s1 = sh_db s" "op_stats s1 = op_stats s"
    "workload_inv rlib (sh_wl s1)" "Counter_Last (wl_insert_key_sequence (sh_wl s1)) = word_of_int (ws_record_count st) - 1"
    "wl_ordered_inserts (sh_wl s1) = (GetProperty p INSERT_ORDER_PROPERTY INSERT_ORDER_DEFAULT \<noteq> ''hashed'')"
    using phase_setup_ok [of cx p st False cs total_ops s] assms(1-7) by auto
  have "keys_known K (sh_wl s1)" unfolding assms(12) by (rule keys_known_loaded [OF s1(6,5) assms(4,5)])
  let ?J = "transactions_made (rocks_found lib view K c) rocks_timed K (RocksDBCloud lib) cx N"
  have "?J 0 0 s1"
    using \<open>keys_known K (sh_wl s1)\<close> s1(2-4) assms(13-15) by (simp add: transactions_made_def client_inv_def assms(1))
  note J0 = phase_inv_spawn [where J = ?J, OF assms(8,9) this, where loading = False and num_threads = "nat num_threads", folded assms(11)]
  note run = rocks_found.run.phase_outcome [OF J0 assms(10)]
  let ?Q = "\<lambda>oks s'. 0 \<le> oks \<and> oks \<le> int N \<and> rocks_found lib view K c 0 (sh_db s')
    \<and> (\<exists>L. length L = N \<and> rocks_timed L (sh_db s') \<and> accounted L (op_stats s'))"
  have Q: "\<exists>oks s'. r = Inr (oks, s') \<and> ?Q oks s'" if r: "threads_run cx total_ops num_threads False s1 r" for r
  proof -
    obtain oks s' where s': "r = Inr (oks, s')" "?J N oks s'" "0 \<le> oks" "oks \<le> int N" using run(2) [OF r] by (elim exE conjE)
    then show ?thesis by (auto simp: transactions_made_def client_inv_def)
  qed
  note out = benchmark_phase_outcome [where Q = ?Q, OF s1(1) run(1) Q]
  show "\<exists>r s'. benchmark_phase cx p num_threads False s (Inr (r, s'))" by (rule out(1)) simp_all
  show "\<exists>oks t s'. r = Inr ((oks, t), s') \<and> ?Q oks s'" if "benchmark_phase cx p num_threads False s r"
    by (rule out(2) [OF _ _ that]) simp_all
qed

lemma those_total: "(\<And>x. x \<in> set xs \<Longrightarrow> \<exists>y. f x = Some y) \<Longrightarrow> \<exists>ys. those (map f xs) = Some ys"
proof (induction xs)
  case (Cons x xs)
  then obtain y ys where "f x = Some y" "those (map f xs) = Some ys" by fastforce
  then show ?case by simp
qed simp

lemma summary_columns_abs:
  assumes "latencies h0 d A L F" "h \<in> set (summary_columns d)"
  shows "\<exists>M. hdr_abs h M"
proof -
  have "\<exists>M. latency_hist h0 h M"
    using assms unfolding summary_columns_def latencies_def by (simp only: list.set insert_iff empty_iff) blast
  then show ?thesis unfolding latency_hist_def by blast
qed

lemma PrintStats_total:
  assumes "rocks_inv lib n d"
  shows "\<exists>x. RC_PrintStats_to out d = Inr x"
proof -
  obtain h0 A L F where l: "latencies h0 d A L F" and rows: "20 * int (size A + n) \<le> INT64_MAX"
    using assms unfolding rocks_inv_def by (elim exE conjE)
  note abs = summary_columns_abs [OF l]
  have mean: "\<exists>ms. those (map hdr_mean (summary_columns d)) = Some ms"
  proof (rule those_total)
    fix h assume "h \<in> set (summary_columns d)"
    from abs [OF this] obtain M where "hdr_abs h M" ..
    then show "\<exists>m. hdr_mean h = Some m" by (rule hdr_mean_total)
  qed
  have percentile: "\<exists>ps. those (map (\<lambda>h. hdr_value_at_percentile h p) (summary_columns d)) = Some ps" for p
  proof (rule those_total)
    fix h assume "h \<in> set (summary_columns d)"
    from abs [OF this] obtain M where "hdr_abs h M" ..
    then show "\<exists>v. hdr_value_at_percentile h p = Some v" by (rule hdr_value_at_percentile_total [OF hdr_absD(1)])
  qed
  obtain ms where "those (map hdr_mean (summary_columns d)) = Some ms" using mean ..
  moreover obtain p where "those (map (\<lambda>h. hdr_value_at_percentile h 95) (summary_columns d)) = Some p" using percentile [of 95] ..
  moreover obtain q where "those (map (\<lambda>h. hdr_value_at_percentile h 99) (summary_columns d)) = Some q" using percentile [of 99] ..
  moreover obtain r where "those (map (\<lambda>h. hdr_value_at_percentile h (9999 / 100)) (summary_columns d)) = Some r"
    using percentile [of "9999 / 100"] ..
  ultimately have "RC_summary d = Some (ms, p, q, r)" unfolding RC_summary_def by simp
  moreover have "hdr_abs (rc_hdr_all d) A" "4 * int 5 * int (size A) \<le> INT64_MAX"
    using l rows by (simp_all add: latencies_def latency_hist_def)
  from hdr_percentiles_print_total [OF this(1) _ this(2), of out 1 CLASSIC]
  obtain print where "hdr_percentiles_print out (rc_hdr_all d) 5 1 CLASSIC = Some print" by auto
  ultimately show ?thesis by (simp add: RC_PrintStats_to_def or_stop_def)
qed

lemma PrintStats_returns: "rocks_inv lib n d \<Longrightarrow> RC_PrintStats d = Inr d"
  using PrintStats_total [of lib n d "\<lambda>_. True"] by (auto simp: RC_PrintStats_def)

lemma new_database_timed:
  assumes "kv_ok lib view" "store_ok view store" "RocksDBCloud_new calloc True True qps (Inr store) = Inr d" "20 * int n \<le> INT64_MAX"
  shows "rocks_inv lib n d" "rocks_timed [] d" "rc_noResult d = 0" "rc_db d = store"
proof -
  note new = RocksDBCloud_new_latencies [OF assms(3)]
  have "room n {#} {#} (\<lambda>_. {#})" using assms(4) by (simp add: room_def)
  with assms(1,2,4) new(1,2) show "rocks_inv lib n d" unfolding rocks_inv_def by force
  show "rocks_timed [] d" unfolding rocks_timed_def using new(1,4) by (auto simp: times_of_def)
  show "rc_noResult d = 0" by (rule RocksDBCloud_new_cases [OF assms(3)]) simp
qed (rule RocksDBCloud_new_latencies(2) [OF assms(3)])

lemma phases_run_two:
  assumes "\<exists>r s'. benchmark_phase cx p n b1 s (Inr (r, s'))"
    "\<And>r. benchmark_phase cx p n b1 s r \<Longrightarrow> \<exists>oks t s'. r = Inr ((oks, t), s') \<and> P oks s'"
    "\<And>oks s'. P oks s' \<Longrightarrow> \<exists>r s''. benchmark_phase cx p n b2 s' (Inr (r, s''))"
    "\<And>oks s' r. P oks s' \<Longrightarrow> benchmark_phase cx p n b2 s' r \<Longrightarrow> \<exists>oks' t s''. r = Inr ((oks', t), s'') \<and> Q oks oks' s''"
  shows "\<exists>r s'. phases_run cx p n [b1, b2] s (Inr (r, s'))"
    "phases_run cx p n [b1, b2] s r \<Longrightarrow> \<exists>oks t oks' t' s'. r = Inr ([(oks, t), (oks', t')], s') \<and> Q oks oks' s'"
proof -
  obtain r1 s1 where 1: "benchmark_phase cx p n b1 s (Inr (r1, s1))" using assms(1) by blast
  with assms(2) obtain oks where "P oks s1" by blast
  with assms(3) obtain r2 s2 where "benchmark_phase cx p n b2 s1 (Inr (r2, s2))" by blast
  with 1 show "\<exists>r s'. phases_run cx p n [b1, b2] s (Inr (r, s'))" by (blast intro: no_phase first_reports)
  have last: "\<exists>oks' t s''. q = Inr ([(oks', t)], s'') \<and> Q oks oks' s''" if "P oks s'" "phases_run cx p n [b2] s' q" for oks s' q
    using that(2)
  proof (cases rule: phases_run.cases)
    case (first_stops e)
    then show ?thesis using assms(4) [OF that(1)] by blast
  next
    case (first_reports r s1 rs s2)
    from first_reports(3) have "rs = []" "s2 = s1" by (auto elim: phases_run.cases)
    with assms(4) [OF that(1) first_reports(2)] first_reports(1) show ?thesis by auto
  next
    case (later_stops r s1 e)
    from later_stops(3) show ?thesis by (auto elim: phases_run.cases)
  qed
  assume "phases_run cx p n [b1, b2] s r"
  then show "\<exists>oks t oks' t' s'. r = Inr ([(oks, t), (oks', t')], s') \<and> Q oks oks' s'"
  proof (cases rule: phases_run.cases)
    case (first_stops e)
    then show ?thesis using assms(2) by blast
  next
    case (first_reports r1 s1 rs s2)
    from assms(2) [OF first_reports(2)] obtain oks t where "r1 = (oks, t)" "P oks s1" by auto
    with last [OF _ first_reports(3)] first_reports(1) show ?thesis by fastforce
  next
    case (later_stops r1 s1 e)
    from assms(2) [OF later_stops(2)] obtain oks where "P oks s1" by auto
    from last [OF this later_stops(3)] show ?thesis by blast
  qed
qed

text \<open>After the load: as many records as there are, each key found. After the run: no key missed.\<close>

definition load_done ::
    "'s kv_lib \<Rightarrow> ('s \<Rightarrow> string \<Rightarrow> byte list option) \<Rightarrow> properties \<Rightarrow> int \<Rightarrow> nat \<Rightarrow> int \<Rightarrow> ('s rocksdb_cloud, 'e) client_state \<Rightarrow> bool" where
  "load_done lib view p rc N oks s \<longleftrightarrow> oks = rc \<and> rocks_found lib view (loaded_keys p (nat rc)) 0 N (sh_db s)
     \<and> rocks_timed [] (sh_db s) \<and> accounted [] (op_stats s)"

definition run_done ::
    "'s kv_lib \<Rightarrow> ('s \<Rightarrow> string \<Rightarrow> byte list option) \<Rightarrow> properties \<Rightarrow> int \<Rightarrow> nat \<Rightarrow> int \<Rightarrow> int \<Rightarrow> ('s rocksdb_cloud, 'e) client_state \<Rightarrow> bool" where
  "run_done lib view p rc N loaded oks s \<longleftrightarrow> loaded = rc \<and> 0 \<le> oks \<and> oks \<le> int N
     \<and> rocks_found lib view (loaded_keys p (nat rc)) 0 0 (sh_db s) \<and> (\<exists>L. length L = N \<and> accounted L (op_stats s))"

lemma whole_load_done:
  assumes "kv_ok lib view" "store_ok view store" "RocksDBCloud_new calloc True True qps (Inr store) = Inr d" "20 * int N \<le> INT64_MAX"
    "cx = \<lparr>cx_db = RocksDBCloud lib, cx_lib = rlib, cx_clock = clock\<rparr>" "random_lib_ok rlib"
    "settings_valid p st" "ws_insert_start st = 0" "1 \<le> ws_record_count st" "ws_record_count st \<le> INT32_MAX - 100000"
    "0 < num_threads" "num_threads dvd ws_record_count st"
  shows "\<exists>r s'. benchmark_phase cx p num_threads True (client_start d wl env) (Inr (r, s'))"
    "benchmark_phase cx p num_threads True (client_start d wl env) r \<Longrightarrow>
       \<exists>oks t s'. r = Inr ((oks, t), s') \<and> load_done lib view p (ws_record_count st) N oks s'"
proof -
  let ?s = "client_start d wl env" and ?rc = "ws_record_count st"
  have rounds: "phase_rounds ?rc (nat num_threads) = nat ?rc"
    using assms(9,11,12) by (auto simp: phase_rounds_def signed_divide_int_def nat_mult_distrib)
  note new = new_database_timed [OF assms(1-4)]
  have store: "store_ok view (rc_db (sh_db ?s))" using new(4) assms(2) by (simp add: client_start_def)
  have n: "0 \<le> ?rc" "0 \<le> num_threads" using assms(9,11) by simp_all
  note load = load_benchmark [OF assms(1) store assms(5-8) n(1) assms(10) n(2), unfolded rounds]
  show "\<exists>r s'. benchmark_phase cx p num_threads True ?s (Inr (r, s'))" by (rule load(1))
  assume "benchmark_phase cx p num_threads True ?s r"
  from load(2) [OF this] obtain oks t s' where s': "r = Inr ((oks, t), s')" "oks = ?rc"
    "rocks_store_ok lib view d (sh_db s')" "op_stats s' = op_stats ?s"
    "\<forall>key. loaded_keys p (nat ?rc) key \<longrightarrow> record_at view (rc_db (sh_db s')) key \<noteq> None"
    using n(1) by (auto simp: client_start_def)
  obtain x where d: "sh_db s' = d\<lparr>rc_db := x\<rparr>" "store_ok view x" using s'(3) unfolding rocks_store_ok_def by metis
  moreover have "rocks_inv lib N (d\<lparr>rc_db := x\<rparr>)" using new(1) d(2) assms(1) by (auto simp: rocks_inv_def)
  ultimately have "load_done lib view p ?rc N oks s'"
    using s'(2,4,5) new(2,3) assms(1) by (simp add: load_done_def rocks_found_def)
  with s'(1) show "\<exists>oks t s'. r = Inr ((oks, t), s') \<and> load_done lib view p ?rc N oks s'" by blast
qed

lemma rocks_finish:
  assumes "cx_db cx = RocksDBCloud lib" "rocks_inv lib n (sh_db s)"
  shows "main_finish cx ms s = (if ms_load ms then Inl Stop_Diverges else Inr s)"
proof -
  have "db_PrintStats (RocksDBCloud lib) (sh_db s) = Inr (sh_db s)" "db_HaveBalancedDistribution (RocksDBCloud lib) (sh_db s)"
    using PrintStats_returns [OF assms(2)] by (simp_all add: RocksDBCloud_def RC_HaveBalancedDistribution_def)
  then show ?thesis by (simp add: main_finish_def wait_for_balance_def assms(1))
qed

text \<open>Settings are only ever added or overwritten.\<close>

lemma load_line_keeps: "map_of props k \<noteq> None \<Longrightarrow> map_of (load_line line props) k \<noteq> None"
  by (auto simp: load_line_def SetProperty_def Let_def)

lemma load_loop_keeps: "map_of props k \<noteq> None \<Longrightarrow> map_of (load_loop input props) k \<noteq> None"
proof -
  assume "map_of props k \<noteq> None"
  then have "map_of (fold load_line lines props) k \<noteq> None" for lines
    using load_line_keeps by (induction lines arbitrary: props) auto
  then show ?thesis by (simp add: load_loop_eq)
qed

lemma parse_options_keeps:
  "parse_options files args f props = Inr (rest, f', props') \<Longrightarrow> map_of props k \<noteq> None \<Longrightarrow> map_of props' k \<noteq> None"
proof (induction files args f props rule: parse_options.induct)
  case (2 files arg args f props)
  show ?case
  proof (cases "StrStartWith arg ''-''")
    case True
    then obtain v args' where args: "args = v # args'"
      using "2.prems"(1) by (cases args) (auto split: option.splits if_splits)
    show ?thesis
    proof (cases "option_property arg")
      case None
      then obtain input where "arg = ''-P''" "files v = Some input"
        "parse_options files args' v (load_loop input props) = Inr (rest, f', props')"
        using "2.prems"(1) True args by (auto simp: Load_def split: if_splits option.splits)
      with "2.IH"(1) [OF _ None _ args] True load_loop_keeps [OF "2.prems"(2), of input] show ?thesis by (simp add: Load_def)
    next
      case (Some key)
      with "2.IH"(2) [OF _ Some args] "2.prems" True args show ?thesis by (simp add: SetProperty_def)
    qed
  qed (use "2.prems" in simp)
qed simp

lemma started_properties:
  assumes "ParseCommandLine files argv (default_properties []) = Inr (file, props)"
  shows "\<exists>v. property_at props ''dbname'' = Inr v" "\<exists>v. property_at props ''dbpath'' = Inr v"
    "\<exists>v. property_at props ''dbwaitforbalance'' = Inr v"
proof -
  obtain rest where "parse_options files (tl argv) '''' (default_properties []) = Inr (rest, file, props)"
    using assms by (auto simp: ParseCommandLine_def split: sum.splits if_splits)
  note keeps = parse_options_keeps [OF this]
  have "map_of (default_properties []) k \<noteq> None" if "k \<in> {''dbname'', ''dbpath'', ''dbwaitforbalance''}" for k
    using that by (auto simp: default_properties_def SetProperty_def)
  with keeps show "\<exists>v. property_at props ''dbname'' = Inr v" "\<exists>v. property_at props ''dbpath'' = Inr v"
    "\<exists>v. property_at props ''dbwaitforbalance'' = Inr v"
    by (auto simp: property_at_def split: option.splits)
qed

section \<open>Properties\<close>

text \<open>The phases on a new RocksDB-Cloud database, loading and then running with the same valid
  settings, in any interleaving of the threads. When the records are numbered from 0 and their number is a
  multiple of the number of threads, the load phase reports exactly that many records, the run phase
  makes every operation of its share and reports at most that many successes, no read ever misses, and the
  client has accounted for every operation; no thread can stop the program on the way. After printing the
  statistics the program does not end, because a load is followed by an endless wait.\<close>

lemma load_then_run:
  assumes "kv_ok lib view" "store_ok view store" "RocksDBCloud_new calloc True True qps (Inr store) = Inr d"
    "cx = \<lparr>cx_db = RocksDBCloud lib, cx_lib = rlib, cx_clock = clock\<rparr>" "random_lib_ok rlib"
    "settings_valid p st" "ws_insert_start st = 0" "1 \<le> ws_record_count st" "ws_record_count st \<le> INT32_MAX - 100000"
    "property_at p OPERATION_COUNT_PROPERTY = Inr cs" "c_stoi cs = Inr total_ops" "0 \<le> total_ops" "total_ops \<le> INT32_MAX - 100000"
    "ms_load ms" "ms_run ms" "0 < ms_num_threads ms" "ms_num_threads ms dvd ws_record_count st"
  shows "(\<exists>r s. phases_run cx p (ms_num_threads ms) (phases_of ms) (client_start d wl env) (Inr (r, s)))
    \<and> (\<forall>r. phases_run cx p (ms_num_threads ms) (phases_of ms) (client_start d wl env) r \<longrightarrow>
         (\<exists>t oks t' s. r = Inr ([(ws_record_count st, t), (oks, t')], s)
            \<and> 0 \<le> oks \<and> oks \<le> int (phase_rounds total_ops (nat (ms_num_threads ms))) \<and> rc_noResult (sh_db s) = 0
            \<and> (\<exists>L. length L = phase_rounds total_ops (nat (ms_num_threads ms)) \<and> accounted L (op_stats s))
            \<and> main_finish cx ms s = Inl Stop_Diverges))"
proof -
  let ?n = "ms_num_threads ms" and ?s = "client_start d wl env" and ?rc = "ws_record_count st"
  define N where "N = phase_rounds total_ops (nat ?n)"
  have n: "0 \<le> ?n" "?rc \<le> INT32_MAX" "cx_db cx = RocksDBCloud lib" using assms(4,9,16) by simp_all
  have "20 * int N \<le> INT64_MAX" using phase_rounds_le [OF assms(12), of "nat ?n"] assms(13) by (simp add: N_def)
  note load = whole_load_done [OF assms(1-3) this assms(4-9,16,17), of wl env]
  note run = run_benchmark [OF assms(4-6,8) n(2) assms(10-13) n(1) N_def refl, where view = view and c = 0]
  have run1: "\<exists>r s''. benchmark_phase cx p ?n False s' (Inr (r, s''))" if "load_done lib view p ?rc N oks s'" for oks s'
    using run(1) that unfolding load_done_def by blast
  have run2: "\<exists>oks' t s''. r = Inr ((oks', t), s'') \<and> run_done lib view p ?rc N oks oks' s''"
    if "load_done lib view p ?rc N oks s'" "benchmark_phase cx p ?n False s' r" for oks s' r
    using run(2) [of s' r] that unfolding load_done_def run_done_def by blast
  note two = phases_run_two [where P = "load_done lib view p ?rc N" and Q = "run_done lib view p ?rc N"]
  have one: "\<exists>r s. phases_run cx p ?n [True, False] ?s (Inr (r, s))"
    by (rule two(1)) (rule load(1) | erule load(2) | erule run1 | erule (1) run2)+
  have phases: "phases_of ms = [True, False]" using assms(14,15) by (simp add: phases_of_def)
  have "\<exists>t oks t' s. r = Inr ([(?rc, t), (oks, t')], s) \<and> 0 \<le> oks \<and> oks \<le> int N \<and> rc_noResult (sh_db s) = 0
      \<and> (\<exists>L. length L = N \<and> accounted L (op_stats s)) \<and> main_finish cx ms s = Inl Stop_Diverges"
    if "phases_run cx p ?n [True, False] ?s r" for r
  proof -
    have "\<exists>oks t oks' t' s'. r = Inr ([(oks, t), (oks', t')], s') \<and> run_done lib view p ?rc N oks oks' s'"
      by (rule two(2) [OF _ _ _ _ that]) (rule load(1) | erule load(2) | erule run1 | erule (1) run2)+
    then obtain oks t oks' t' s' where s': "r = Inr ([(oks, t), (oks', t')], s')" "run_done lib view p ?rc N oks oks' s'" by blast
    then have "rocks_inv lib 0 (sh_db s')" by (simp add: run_done_def rocks_found_def)
    from rocks_finish [OF n(3) this] s' assms(14) show ?thesis by (simp add: run_done_def rocks_found_def)
  qed
  with one show ?thesis unfolding phases N_def by blast
qed


lemma small_command_line:
  "map_sum id snd (ParseCommandLine (\<lambda>_. None) [''ycsbc'', ''-db'', ''rocksdb-cloud'', ''-load'', ''maybe''] (default_properties []))
     = Inr [(''dbname'', ''rocksdb-cloud''), (''dboption'', ''0''), (''dbpath'', ''''), (''dbstatistics'', ''false''),
            (''dbwaitforbalance'', ''false''), (''load'', ''maybe''), (''run'', ''false''), (''threadcount'', ''1'')]"
  by code_simp


end
