(* ===== verification/Ycsb_Options.thy ===== *)
theory Ycsb_Options
  imports Ycsb_Rocks Ycsb_Numbers
begin

text \<open>
  The settings with which the stores are opened (\<open>db/rocksdb_cloud_db.cc\<close>, \<open>db/rocksdb_db.cc\<close>) and the rest of the
  constructor of the RocksDB-Cloud database: the cloud file system and the opening of the store. The members
  of the options are those the code sets; their values before that, and what the store's library answers, are
  arguments. A policy or a cache that is made is kept as the call that makes it. A pointer the code reads
  although the call that should set it failed is undefined.
\<close>

section \<open>Options\<close>

datatype filter_policy = NewBloomFilterPolicy nat bool

datatype block_cache = NewLRUCache nat

datatype persistent_cache = NewPersistentCache string nat bool

record block_table_options =
  bt_cache_index_and_filter_blocks :: bool
  bt_initial_auto_readahead_size :: nat
  bt_max_auto_readahead_size :: nat
  bt_filter_policy :: "filter_policy option"
  bt_block_cache :: "block_cache option"
  bt_block_size :: nat
  bt_persistent_cache :: "persistent_cache option"

record rocksdb_options =
  create_if_missing :: bool
  statistics :: bool
  compression :: string
  compaction_style :: string
  enable_pipelined_write :: bool
  use_direct_reads :: bool
  use_direct_io_for_flush_and_compaction :: bool
  max_bytes_for_level_base :: nat
  write_buffer_size :: nat
  target_file_size_base :: nat
  max_background_compactions :: int
  max_background_flushes :: int
  level0_file_num_compaction_trigger :: int
  level0_slowdown_writes_trigger :: int
  level0_stop_writes_trigger :: int
  compaction_readahead_size :: nat
  hyper_level :: int
  db_paths :: "(string \<times> nat) list"
  table_factory :: block_table_options

text \<open>The setters of the RocksDB-Cloud database; \<open>block_default\<close> is a new object of the options of the block table.\<close>

definition SetRocksdbEBSOptions :: "block_table_options \<Rightarrow> properties \<Rightarrow> string \<Rightarrow> rocksdb_options \<Rightarrow> rocksdb_options" where
  "SetRocksdbEBSOptions block_default props kDBPath options =
     options\<lparr>create_if_missing := True, compression := ''kNoCompression'', compaction_style := ''kCompactionStyleLevel'',
       enable_pipelined_write := True, use_direct_reads := True, use_direct_io_for_flush_and_compaction := True,
       max_bytes_for_level_base := 256 * 1024 * 1024,
       write_buffer_size := 64 * 1024 * 1024,
       target_file_size_base := 64 * 1024 * 1024,
       max_background_compactions := 8, max_background_flushes := 2,
       compaction_readahead_size := 4 * 1024 * 1024,
       table_factory := block_default\<lparr>bt_initial_auto_readahead_size := 256 * 1024,
         bt_max_auto_readahead_size := 4 * 1024 * 1024, bt_filter_policy := Some (NewBloomFilterPolicy 10 False),
         bt_block_cache := Some (NewLRUCache (256 * 1024 * 1024)), bt_block_size := 16 * 1024\<rparr>,
       hyper_level := 7,
       db_paths := [(kDBPath @ ''/ebs'', 1024 * 1024 * 1024 * 1024), (kDBPath @ ''/s3'', 1024 * 1024 * 1024 * 1024)]\<rparr>"

definition SetHetCloudDBOptions :: "block_table_options \<Rightarrow> properties \<Rightarrow> string \<Rightarrow> rocksdb_options \<Rightarrow> rocksdb_options" where
  "SetHetCloudDBOptions block_default props kDBPath options =
     options\<lparr>create_if_missing := True, compression := ''kNoCompression'', compaction_style := ''kCompactionStyleLevel'',
       enable_pipelined_write := True, use_direct_reads := True, use_direct_io_for_flush_and_compaction := True,
       max_bytes_for_level_base := 64 * 1024 * 1024,
       write_buffer_size := 8 * 1024 * 1024,
       target_file_size_base := 8 * 1024 * 1024,
       max_background_compactions := 8, max_background_flushes := 2,
       level0_file_num_compaction_trigger := 8, level0_slowdown_writes_trigger := 20, level0_stop_writes_trigger := 36,
       compaction_readahead_size := 4 * 1024 * 1024,
       table_factory := block_default\<lparr>bt_initial_auto_readahead_size := 256 * 1024,
         bt_max_auto_readahead_size := 4 * 1024 * 1024, bt_filter_policy := Some (NewBloomFilterPolicy 10 False),
         bt_block_cache := Some (NewLRUCache (64 * 1024 * 1024)), bt_block_size := 16 * 1024\<rparr>,
       hyper_level := 2,
       db_paths := [(kDBPath @ ''/ebs'', 1024 * 1024 * 1024 * 1024), (kDBPath @ ''/s3'', 1024 * 1024 * 1024 * 1024)]\<rparr>"

definition SetRocksMashOptions :: "block_table_options \<Rightarrow> properties \<Rightarrow> string \<Rightarrow> rocksdb_options \<Rightarrow> rocksdb_options" where
  "SetRocksMashOptions block_default props kDBPath options = SetHetCloudDBOptions block_default props kDBPath options"

definition SetLocalOptions :: "block_table_options \<Rightarrow> properties \<Rightarrow> rocksdb_options \<Rightarrow> rocksdb_options" where
  "SetLocalOptions block_default props options =
     options\<lparr>create_if_missing := True, compression := ''kNoCompression'', compaction_style := ''kCompactionStyleLevel'',
       enable_pipelined_write := True, use_direct_reads := True, use_direct_io_for_flush_and_compaction := True,
       max_bytes_for_level_base := 10 * 1024 * 1024,
       write_buffer_size := 1 * 1024 * 1024,
       target_file_size_base := 1 * 1024 * 1024,
       max_background_compactions := 8, max_background_flushes := 2,
       table_factory := block_default\<lparr>bt_cache_index_and_filter_blocks := False,
         bt_filter_policy := Some (NewBloomFilterPolicy 10 False),
         bt_block_cache := Some (NewLRUCache (4 * 1024 * 1024)), bt_block_size := 16 * 1024\<rparr>\<rparr>"

text \<open>
  The setter of the plain RocksDB database. The paths and the persistent cache depend on the property
  \<open>dboption\<close>; \<open>cache_made\<close> says whether the store could make the cache, an answer the code ignores. The
  assertion before it is on a status nobody has set, which is OK.
\<close>

abbreviation GB :: nat where
  "GB \<equiv> 1024 * 1024 * 1024"

definition option_paths :: "int \<Rightarrow> rocksdb_options \<Rightarrow> rocksdb_options" where
  "option_paths dboption options =
     (if dboption = 0 then options\<lparr>db_paths := [(''/home/ubuntu/ssd_150g/wp'', 200 * GB)]\<rparr>
      else if dboption = 2 then
        options\<lparr>db_paths :=
          [(''/home/ubuntu/gp2_50g_1'', 50 * GB), (''/home/ubuntu/gp2_50g_2'', 50 * GB),
           (''/home/ubuntu/gp2_50g_1_bak'', 50 * GB), (''/home/ubuntu/gp2_50g_2_bak'', 50 * GB),
           (''/home/ubuntu/gp3_100g_1'', 60 * GB), (''/home/ubuntu/gp3_100g_2'', 60 * GB),
           (''/home/ubuntu/gp3_100g_3'', 60 * GB)]\<rparr>
      else if dboption = 3 then
        options\<lparr>db_paths := [(''/home/ubuntu/gp2_50g_1'', 40 * GB), (''/home/ubuntu/gp3_100g_1'', 200 * GB)]\<rparr>
      else options)"

definition option_cache :: "bool \<Rightarrow> int \<Rightarrow> block_table_options \<Rightarrow> block_table_options" where
  "option_cache cache_made dboption block =
     (if dboption = 2 \<and> cache_made
      then block\<lparr>bt_persistent_cache := Some (NewPersistentCache ''/home/ubuntu/gp2_pcache'' (12 * GB) False)\<rparr>
      else block)"

definition SetOptions :: "block_table_options \<Rightarrow> bool \<Rightarrow> properties \<Rightarrow> rocksdb_options \<Rightarrow> run_stop + rocksdb_options" where
  "SetOptions block_default cache_made props options =
     (let options1 = options\<lparr>create_if_missing := True, compression := ''kNoCompression'', enable_pipelined_write := True,
            max_bytes_for_level_base := 256 * 1024 * 1024, write_buffer_size := 64 * 1024 * 1024,
            target_file_size_base := 8 * 1024 * 1024, max_background_compactions := 4, max_background_flushes := 2,
            level0_file_num_compaction_trigger := 12, level0_slowdown_writes_trigger := 30,
            level0_stop_writes_trigger := 40, use_direct_reads := True, use_direct_io_for_flush_and_compaction := True\<rparr>;
          block = block_default\<lparr>bt_cache_index_and_filter_blocks := False,
            bt_filter_policy := Some (NewBloomFilterPolicy 10 False), bt_block_cache := Some (NewLRUCache (8 * 1024 * 1024))\<rparr>
      in andthen (or_throw (property_at props ''dboption'')) (\<lambda>text.
         andthen (or_throw (c_stoi text)) (\<lambda>dboption.
           Inr ((option_paths dboption options1)\<lparr>table_factory := option_cache cache_made dboption block\<rparr>))))"

section \<open>Opening the cloud store\<close>

record cloud_fs_options =
  src_bucket :: "string \<times> string"
  dest_bucket :: "string \<times> string"
  keep_local_sst_files :: bool

text \<open>What the libraries provide: the objects before they are set, and the two calls that may fail.\<close>

record ('f, 's) cloud_lib =
  cl_options :: rocksdb_options
  cl_block_options :: block_table_options
  cl_fs_options :: cloud_fs_options
  cl_NewAwsFileSystem :: "string \<Rightarrow> string \<Rightarrow> string \<Rightarrow> string \<Rightarrow> string \<Rightarrow> string \<Rightarrow> cloud_fs_options \<Rightarrow> 'f option"
  cl_Open :: "'f \<Rightarrow> rocksdb_options \<Rightarrow> string \<Rightarrow> string \<Rightarrow> nat \<Rightarrow> 's option"

definition open_cloud_db :: "('f, 's) cloud_lib \<Rightarrow> properties \<Rightarrow> run_stop + 's" where
  "open_cloud_db cl props =
     (let kDBPath = ''/home/ubuntu/gp3/hyper_8M_1000w'';
          kBucketSuffix = ''hyper.8m.1000w'';
          kRegion = ''ap-northeast-2'';
          bucketPrefix = ''rockset.'';
          cloud_fs_options = (cl_fs_options cl)\<lparr>src_bucket := (kBucketSuffix, bucketPrefix),
            dest_bucket := (kBucketSuffix, bucketPrefix), keep_local_sst_files := False\<rparr>
      in case cl_NewAwsFileSystem cl kBucketSuffix kDBPath kRegion kBucketSuffix kDBPath kRegion cloud_fs_options of
           None \<Rightarrow> Inl Stop_Undefined
         | Some cfs \<Rightarrow>
             let options = SetRocksdbEBSOptions (cl_block_options cl) props kDBPath
                   ((cl_options cl)\<lparr>create_if_missing := True, statistics := True\<rparr>)
             in case cl_Open cl cfs options kDBPath [] 0 of
                  None \<Rightarrow> Inl Stop_Undefined
                | Some db \<Rightarrow> Inr db)"

text \<open>The whole constructor; the path of the caller is not used, and the properties only go to the setter.\<close>

definition RocksDBCloud_construct ::
    "('f, 's) cloud_lib \<Rightarrow> (nat \<Rightarrow> int \<Rightarrow> bool) \<Rightarrow> bool \<Rightarrow> bool \<Rightarrow> int \<Rightarrow> string \<Rightarrow> properties \<Rightarrow> run_stop + 's rocksdb_cloud" where
  "RocksDBCloud_construct cl calloc output_opened hiccup_opened qps dbfilename props =
     RocksDBCloud_new calloc output_opened hiccup_opened qps (open_cloud_db cl props)"

section \<open>Consistent options\<close>

text \<open>
  Compaction starts before writes are slowed down and those before they are stopped, a memtable and a
  file fit into the first level, and the read-ahead grows.
\<close>

definition options_consistent :: "rocksdb_options \<Rightarrow> bool" where
  "options_consistent o' \<longleftrightarrow>
     level0_file_num_compaction_trigger o' \<le> level0_slowdown_writes_trigger o'
     \<and> level0_slowdown_writes_trigger o' \<le> level0_stop_writes_trigger o'
     \<and> write_buffer_size o' \<le> max_bytes_for_level_base o' \<and> target_file_size_base o' \<le> max_bytes_for_level_base o'
     \<and> bt_initial_auto_readahead_size (table_factory o') \<le> bt_max_auto_readahead_size (table_factory o')"

definition triggers_ordered :: "rocksdb_options \<Rightarrow> bool" where
  "triggers_ordered o' \<longleftrightarrow> level0_file_num_compaction_trigger o' \<le> level0_slowdown_writes_trigger o'
     \<and> level0_slowdown_writes_trigger o' \<le> level0_stop_writes_trigger o'"

abbreviation readahead_grows :: "block_table_options \<Rightarrow> bool" where
  "readahead_grows b \<equiv> bt_initial_auto_readahead_size b \<le> bt_max_auto_readahead_size b"

lemma SetRocksdbEBSOptions_consistent: "triggers_ordered o' \<Longrightarrow> options_consistent (SetRocksdbEBSOptions b p path o')"
  by (simp add: SetRocksdbEBSOptions_def options_consistent_def triggers_ordered_def)

lemma SetHetCloudDBOptions_consistent: "options_consistent (SetHetCloudDBOptions b p path o')"
  by (simp add: SetHetCloudDBOptions_def options_consistent_def)

lemma SetLocalOptions_consistent:
  "triggers_ordered o' \<Longrightarrow> readahead_grows b \<Longrightarrow> options_consistent (SetLocalOptions b p o')"
  by (simp add: SetLocalOptions_def options_consistent_def triggers_ordered_def)

lemma SetOptions_consistent:
  "readahead_grows b \<Longrightarrow> SetOptions b cache p o' = Inr o'' \<Longrightarrow> options_consistent o''"
  by (auto simp: SetOptions_def options_consistent_def option_paths_def option_cache_def andthen_eq_Inr Let_def)

section \<open>Outcome of the constructor\<close>

lemma open_cloud_db_opens:
  assumes "open_cloud_db cl props = Inr store" "triggers_ordered (cl_options cl)"
  shows "\<exists>cfs opts. cl_Open cl cfs opts ''/home/ubuntu/gp3/hyper_8M_1000w'' [] 0 = Some store
    \<and> options_consistent opts \<and> create_if_missing opts \<and> statistics opts"
proof -
  let ?opts = "SetRocksdbEBSOptions (cl_block_options cl) props ''/home/ubuntu/gp3/hyper_8M_1000w''
    ((cl_options cl)\<lparr>create_if_missing := True, statistics := True\<rparr>)"
  obtain cfs where "cl_Open cl cfs ?opts ''/home/ubuntu/gp3/hyper_8M_1000w'' [] 0 = Some store"
    using assms(1) by (auto simp: open_cloud_db_def Let_def split: option.splits)
  moreover have "options_consistent ?opts"
    by (rule SetRocksdbEBSOptions_consistent) (use assms(2) in \<open>simp add: triggers_ordered_def\<close>)
  moreover have "create_if_missing ?opts" "statistics ?opts" by (simp_all add: SetRocksdbEBSOptions_def)
  ultimately show ?thesis by blast
qed

lemma open_cloud_db_stops: "open_cloud_db cl props = Inl e \<Longrightarrow> e = Stop_Undefined"
  by (auto simp: open_cloud_db_def Let_def split: option.splits)

lemma open_cloud_db_props: "open_cloud_db cl props = open_cloud_db cl props'"
  unfolding open_cloud_db_def SetRocksdbEBSOptions_def ..

text \<open>C20: The constructor of the RocksDB-Cloud database stops where the histograms or their files cannot be had;
  after that a failure of the cloud file system or of the store is undefined behaviour, and otherwise the
  database is new: empty histograms and no misses, on a store opened with consistent options that is created when
  missing and keeps statistics. The path and the properties given to it have no influence.
\<close>

theorem RocksDBCloud_construct_outcome:
  assumes "triggers_ordered (cl_options cl)"
  shows "RocksDBCloud_construct cl calloc output hiccup qps dbfilename props = RocksDBCloud_construct cl calloc output hiccup qps [] []
    \<and> (case latency_setup calloc output hiccup of
        Inl e \<Rightarrow> RocksDBCloud_construct cl calloc output hiccup qps dbfilename props = Inl e
      | Inr hs \<Rightarrow>
          (case RocksDBCloud_construct cl calloc output hiccup qps dbfilename props of
             Inl e \<Rightarrow> e = Stop_Undefined
           | Inr s \<Rightarrow> latencies (rc_hdr_all s) s {#} {#} (\<lambda>_. {#}) \<and> rc_noResult s = 0 \<and> rc_hiccups s = []
               \<and> (\<exists>cfs opts. cl_Open cl cfs opts ''/home/ubuntu/gp3/hyper_8M_1000w'' [] 0 = Some (rc_db s)
                    \<and> options_consistent opts \<and> create_if_missing opts \<and> statistics opts)))"
    (is "?same \<and> ?outcome")
proof
  show ?same using open_cloud_db_props [of cl props "[]"] by (simp add: RocksDBCloud_construct_def)
  show ?outcome
  proof (cases "latency_setup calloc output hiccup")
    case (Inl e)
    then show ?thesis by (simp add: RocksDBCloud_construct_def RocksDBCloud_new_def)
  next
    case (Inr hs)
    show ?thesis
    proof (cases "open_cloud_db cl props")
      case Inl': (Inl e)
      then show ?thesis
        using Inr open_cloud_db_stops [OF Inl']
        by (simp add: RocksDBCloud_construct_def RocksDBCloud_new_def case_prod_beta)
    next
      case Inr': (Inr store)
      obtain s where s: "RocksDBCloud_new calloc output hiccup qps (Inr store) = Inr s"
        using Inr by (simp add: RocksDBCloud_new_def case_prod_beta)
      have "rc_noResult s = 0" by (rule RocksDBCloud_new_cases [OF s]) simp
      then show ?thesis
        using s Inr Inr' RocksDBCloud_new_latencies(1-3) [OF s] open_cloud_db_opens [OF Inr' assms]
        by (simp add: RocksDBCloud_construct_def)
    qed
  qed
qed

definition plain_block :: block_table_options where
  "plain_block = \<lparr>bt_cache_index_and_filter_blocks = False, bt_initial_auto_readahead_size = 8192, bt_max_auto_readahead_size = 262144,
     bt_filter_policy = None, bt_block_cache = None, bt_block_size = 4096, bt_persistent_cache = None\<rparr>"

definition plain_options :: rocksdb_options where
  "plain_options = \<lparr>create_if_missing = False, statistics = False, compression = [], compaction_style = [],
     enable_pipelined_write = False, use_direct_reads = False, use_direct_io_for_flush_and_compaction = False,
     max_bytes_for_level_base = 0, write_buffer_size = 0, target_file_size_base = 0, max_background_compactions = 0,
     max_background_flushes = 0, level0_file_num_compaction_trigger = 4, level0_slowdown_writes_trigger = 20,
     level0_stop_writes_trigger = 36, compaction_readahead_size = 0, hyper_level = 0, db_paths = [],
     table_factory = plain_block\<rparr>"

definition plain_cloud :: "(unit, string \<Rightarrow> byte list option) cloud_lib" where
  "plain_cloud = \<lparr>cl_options = plain_options, cl_block_options = plain_block,
     cl_fs_options = \<lparr>src_bucket = ([], []), dest_bucket = ([], []), keep_local_sst_files = True\<rparr>,
     cl_NewAwsFileSystem = \<lambda>_ _ _ _ _ _ _. Some (), cl_Open = \<lambda>_ opts _ _ _. if statistics opts then Some Map.empty else None\<rparr>"

theorem RocksDBCloud_construct_outcome_witness:
  "\<exists>s. RocksDBCloud_construct plain_cloud (\<lambda>_ _. True) True True 0 [] [] = Inr s \<and> rc_noResult s = 0
     \<and> hdr_abs (rc_hdr_all s) {#} \<and> rc_db s = Map.empty"
proof -
  obtain hs where hs: "latency_setup (\<lambda>_ _. True) True True = Inr hs" using latency_setup_succeeds by blast
  have opened: "open_cloud_db plain_cloud [] = Inr Map.empty"
    by (simp add: open_cloud_db_def plain_cloud_def SetRocksdbEBSOptions_def)
  obtain s where s: "RocksDBCloud_construct plain_cloud (\<lambda>_ _. True) True True 0 [] [] = Inr s"
    using hs opened by (simp add: RocksDBCloud_construct_def RocksDBCloud_new_def case_prod_beta)
  have "triggers_ordered (cl_options plain_cloud)" by (simp add: triggers_ordered_def plain_cloud_def plain_options_def)
  from RocksDBCloud_construct_outcome [OF this, of "\<lambda>_ _. True" True True 0 "[]" "[]"] s hs
  show ?thesis by (auto simp: latencies_def latency_hist_def plain_cloud_def split: if_splits)
qed

end
