(* ===== verification/Ycsb_Program.thy ===== *)
theory Ycsb_Program
  imports Ycsb_Main Ycsb_Options
begin

text \<open>
  The program as a whole (\<open>ycsbc.cc\<close>, \<open>main\<close>): from the command line over the construction of the database
  and the phases to the end. What the system and the libraries answer is collected in one record. A run of the program is
  a relation, because the interleaving of the threads is not determined.
\<close>

section \<open>Runs of the program\<close>

record ('f, 's, 'e) program_env =
  pe_files :: "string \<Rightarrow> string option"
  pe_cloud :: "('f, 's) cloud_lib"
  pe_kv :: "'s kv_lib"
  pe_calloc :: "nat \<Rightarrow> int \<Rightarrow> bool"
  pe_output_opened :: bool
  pe_hiccup_opened :: bool
  pe_qps :: int
  pe_lib :: "'e random_lib"
  pe_rand :: "'e rand_env"
  pe_clock :: "nat \<Rightarrow> int \<times> int"

text \<open>The database of the factory: \<open>None\<close> is the reporting database, which has no state but its output.\<close>

definition main_open :: "('f, 's, 'e) program_env \<Rightarrow> properties \<Rightarrow> run_stop + 's rocksdb_cloud option" where
  "main_open pe props =
     andthen (CreateDB props) (\<lambda>db.
     andthen (or_stop Stop_Exit db) (\<lambda>choice.
       case choice of
         Choose_Basic \<Rightarrow> Inr None
       | Choose_RocksDBCloud dbpath \<Rightarrow>
           map_sum id Some (RocksDBCloud_construct (pe_cloud pe) (pe_calloc pe) (pe_output_opened pe) (pe_hiccup_opened pe)
             (pe_qps pe) dbpath props)))"

definition main_settings_of :: "properties \<Rightarrow> run_stop + main_settings" where
  "main_settings_of props =
     andthen (read_main_settings props) (\<lambda>ms. andthen (PrintInfo props) (\<lambda>info. Inr ms))"

text \<open>
  How the program ends: at the command line, by a stop, or after its reports. The last component says what
  ends it then, \<open>None\<close> when \<open>main\<close> returns.
\<close>

datatype main_outcome =
    Main_Usage cmd_exit
  | Main_Stops run_stop
  | Main_Reports "(int \<times> u64) list" "(operation \<times> u64 \<times> u64) list" "run_stop option"

definition main_end ::
    "('s, 'e) client_context \<Rightarrow> main_settings \<Rightarrow> run_stop option \<Rightarrow> run_stop + (int \<times> u64) list \<times> ('s, 'e) client_state \<Rightarrow> main_outcome" where
  "main_end cx ms joined r =
     (case r of
        Inl e \<Rightarrow> Main_Stops e
      | Inr (reports, s) \<Rightarrow>
          Main_Reports reports (if ms_run ms then operation_report s else [])
            (case main_finish cx ms s of Inl e \<Rightarrow> Some e | Inr _ \<Rightarrow> joined))"

definition cloud_context :: "('f, 's, 'e) program_env \<Rightarrow> ('s rocksdb_cloud, 'e) client_context" where
  "cloud_context pe = \<lparr>cx_db = RocksDBCloud (pe_kv pe), cx_lib = pe_lib pe, cx_clock = pe_clock pe\<rparr>"

definition basic_context :: "('f, 's, 'e) program_env \<Rightarrow> (basic_db, 'e) client_context" where
  "basic_context pe = \<lparr>cx_db = BasicDB, cx_lib = pe_lib pe, cx_clock = pe_clock pe\<rparr>"

text \<open>
  The constructor of the RocksDB-Cloud database starts the status threads that \<open>main\<close> joins; for the reporting
  database they were never started, and joining them throws.
\<close>

inductive main_run :: "('f, 's, 'e) program_env \<Rightarrow> string list \<Rightarrow> main_outcome \<Rightarrow> bool"
  for pe argv where
  usage: "ParseCommandLine (pe_files pe) argv (default_properties []) = Inl e \<Longrightarrow> main_run pe argv (Main_Usage e)"
| no_database: "ParseCommandLine (pe_files pe) argv (default_properties []) = Inr (fname, props) \<Longrightarrow>
    main_open pe props = Inl e \<Longrightarrow> main_run pe argv (Main_Stops e)"
| no_settings: "ParseCommandLine (pe_files pe) argv (default_properties []) = Inr (fname, props) \<Longrightarrow>
    main_open pe props = Inr db \<Longrightarrow> main_settings_of props = Inl e \<Longrightarrow> main_run pe argv (Main_Stops e)"
| cloud_runs: "ParseCommandLine (pe_files pe) argv (default_properties []) = Inr (fname, props) \<Longrightarrow>
    main_open pe props = Inr (Some d) \<Longrightarrow> main_settings_of props = Inr ms \<Longrightarrow>
    phases_run (cloud_context pe) props (ms_num_threads ms) (phases_of ms) (client_start d CoreWorkload (pe_rand pe)) r \<Longrightarrow>
    main_run pe argv (main_end (cloud_context pe) ms None r)"
| basic_runs: "ParseCommandLine (pe_files pe) argv (default_properties []) = Inr (fname, props) \<Longrightarrow>
    main_open pe props = Inr None \<Longrightarrow> main_settings_of props = Inr ms \<Longrightarrow>
    phases_run (basic_context pe) props (ms_num_threads ms) (phases_of ms) (client_start [] CoreWorkload (pe_rand pe)) r \<Longrightarrow>
    main_run pe argv (main_end (basic_context pe) ms (Some (Stop_Exn System_Error)) r)"

section \<open>Determined parts of a run\<close>

inductive_simps main_run_iff: "main_run pe argv x"

lemma main_run_cloud_iff:
  assumes "ParseCommandLine (pe_files pe) argv (default_properties []) = Inr (fname, props)"
    "main_open pe props = Inr (Some d)" "main_settings_of props = Inr ms"
  shows "main_run pe argv x \<longleftrightarrow>
    (\<exists>r. phases_run (cloud_context pe) props (ms_num_threads ms) (phases_of ms) (client_start d CoreWorkload (pe_rand pe)) r
      \<and> x = main_end (cloud_context pe) ms None r)"
  by (auto simp: main_run_iff assms)

lemma main_open_cloud:
  assumes "property_at props ''dbname'' = Inr ''rocksdb-cloud''" "latency_setup (pe_calloc pe) True True = Inr hs"
    "open_cloud_db (pe_cloud pe) props = Inr store" "pe_output_opened pe" "pe_hiccup_opened pe"
  shows "\<exists>d. main_open pe props = Inr (Some d) \<and> RocksDBCloud_new (pe_calloc pe) True True (pe_qps pe) (Inr store) = Inr d"
  using assms
  by (simp add: main_open_def CreateDB_def RocksDBCloud_construct_def RocksDBCloud_new_def case_prod_beta)

lemma main_settings_of_read:
  assumes "ParseCommandLine files argv (default_properties []) = Inr (fname, props)" "read_main_settings props = Inr ms"
  shows "main_settings_of props = Inr ms"
  using started_properties(1,2) [OF assms(1)] assms(2) by (auto simp: main_settings_of_def PrintInfo_def)

text \<open>The counts of the report by kind add up to the number of accounted operations.\<close>

lemma operation_report_total:
  assumes "accounted L (op_stats s)" "length L < 2 ^ 64"
  shows "(\<Sum>(op, c, t) \<leftarrow> operation_report s. unat c) = length L"
proof -
  let ?ops = "[INSERT, READ, UPDATE, SCAN, READMODIFYWRITE]"
  have cnt: "unat (sh_ops_cnt s op) = length (calls_of (record_code op) L)" for op
  proof -
    have "sh_ops_cnt s op = of_nat (length (calls_of (record_code op) L))"
      using assms(1) by (simp add: accounted_def op_stats_def)
    moreover have "length (calls_of (record_code op) L) < 2 ^ 64"
      using length_filter_le [of "\<lambda>c. fst c = record_code op" L] assms(2) by linarith
    ultimately show ?thesis by (simp add: unat_of_nat take_bit_nat_eq_self)
  qed
  have "(\<Sum>(op, c, t) \<leftarrow> operation_report s. unat c)
      = (\<Sum>op \<leftarrow> filter (\<lambda>op. sh_ops_cnt s op \<noteq> 0) ?ops. unat (sh_ops_cnt s op))"
    by (simp add: operation_report_def o_def case_prod_beta)
  also have "\<dots> = (\<Sum>op \<leftarrow> ?ops. unat (sh_ops_cnt s op))" by simp
  also have "\<dots> = length (calls_of 1 L) + length (calls_of 2 L) + length (calls_of 3 L) + length (calls_of 4 L) + length (calls_of 5 L)"
    by (simp add: cnt)
  also have "\<dots> = length L"
  proof -
    have "list_all (\<lambda>c. 1 \<le> fst c \<and> fst c \<le> 5) L" using assms(1) by (simp add: accounted_def)
    then show ?thesis by (induction L) auto
  qed
  finally show ?thesis .
qed

section \<open>A small run\<close>

definition small_file :: string where
  "small_file = ''recordcount=5'' @ newline @ ''operationcount=3'' @ newline @ ''fieldcount=2'' @ newline
     @ ''fieldlength=3'' @ newline @ ''insertorder=ordered'' @ newline"

definition small_argv :: "string list" where
  "small_argv = [''ycsbc'', ''-db'', ''rocksdb-cloud'', ''-load'', ''true'', ''-run'', ''true'', ''-threads'', ''5'', ''-P'', ''w'']"

definition small_benchmark :: properties where
  "small_benchmark = [(''dbname'', ''rocksdb-cloud''), (''dboption'', ''0''), (''dbpath'', []), (''dbstatistics'', ''false''),
     (''dbwaitforbalance'', ''false''), (''fieldcount'', ''2''), (''fieldlength'', ''3''), (''insertorder'', ''ordered''),
     (''load'', ''true''), (''operationcount'', ''3''), (''recordcount'', ''5''), (''run'', ''true''), (''threadcount'', ''5'')]"

definition small_main_settings :: main_settings where
  "small_main_settings = \<lparr>ms_load = True, ms_run = True, ms_num_threads = 5, ms_wait_for_balance = False\<rparr>"

definition small_program :: "(unit, string \<Rightarrow> byte list option, unit) program_env" where
  "small_program = \<lparr>pe_files = \<lambda>_. Some small_file, pe_cloud = plain_cloud, pe_kv = map_store, pe_calloc = \<lambda>_ _. True,
     pe_output_opened = True, pe_hiccup_opened = True, pe_qps = 0, pe_lib = least_lib,
     pe_rand = \<lparr>re_double = (), re_rand = ()\<rparr>, pe_clock = \<lambda>k. (0, int k)\<rparr>"

lemma small_benchmark_parsed:
  "ParseCommandLine (\<lambda>_. Some small_file) small_argv (default_properties []) = Inr (''w'', small_benchmark)"
  by code_simp

lemma small_benchmark_valid: "settings_valid small_benchmark small_settings"
  by (simp add: settings_valid_def small_benchmark_def workload_property_names GetProperty_def
      field_length_valid_def small_numbers read_settings_def StrToBool_def c_tolower_def small_settings_def some_operation_def
      key_distribution_valid_def Let_def c_clean_def)

lemma small_benchmark_main: "read_main_settings small_benchmark = Inr small_main_settings"
  by (simp add: read_main_settings_def small_benchmark_def small_main_settings_def GetProperty_def property_at_def small_numbers
      StrToBool_def c_tolower_def)

lemma plain_cloud_opens: "open_cloud_db plain_cloud props = Inr Map.empty"
  by (simp add: open_cloud_db_def plain_cloud_def SetRocksdbEBSOptions_def)

end
