(* ===== verification/Ycsb_Simulation.thy ===== *)
theory Ycsb_Simulation
  imports Ycsb_Main
begin

text \<open>
  Databases that simulate each other: when every call of one database commutes with a translation of its
  state into the state of another, the client cannot tell them apart. The same rounds, the same
  interleavings and the same stops are possible on both, and the contracts of one hold for the other.
\<close>

section \<open>Calls that commute with a translation\<close>

lemma map_andthen: "map_sum id g (andthen r f) = andthen r (\<lambda>x. map_sum id g (f x))"
  by (cases r) simp_all

lemma andthen_map: "andthen (map_sum id h r) f = andthen r (\<lambda>x. f (h x))"
  by (cases r) simp_all

lemma map_sum_Inr: "map_sum id f r = Inr y \<longleftrightarrow> (\<exists>x. r = Inr x \<and> y = f x)"
  by (cases r) auto

lemma map_sum_Inl: "map_sum id f r = Inl e \<longleftrightarrow> r = Inl e"
  by (cases r) auto

abbreviation with_state :: "('s \<Rightarrow> 't) \<Rightarrow> run_stop + 'a \<times> 's \<Rightarrow> run_stop + 'a \<times> 't" where
  "with_state view \<equiv> map_sum id (map_prod id view)"

definition client_view :: "('s \<Rightarrow> 't) \<Rightarrow> ('s, 'e) client_state \<Rightarrow> ('t, 'e) client_state" where
  "client_view view s =
     \<lparr>sh_db = view (sh_db s), sh_wl = sh_wl s, sh_env = sh_env s, sh_readings = sh_readings s,
      sh_ops_cnt = sh_ops_cnt s, sh_ops_time = sh_ops_time s, sh_insert_counter = sh_insert_counter s,
      sh_tiktok_start = sh_tiktok_start s, sh_tiktoks = sh_tiktoks s, sh_iops = sh_iops s\<rparr>"

definition context_of :: "'t db_ops \<Rightarrow> ('s, 'e) client_context \<Rightarrow> ('t, 'e) client_context" where
  "context_of db cx = \<lparr>cx_db = db, cx_lib = cx_lib cx, cx_clock = cx_clock cx\<rparr>"

lemma context_of_simps [simp]:
  "cx_db (context_of db cx) = db" "cx_lib (context_of db cx) = cx_lib cx" "cx_clock (context_of db cx) = cx_clock cx"
  by (simp_all add: context_of_def)

lemma client_view_simps [simp]:
  "sh_db (client_view v s) = v (sh_db s)" "sh_wl (client_view v s) = sh_wl s" "sh_env (client_view v s) = sh_env s"
  "sh_insert_counter (client_view v s) = sh_insert_counter s" "sh_tiktok_start (client_view v s) = sh_tiktok_start s"
  "sh_iops (client_view v s) = sh_iops s" "op_stats (client_view v s) = op_stats s"
  by (simp_all add: client_view_def op_stats_def)

lemma client_view_update:
  "(client_view v s)\<lparr>sh_wl := wl, sh_env := env\<rparr> = client_view v (s\<lparr>sh_wl := wl, sh_env := env\<rparr>)"
  "(client_view v s)\<lparr>sh_db := v d\<rparr> = client_view v (s\<lparr>sh_db := d\<rparr>)"
  "(client_view v s)\<lparr>sh_insert_counter := c\<rparr> = client_view v (s\<lparr>sh_insert_counter := c\<rparr>)"
  "(client_view v s)\<lparr>sh_tiktok_start := t\<rparr> = client_view v (s\<lparr>sh_tiktok_start := t\<rparr>)"
  "(client_view v s)\<lparr>sh_tiktoks := x, sh_iops := y\<rparr> = client_view v (s\<lparr>sh_tiktoks := x, sh_iops := y\<rparr>)"
  "(client_view v s)\<lparr>sh_tiktok_start := t, sh_tiktoks := x, sh_iops := y\<rparr>
     = client_view v (s\<lparr>sh_tiktok_start := t, sh_tiktoks := x, sh_iops := y\<rparr>)"
  "account op dt (client_view v s) = client_view v (account op dt s)"
  by (simp_all add: client_view_def account_def)

lemma get_now_micros_view:
  "get_now_micros (context_of db cx) (client_view v s) = map_prod id (client_view v) (get_now_micros cx s)"
  by (simp add: get_now_micros_def client_view_def case_prod_beta)

lemma on_wl_view: "on_wl f (client_view v s) = with_state (client_view v) (on_wl f s)"
  by (cases "f (sh_wl s) (sh_env s)") (auto simp: on_wl_def client_view_update)

lemma on_db_view:
  assumes "\<And>d. g (v d) = with_state v (f d)"
  shows "on_db g (client_view v s) = with_state (client_view v) (on_db f s)"
  by (simp add: on_db_def assms map_andthen andthen_map case_prod_beta client_view_update)

text \<open>The steps and the stops of the threads by the kind of step.\<close>

inductive_simps client_step_iff: "client_step cx (ths, s) (ths', s')"

inductive_simps client_stop_iff: "client_stop cx (ths, s) e"

section \<open>The interface\<close>

locale database_simulation =
  fixes db :: "'s db_ops" and db' :: "'t db_ops" and view :: "'s \<Rightarrow> 't"
  assumes sim_Init: "db_Init db' (view d) = map_sum id view (db_Init db d)"
    and sim_Close: "db_Close db' (view d) = map_sum id view (db_Close db d)"
    and sim_Read: "db_Read db' table key flds result (view d)
      = map_sum id (map_prod id (map_prod id view)) (db_Read db table key flds result d)"
    and sim_Scan: "db_Scan db' table key len flds results (view d)
      = map_sum id (map_prod id (map_prod id view)) (db_Scan db table key len flds results d)"
    and sim_Update: "db_Update db' table key kvs (view d) = with_state view (db_Update db table key kvs d)"
    and sim_Insert: "db_Insert db' table key kvs (view d) = with_state view (db_Insert db table key kvs d)"
    and sim_Delete: "db_Delete db' table key (view d) = with_state view (db_Delete db table key d)"
    and sim_balanced: "db_HaveBalancedDistribution db' (view d) = db_HaveBalancedDistribution db d"
    and sim_PrintStats: "db_PrintStats db' (view d) = map_sum id view (db_PrintStats db d)"
    and sim_RecordTime: "db_RecordTime db' op t (view d) = map_sum id view (db_RecordTime db op t d)"
    and sim_hiccup: "db_latency_hiccup db' iops (view d) = map_sum id view (db_latency_hiccup db iops d)"
begin

text \<open>What holds for calls of the other database holds for the calls of this one.\<close>

lemma database_view:
  assumes "database db' I K"
  shows "database db (\<lambda>n d. I n (view d)) K"
proof
  fix n d
  assume I: "I n (view d)"
  note laws = database.init [OF assms I] database.close [OF assms I] database.hiccup [OF assms I]
  show "\<exists>d'. db_Init db d = Inr d' \<and> I n (view d')" "\<exists>d'. db_Close db d = Inr d' \<and> I n (view d')"
    "\<exists>d'. db_latency_hiccup db iops d = Inr d' \<and> I n (view d')" for iops
    using laws(1,2) laws(3) [of iops] by (auto simp: sim_Init sim_Close sim_hiccup map_sum_Inr)
  show "\<exists>c r d'. db_Read db table key flds result d = Inr (c, r, d') \<and> 0 \<le> c \<and> I n (view d')" if "K key" for table key flds result
    using database.read [OF assms that I, of table flds result] by (force simp: sim_Read map_sum_Inr)
  show "\<exists>c r d'. db_Scan db table key len flds results d = Inr (c, r, d') \<and> 0 \<le> c \<and> I n (view d')" for table key len flds results
    using database.scan [OF assms I, of table key len flds results] by (force simp: sim_Scan map_sum_Inr)
  fix kvs :: "kvpair list" and table key
  assume kvs: "length kvs < 2 ^ 32" "list_all pair_fits kvs"
  show "\<exists>c d'. db_Update db table key kvs d = Inr (c, d') \<and> 0 \<le> c \<and> I n (view d')"
    using database.update [OF assms I kvs, of table key] by (force simp: sim_Update map_sum_Inr)
  show "\<exists>c d'. db_Insert db table key kvs d = Inr (c, d') \<and> 0 \<le> c \<and> I n (view d')"
    using database.insert [OF assms I kvs, of table key] by (force simp: sim_Insert map_sum_Inr)
next
  fix n d op t
  assume "I (Suc n) (view d)"
  from database.record_time [OF assms this, of op t]
  show "\<exists>d'. db_RecordTime db op t d = Inr d' \<and> I n (view d')" by (auto simp: sim_RecordTime map_sum_Inr)
qed

lemma timed_database_view:
  assumes "timed_database db' I K T"
  shows "timed_database db (\<lambda>n d. I n (view d)) K (\<lambda>L d. T L (view d))"
proof (intro timed_database.intro timed_database_axioms.intro)
  show "database db (\<lambda>n d. I n (view d)) K" by (rule database_view [OF timed_database.axioms(1) [OF assms]])
  fix L d d' table key flds c
  assume T: "T L (view d)"
  show "db_Init db d = Inr d' \<Longrightarrow> T L (view d')" "db_Close db d = Inr d' \<Longrightarrow> T L (view d')"
    using timed_database.timed_init [OF assms T] timed_database.timed_close [OF assms T] by (auto simp: sim_Init sim_Close)
  show "db_latency_hiccup db iops d = Inr d' \<Longrightarrow> T L (view d')" for iops
    using timed_database.timed_hiccup [OF assms T, of iops "view d'"] by (simp add: sim_hiccup)
  show "db_Read db table key flds result d = Inr (c, r, d') \<Longrightarrow> T L (view d')" for result r
    using timed_database.timed_read [OF assms T, of table key flds result c r "view d'"] by (simp add: sim_Read)
  show "db_Scan db table key len flds results d = Inr (c, rs, d') \<Longrightarrow> T L (view d')" for len results rs
    using timed_database.timed_scan [OF assms T, of table key len flds results c rs "view d'"] by (simp add: sim_Scan)
  show "db_Update db table key kvs d = Inr (c, d') \<Longrightarrow> T L (view d')" for kvs
    using timed_database.timed_update [OF assms T, of table key kvs c "view d'"] by (simp add: sim_Update)
  show "db_Insert db table key kvs d = Inr (c, d') \<Longrightarrow> T L (view d')" for kvs
    using timed_database.timed_insert [OF assms T, of table key kvs c "view d'"] by (simp add: sim_Insert)
  show "I (Suc n) (view d) \<Longrightarrow> db_RecordTime db op t d = Inr d' \<Longrightarrow> T (L @ [(op, t)]) (view d')" for n op t
    using timed_database.timed_record [OF assms T, of n op t "view d'"] by (simp add: sim_RecordTime)
qed

abbreviation lift :: "('s, 'e) client_state \<Rightarrow> ('t, 'e) client_state" where
  "lift \<equiv> client_view view"

abbreviation other :: "('s, 'e) client_context \<Rightarrow> ('t, 'e) client_context" where
  "other \<equiv> context_of db'"

lemma calls_view:
  assumes "cx_db cx = db"
  shows "read_call (other cx) table key flds (view d) = with_state view (read_call cx table key flds d)"
    "scan_call (other cx) table key len flds (view d) = with_state view (scan_call cx table key len flds d)"
    "record_call (other cx) code t (view d) = with_state view (record_call cx code t d)"
    "hiccup_call (other cx) iops (view d) = with_state view (hiccup_call cx iops d)"
  using assms
  by (simp_all add: read_call_def scan_call_def record_call_def hiccup_call_def sim_Read sim_Scan sim_RecordTime
      sim_hiccup sum.map_comp o_def case_prod_beta)

lemma on_calls_view:
  assumes "cx_db cx = db"
  shows "on_db (read_call (other cx) table key flds) (lift s) = with_state lift (on_db (read_call cx table key flds) s)"
    "on_db (scan_call (other cx) table key len flds) (lift s) = with_state lift (on_db (scan_call cx table key len flds) s)"
    "on_db (record_call (other cx) code t) (lift s) = with_state lift (on_db (record_call cx code t) s)"
    "on_db (hiccup_call (other cx) iops) (lift s) = with_state lift (on_db (hiccup_call cx iops) s)"
    "on_db (db_Update db' table key kvs) (lift s) = with_state lift (on_db (db_Update db table key kvs) s)"
    "on_db (db_Insert db' table key kvs) (lift s) = with_state lift (on_db (db_Insert db table key kvs) s)"
  by (rule on_db_view, simp add: calls_view [OF assms] sim_Update sim_Insert)+

lemma fields_to_read_view: "fields_to_read (other cx) (lift s) = with_state lift (fields_to_read cx s)"
  by (simp add: fields_to_read_def on_wl_view andthen_map map_andthen case_prod_beta)

lemma values_to_write_view: "values_to_write (other cx) (lift s) = with_state lift (values_to_write cx s)"
  by (simp add: values_to_write_def on_wl_view)

lemmas push_view = on_wl_view fields_to_read_view values_to_write_view andthen_map map_andthen case_prod_beta client_view_update

lemma DoInsert_view: "cx_db cx = db \<Longrightarrow> DoInsert (other cx) (lift s) = with_state lift (DoInsert cx s)"
  by (simp add: DoInsert_def push_view on_calls_view)

lemma Transaction_view:
  assumes "cx_db cx = db"
  shows "Transaction (other cx) op (lift s) = with_state lift (Transaction cx op s)"
  using assms
  by (cases op) (simp_all add: TransactionRead_def TransactionUpdate_def TransactionInsert_def TransactionScan_def
      TransactionReadModifyWrite_def Let_def push_view on_calls_view)

lemma DoTransaction_view:
  assumes "cx_db cx = db"
  shows "DoTransaction (other cx) (lift s) = with_state lift (DoTransaction cx s)"
  unfolding DoTransaction_def Let_def
  by (simp add: push_view get_now_micros_view Transaction_view [OF assms] on_calls_view [OF assms] if_distrib cong: if_cong)

section \<open>Rounds, steps and phases\<close>

lemma after_transaction_view:
  "cx_db cx = db \<Longrightarrow> after_transaction (other cx) num (lift s) = map_sum id lift (after_transaction cx num s)"
  unfolding after_transaction_def Let_def
  by (simp add: push_view get_now_micros_view on_calls_view if_distrib [of "map_sum id lift"] cong: if_cong)

lemma client_round_view:
  "cx_db cx = db \<Longrightarrow> client_round (other cx) th (lift s) = with_state lift (client_round cx th s)"
  unfolding client_round_def
  by (simp add: push_view DoInsert_view DoTransaction_view after_transaction_view if_distrib [of "with_state lift"] cong: if_cong)

lemma thread_start_view: "cx_db cx = db \<Longrightarrow> thread_start (other cx) (lift s) = map_sum id lift (thread_start cx s)"
  by (auto simp: thread_start_def sim_Init push_view Let_def get_now_micros_view split: option.splits
      intro!: arg_cong [where f = "andthen _"])

lemma thread_finish_view: "cx_db cx = db \<Longrightarrow> thread_finish (other cx) (lift s) = map_sum id lift (thread_finish cx s)"
  by (simp add: thread_finish_def sim_Close push_view)

lemma client_step_view:
  assumes "cx_db cx = db"
  shows "client_step (other cx) (ths, lift s) (ths', t) \<longleftrightarrow> (\<exists>s'. client_step cx (ths, s) (ths', s') \<and> t = lift s')"
  unfolding client_step_iff
  by (auto simp: thread_start_view [OF assms] thread_finish_view [OF assms] client_round_view [OF assms] map_sum_Inr)

lemma client_steps_view:
  assumes "cx_db cx = db"
  shows "(client_step (other cx))\<^sup>*\<^sup>* (ths, lift s) (ths', t) \<longleftrightarrow> (\<exists>s'. (client_step cx)\<^sup>*\<^sup>* (ths, s) (ths', s') \<and> t = lift s')"
    (is "?other \<longleftrightarrow> ?own")
proof
  show "?other \<Longrightarrow> ?own"
  proof (induction "(ths', t)" arbitrary: ths' t rule: rtranclp_induct)
    case base
    then show ?case by blast
  next
    case (step y)
    obtain ths1 t1 where y: "y = (ths1, t1)" by (cases y)
    from step(3) [OF y] obtain s1 where s1: "(client_step cx)\<^sup>*\<^sup>* (ths, s) (ths1, s1)" "t1 = lift s1" by blast
    from step(2) [unfolded y s1(2) client_step_view [OF assms]] obtain s2
      where "client_step cx (ths1, s1) (ths', s2)" "t = lift s2" by blast
    with rtranclp.rtrancl_into_rtrancl [OF s1(1)] show ?case by blast
  qed
  have "(client_step cx)\<^sup>*\<^sup>* (ths, s) (ths', s') \<Longrightarrow> (client_step (other cx))\<^sup>*\<^sup>* (ths, lift s) (ths', lift s')" for s'
  proof (induction "(ths', s')" arbitrary: ths' s' rule: rtranclp_induct)
    case (step y)
    obtain ths1 s1 where y: "y = (ths1, s1)" by (cases y)
    from step(2) y client_step_view [OF assms] have "client_step (other cx) (ths1, lift s1) (ths', lift s')" by blast
    with rtranclp.rtrancl_into_rtrancl [OF step(3) [OF y]] show ?case by blast
  qed simp
  then show "?own \<Longrightarrow> ?other" by blast
qed

lemma client_stop_view: "cx_db cx = db \<Longrightarrow> client_stop (other cx) (ths, lift s) e \<longleftrightarrow> client_stop cx (ths, s) e"
  unfolding client_stop_iff
  by (auto simp: thread_start_view thread_finish_view client_round_view map_sum_Inl)

section \<open>The whole benchmark\<close>

lemma threads_run_forth:
  assumes "cx_db cx = db" "threads_run cx total_ops n loading s r"
  shows "threads_run (other cx) total_ops n loading (lift s) (with_state lift r)"
  using assms(2)
proof cases
  case (all_return ths s')
  with client_steps_view [OF assms(1)] have "(client_step (other cx))\<^sup>*\<^sup>* (spawn total_ops (nat n) loading, lift s) (ths, lift s')" by blast
  from threads_run.all_return [OF all_return(2) this all_return(4)] all_return(1) show ?thesis by simp
next
  case (one_stops ths s' e)
  with client_steps_view [OF assms(1)] have "(client_step (other cx))\<^sup>*\<^sup>* (spawn total_ops (nat n) loading, lift s) (ths, lift s')" by blast
  moreover have "client_stop (other cx) (ths, lift s') e" using one_stops(4) client_stop_view [OF assms(1)] by blast
  ultimately show ?thesis using threads_run.one_stops [OF one_stops(2)] one_stops(1) by simp
qed (simp add: threads_run.no_futures)

lemma threads_run_back:
  assumes "cx_db cx = db" "threads_run (other cx) total_ops n loading (lift s) r'"
  shows "\<exists>r. threads_run cx total_ops n loading s r \<and> r' = with_state lift r"
  using assms(2)
proof cases
  case (all_return ths t)
  from all_return(3) client_steps_view [OF assms(1)] obtain s'
    where s': "(client_step cx)\<^sup>*\<^sup>* (spawn total_ops (nat n) loading, s) (ths, s')" "t = lift s'" by blast
  from threads_run.all_return [OF all_return(2) s'(1) all_return(4)] all_return(1) s'(2)
  show ?thesis by (intro exI [of _ "Inr (join_threads ths, s')"]) simp
next
  case (one_stops ths t e)
  from one_stops(3) client_steps_view [OF assms(1)] obtain s'
    where s': "(client_step cx)\<^sup>*\<^sup>* (spawn total_ops (nat n) loading, s) (ths, s')" "t = lift s'" by blast
  from threads_run.one_stops [OF one_stops(2) s'(1)] one_stops(1,4) s'(2) client_stop_view [OF assms(1)]
  show ?thesis by (intro exI [of _ "Inl e"]) simp
next
  case no_futures
  then show ?thesis using threads_run.no_futures by (intro exI [of _ "Inl Stop_Assert"]) simp
qed

lemma phase_setup_view:
  "phase_setup (other cx) props loading (lift s)
     = map_sum id (map_prod id (map_prod id lift)) (phase_setup cx props loading s)"
  unfolding phase_setup_def map_andthen
  by (intro arg_cong2 [where f = andthen] ext refl)
    (auto simp: map_andthen client_view_update get_now_micros_view case_prod_beta map_prod_def split: prod.splits)

lemma benchmark_phase_forth:
  assumes "cx_db cx = db" "benchmark_phase cx props n loading s r"
  shows "benchmark_phase (other cx) props n loading (lift s) (with_state lift r)"
  using assms(2)
proof cases
  case (setup_stops e)
  then show ?thesis by (auto simp: phase_setup_view intro: benchmark_phase.setup_stops)
next
  case (threads_stop total_ops start s1 e)
  then show ?thesis
    using benchmark_phase.threads_stop [where cx = "other cx" and s = "lift s"] threads_run_forth [OF assms(1) threads_stop(3)]
    by (simp add: phase_setup_view)
next
  case (phase_reports total_ops start s1 oks s2 now s3)
  then show ?thesis
    using benchmark_phase.phase_reports [where cx = "other cx" and s = "lift s"] threads_run_forth [OF assms(1) phase_reports(3)]
    by (simp add: phase_setup_view get_now_micros_view)
qed

lemma benchmark_phase_back:
  assumes "cx_db cx = db" "benchmark_phase (other cx) props n loading (lift s) r'"
  shows "\<exists>r. benchmark_phase cx props n loading s r \<and> r' = with_state lift r"
  using assms(2)
proof cases
  case (setup_stops e)
  then show ?thesis
    by (intro exI [of _ "Inl e"]) (auto simp: phase_setup_view map_sum_Inl intro: benchmark_phase.setup_stops)
next
  case (threads_stop total_ops start t1 e)
  then obtain s1 where s1: "phase_setup cx props loading s = Inr (total_ops, start, s1)" "t1 = lift s1"
    by (auto simp: phase_setup_view map_sum_Inr)
  have "threads_run cx total_ops n loading s1 (Inl e)"
    using threads_run_back [OF assms(1) threads_stop(3) [unfolded s1(2)]] by (auto simp: map_sum_Inl dest: sym)
  with s1 threads_stop(1) show ?thesis
    by (intro exI [of _ "Inl e"]) (auto intro: benchmark_phase.threads_stop)
next
  case (phase_reports total_ops start t1 oks t2 now t3)
  then obtain s1 where s1: "phase_setup cx props loading s = Inr (total_ops, start, s1)" "t1 = lift s1"
    by (auto simp: phase_setup_view map_sum_Inr)
  obtain s2 where s2: "threads_run cx total_ops n loading s1 (Inr (oks, s2))" "t2 = lift s2"
    using threads_run_back [OF assms(1) phase_reports(3) [unfolded s1(2)]] by (auto simp: map_sum_Inr map_prod_def eq_commute [of "Inr _"])
  obtain s3 where s3: "get_now_micros cx s2 = (now, s3)" "t3 = lift s3"
    using phase_reports(4) s2(2) by (cases "get_now_micros cx s2") (simp add: get_now_micros_view)
  from benchmark_phase.phase_reports [OF s1(1) s2(1) s3(1)] phase_reports(1) s3(2)
  show ?thesis by (intro exI [of _ "Inr ((oks, now - start), s3)"]) simp
qed

lemma phases_run_forth:
  assumes "cx_db cx = db" "phases_run cx props n bs s r"
  shows "phases_run (other cx) props n bs (lift s) (with_state lift r)"
  using assms(2)
proof induction
  case (first_reports b s r s1 bs rs s2)
  then show ?case
    using benchmark_phase_forth [OF assms(1) first_reports(1)] phases_run.first_reports [where cx = "other cx"] by simp
next
  case (first_stops b s e bs)
  then show ?case using benchmark_phase_forth [OF assms(1) first_stops(1)] phases_run.first_stops [where cx = "other cx"] by simp
next
  case (later_stops b s r s1 bs e)
  then show ?case
    using benchmark_phase_forth [OF assms(1) later_stops(1)] phases_run.later_stops [where cx = "other cx"] by simp
qed (simp add: phases_run.no_phase)

lemma phases_run_back:
  assumes "cx_db cx = db" "phases_run (other cx) props n bs (lift s) r'"
  shows "\<exists>r. phases_run cx props n bs s r \<and> r' = with_state lift r"
  using assms(2)
proof (induction bs "lift s" r' arbitrary: s rule: phases_run.induct)
  case no_phase
  then show ?case by (intro exI [of _ "Inr ([], s)"]) (simp add: phases_run.no_phase)
next
  case (first_stops b e bs)
  then show ?case using benchmark_phase_back [OF assms(1) first_stops(1)]
    by (intro exI [of _ "Inl e"]) (auto simp: map_sum_Inl eq_commute [of "Inl _"] intro: phases_run.first_stops)
next
  case (first_reports b r t1 bs rs t2)
  obtain s1 where s1: "benchmark_phase cx props n b s (Inr (r, s1))" "t1 = lift s1"
    using benchmark_phase_back [OF assms(1) first_reports(1)] by (auto simp: map_sum_Inr map_prod_def eq_commute [of "Inr _"])
  obtain s2 where s2: "phases_run cx props n bs s1 (Inr (rs, s2))" "t2 = lift s2"
    using first_reports(3) [OF s1(2)] by (auto simp: map_sum_Inr map_prod_def eq_commute [of "Inr _"])
  from phases_run.first_reports [OF s1(1) s2(1)] s2(2) show ?case
    by (intro exI [of _ "Inr (r # rs, s2)"]) simp
next
  case (later_stops b r t1 bs e)
  obtain s1 where s1: "benchmark_phase cx props n b s (Inr (r, s1))" "t1 = lift s1"
    using benchmark_phase_back [OF assms(1) later_stops(1)] by (auto simp: map_sum_Inr map_prod_def eq_commute [of "Inr _"])
  have "phases_run cx props n bs s1 (Inl e)"
    using later_stops(3) [OF s1(2)] by (auto simp: map_sum_Inl eq_commute [of "Inl _"])
  from phases_run.later_stops [OF s1(1) this] show ?case by (intro exI [of _ "Inl e"]) simp
qed

lemma wait_for_balance_view:
  "cx_db cx = db \<Longrightarrow> wait_for_balance (other cx) (lift s) = map_sum id lift (wait_for_balance cx s)"
  by (simp add: wait_for_balance_def sim_PrintStats sim_balanced push_view)

lemma main_finish_view:
  "cx_db cx = db \<Longrightarrow> main_finish (other cx) ms (lift s) = map_sum id lift (main_finish cx ms s)"
  by (cases "ms_wait_for_balance ms"; cases "ms_load ms")
    (simp_all add: main_finish_def wait_for_balance_view sim_PrintStats push_view)

end

end
