(* ===== verification/Ycsb_Rocksdb.thy ===== *)
theory Ycsb_Rocksdb
  imports Ycsb_Simulation Ycsb_Options
begin

text \<open>
  The database over a plain RocksDB store (\<open>db/rocksdb_db.cc\<close>, \<open>db/rocksdb_db.h\<close>): the class \<open>RocksDB\<close>
  with its constructor and the virtual methods. It serialises records as the RocksDB-Cloud database does and
  keeps the same histograms, so the whole benchmark behaves alike on both; this is shown with the
  simulation of \<open>Ycsb_Simulation\<close>.
\<close>

section \<open>The class\<close>

record 's rocksdb =
  rd_qps :: int
  rd_hdr_all :: hdr_histogram
  rd_hdr_last_1s :: hdr_histogram
  rd_hdr_get :: hdr_histogram
  rd_hdr_put :: hdr_histogram
  rd_hdr_update :: hdr_histogram
  rd_hdr_scan :: hdr_histogram
  rd_hdr_rmw :: hdr_histogram
  rd_hiccups :: "hiccup_line list"
  rd_db :: 's
  rd_noResult :: u32

definition RD_latency_hiccup :: "u64 \<Rightarrow> 's rocksdb \<Rightarrow> run_stop + 's rocksdb" where
  "RD_latency_hiccup iops s =
     andthen (or_stop Stop_Undefined (hdr_mean (rd_hdr_last_1s s))) (\<lambda>m.
     andthen (or_stop Stop_Undefined (hdr_value_at_percentile (rd_hdr_last_1s s) 95)) (\<lambda>p95.
     andthen (or_stop Stop_Undefined (hdr_value_at_percentile (rd_hdr_last_1s s) 99)) (\<lambda>p99.
     andthen (or_stop Stop_Undefined (hdr_value_at_percentile (rd_hdr_last_1s s) (9999 / 100))) (\<lambda>p9999.
       let line = \<lparr>hl_mean = m, hl_95 = p95, hl_99 = p99, hl_9999 = p9999, hl_qps = rd_qps s\<rparr> in
       Inr (s\<lparr>rd_hiccups := rd_hiccups s @ [line], rd_hdr_last_1s := hdr_reset (rd_hdr_last_1s s), rd_qps := 0\<rparr>)))))"

text \<open>
  The constructor; \<open>open_db\<close> is the answer of the store to the options and the path, \<open>None\<close> when its status is
  not OK, which ends the process.
\<close>

record 's rocksdb_lib =
  rl_options :: rocksdb_options
  rl_block_options :: block_table_options
  rl_cache_made :: bool
  rl_Open :: "rocksdb_options \<Rightarrow> string \<Rightarrow> 's option"

definition RocksDB_new ::
    "'s rocksdb_lib \<Rightarrow> (nat \<Rightarrow> int \<Rightarrow> bool) \<Rightarrow> bool \<Rightarrow> bool \<Rightarrow> int \<Rightarrow> string \<Rightarrow> properties \<Rightarrow> run_stop + 's rocksdb" where
  "RocksDB_new rl calloc output_opened hiccup_opened qps dbfilename props =
     andthen (latency_setup calloc output_opened hiccup_opened)
       (\<lambda>(hdr, hdr_last_1s, hdr_get, hdr_put, hdr_update, hdr_scan, hdr_rmw).
     andthen (SetOptions (rl_block_options rl) (rl_cache_made rl) props (rl_options rl)) (\<lambda>options.
       case rl_Open rl options dbfilename of
         None \<Rightarrow> Inl Stop_Exit
       | Some db \<Rightarrow>
           Inr \<lparr>rd_qps = qps, rd_hdr_all = hdr, rd_hdr_last_1s = hdr_last_1s, rd_hdr_get = hdr_get, rd_hdr_put = hdr_put,
                rd_hdr_update = hdr_update, rd_hdr_scan = hdr_scan, rd_hdr_rmw = hdr_rmw, rd_hiccups = [],
                rd_db = db, rd_noResult = 0\<rparr>))"

text \<open>The format of the records, written pair by pair and read with the offset as the state of the loop.\<close>

definition RD_put_pair :: "kvpair \<Rightarrow> byte list \<Rightarrow> byte list" where
  "RD_put_pair = (\<lambda>(k, v) out.
     PutFixed64 (PutFixed64 out (of_nat (length k)) @ string_bytes k) (of_nat (length v)) @ string_bytes v)"

definition RD_SerializeValues :: "kvpair list \<Rightarrow> byte list option" where
  "RD_SerializeValues kvs =
     (if length kvs < 2 ^ 32 then Some (fold RD_put_pair kvs (PutFixed64 [] (of_nat (length kvs)))) else None)"

definition RD_get_pair :: "byte list \<Rightarrow> nat \<times> kvpair list \<Rightarrow> (nat \<times> kvpair list) option" where
  "RD_get_pair buf = (\<lambda>(offset, kvs). do {
     key_size \<leftarrow> DecodeFixed64 (drop offset buf);
     key \<leftarrow> assign_from buf (offset + 8) key_size;
     value_size \<leftarrow> DecodeFixed64 (drop (offset + 8 + unat key_size) buf);
     v \<leftarrow> assign_from buf (offset + 8 + unat key_size + 8) value_size;
     Some (offset + 8 + unat key_size + 8 + unat value_size, kvs @ [(key, v)])
   })"

definition RD_DeSerializeValues :: "byte list \<Rightarrow> kvpair list \<Rightarrow> kvpair list option" where
  "RD_DeSerializeValues v kvs =
     (let buf = v @ [0] in do {
        kv_num \<leftarrow> DecodeFixed64 buf;
        map_option snd (((\<lambda>state. Option.bind state (RD_get_pair buf)) ^^ unat kv_num) (Some (8, kvs)))
      })"

definition RD_Read ::
    "'s kv_lib \<Rightarrow> string \<Rightarrow> string \<Rightarrow> string list option \<Rightarrow> kvpair list \<Rightarrow> 's rocksdb
       \<Rightarrow> run_stop + int \<times> kvpair list \<times> 's rocksdb" where
  "RD_Read lib table key flds result s =
     (let (status, v) = kv_Get lib (rd_db s) key in
      if status = KV_OK then andthen (or_stop Stop_Undefined (RD_DeSerializeValues v result)) (\<lambda>r. Inr (kOK, r, s))
      else if status = KV_NotFound then Inr (kOK, result, s\<lparr>rd_noResult := rd_noResult s + 1\<rparr>)
      else Inl Stop_Exit)"

text \<open>What the loop of \<open>Scan\<close> reads is overwritten in the next round and never given to the caller.\<close>

definition RD_Scan ::
    "'s kv_lib \<Rightarrow> string \<Rightarrow> string \<Rightarrow> int \<Rightarrow> string list option \<Rightarrow> kvpair list list \<Rightarrow> 's rocksdb
       \<Rightarrow> run_stop + int \<times> kvpair list list \<times> 's rocksdb" where
  "RD_Scan lib table key len flds results s =
     (let kv = rc_scan_loop (nat len) (kv_Seek lib (rd_db s) key) ([], []) in Inr (kOK, results, s))"

definition RD_Insert ::
    "'s kv_lib \<Rightarrow> string \<Rightarrow> string \<Rightarrow> kvpair list \<Rightarrow> 's rocksdb \<Rightarrow> run_stop + int \<times> 's rocksdb" where
  "RD_Insert lib table key kvs s =
     andthen (or_stop Stop_Diverges (RD_SerializeValues kvs)) (\<lambda>v.
       let (status, store) = kv_Put lib (rd_db s) key v in
       if status \<noteq> KV_OK then Inl Stop_Exit else Inr (kOK, s\<lparr>rd_db := store\<rparr>))"

definition RD_Update ::
    "'s kv_lib \<Rightarrow> string \<Rightarrow> string \<Rightarrow> kvpair list \<Rightarrow> 's rocksdb \<Rightarrow> run_stop + int \<times> 's rocksdb" where
  "RD_Update lib table key kvs s = RD_Insert lib table key kvs s"

definition RD_Delete :: "'s kv_lib \<Rightarrow> string \<Rightarrow> string \<Rightarrow> 's rocksdb \<Rightarrow> run_stop + int \<times> 's rocksdb" where
  "RD_Delete lib table key s =
     (let (status, store) = kv_Delete lib (rd_db s) key in
      if status \<noteq> KV_OK then Inl Stop_Exit else Inr (kOK, s\<lparr>rd_db := store\<rparr>))"

text \<open>The rows of \<open>PrintStats\<close>: one number per histogram.\<close>

definition RD_row :: "(hdr_histogram \<Rightarrow> 'a option) \<Rightarrow> 's rocksdb \<Rightarrow> 'a list option" where
  "RD_row f s = those [f (rd_hdr_all s), f (rd_hdr_get s), f (rd_hdr_put s), f (rd_hdr_update s), f (rd_hdr_scan s), f (rd_hdr_rmw s)]"

definition RD_summary :: "'s rocksdb \<Rightarrow> (real list \<times> int list \<times> int list \<times> int list) option" where
  "RD_summary s = do {
     means \<leftarrow> RD_row hdr_mean s;
     p95 \<leftarrow> RD_row (\<lambda>h. hdr_value_at_percentile h 95) s;
     p99 \<leftarrow> RD_row (\<lambda>h. hdr_value_at_percentile h 99) s;
     p9999 \<leftarrow> RD_row (\<lambda>h. hdr_value_at_percentile h (9999 / 100)) s;
     Some (means, p95, p99, p9999)
   }"

definition RD_PrintStats_to :: "(nat \<Rightarrow> bool) \<Rightarrow> 's rocksdb \<Rightarrow> run_stop + stats_output" where
  "RD_PrintStats_to f_hdr_output s =
     andthen (or_stop Stop_Undefined (RD_summary s)) (\<lambda>summary.
     andthen (or_stop Stop_Undefined (hdr_percentiles_print f_hdr_output (rd_hdr_all s) 5 1 CLASSIC)) (\<lambda>percentiles.
     Inr \<lparr>so_noResult = rd_noResult s, so_summary = summary, so_percentiles = percentiles\<rparr>))"

definition RD_PrintStats :: "'s rocksdb \<Rightarrow> run_stop + 's rocksdb" where
  "RD_PrintStats s = andthen (RD_PrintStats_to (\<lambda>_. True) s) (\<lambda>_. Inr s)"

definition RD_HaveBalancedDistribution :: "'s rocksdb \<Rightarrow> bool" where
  "RD_HaveBalancedDistribution s = True"

definition RD_RecordTime :: "int \<Rightarrow> u64 \<Rightarrow> 's rocksdb \<Rightarrow> run_stop + 's rocksdb" where
  "RD_RecordTime op t s =
     (let s0 = s\<lparr>rd_qps := i64 (rd_qps s + 1)\<rparr> in
      andthen (record_into t (rd_hdr_all s0)) (\<lambda>h.
      andthen (record_into t (rd_hdr_last_1s s0)) (\<lambda>l.
        let s1 = s0\<lparr>rd_hdr_all := h, rd_hdr_last_1s := l\<rparr> in
        if op = 1 then map_sum id (\<lambda>g. s1\<lparr>rd_hdr_put := g\<rparr>) (record_into t (rd_hdr_put s1))
        else if op = 2 then map_sum id (\<lambda>g. s1\<lparr>rd_hdr_get := g\<rparr>) (record_into t (rd_hdr_get s1))
        else if op = 3 then map_sum id (\<lambda>g. s1\<lparr>rd_hdr_update := g\<rparr>) (record_into t (rd_hdr_update s1))
        else if op = 4 then map_sum id (\<lambda>g. s1\<lparr>rd_hdr_scan := g\<rparr>) (record_into t (rd_hdr_scan s1))
        else if op = 5 then map_sum id (\<lambda>g. s1\<lparr>rd_hdr_rmw := g\<rparr>) (record_into t (rd_hdr_rmw s1))
        else Inr s1)))"

definition RocksDB :: "'s kv_lib \<Rightarrow> 's rocksdb db_ops" where
  "RocksDB lib =
     \<lparr>db_Init = Inr, db_Close = Inr, db_Read = RD_Read lib, db_Scan = RD_Scan lib,
      db_Update = RD_Update lib, db_Insert = RD_Insert lib, db_Delete = RD_Delete lib,
      db_HaveBalancedDistribution = RD_HaveBalancedDistribution, db_PrintStats = RD_PrintStats,
      db_RecordTime = RD_RecordTime, db_latency_hiccup = RD_latency_hiccup\<rparr>"

section \<open>The translation\<close>

definition as_cloud :: "'s rocksdb \<Rightarrow> 's rocksdb_cloud" where
  "as_cloud s =
     \<lparr>rc_db = rd_db s, rc_noResult = rd_noResult s, rc_qps = rd_qps s, rc_hdr_all = rd_hdr_all s,
      rc_hdr_last_1s = rd_hdr_last_1s s, rc_hdr_get = rd_hdr_get s, rc_hdr_put = rd_hdr_put s,
      rc_hdr_update = rd_hdr_update s, rc_hdr_scan = rd_hdr_scan s, rc_hdr_rmw = rd_hdr_rmw s,
      rc_hiccups = rd_hiccups s\<rparr>"

lemma RD_summary_cloud: "RC_summary (as_cloud s) = RD_summary s"
  by (simp add: RC_summary_def RD_summary_def RD_row_def summary_columns_def as_cloud_def)

text \<open>Both databases write and read the same format.\<close>

lemma RD_SerializeValues_eq: "RD_SerializeValues = SerializeValues"
proof
  have "fold RD_put_pair kvs out = serialize_loop kvs out" for kvs out
    by (induction kvs out rule: serialize_loop.induct) (simp_all add: RD_put_pair_def)
  then show "RD_SerializeValues kvs = SerializeValues kvs" for kvs
    by (simp add: RD_SerializeValues_def SerializeValues_def)
qed

lemma RD_get_pairs_eq:
  "map_option snd (((\<lambda>state. Option.bind state (RD_get_pair buf)) ^^ n) (Some (offset, kvs))) = deserialize_loop n buf offset kvs"
proof (induction n arbitrary: offset kvs)
  case (Suc n)
  have "((\<lambda>state. Option.bind state (RD_get_pair buf)) ^^ n) None = None" by (induction n) simp_all
  moreover have "deserialize_loop (Suc n) buf offset kvs
      = Option.bind (RD_get_pair buf (offset, kvs)) (\<lambda>(offset, kvs). deserialize_loop n buf offset kvs)"
    by (simp add: RD_get_pair_def)
  ultimately show ?case
    by (cases "RD_get_pair buf (offset, kvs)")
       (auto simp: funpow_Suc_right Suc simp del: funpow.simps deserialize_loop.simps)
qed simp

lemma RD_DeSerializeValues_eq: "RD_DeSerializeValues = DeSerializeValues"
  by (intro ext) (simp add: RD_DeSerializeValues_def DeSerializeValues_def RD_get_pairs_eq Let_def)

lemmas RD_format_eqs = RD_SerializeValues_eq RD_DeSerializeValues_eq

interpretation rocksdb_sim: database_simulation "RocksDB lib" "RocksDBCloud lib" as_cloud for lib
proof unfold_locales
  fix table key flds result and d :: "'a rocksdb"
  show "db_Read (RocksDBCloud lib) table key flds result (as_cloud d)
      = map_sum id (map_prod id (map_prod id as_cloud)) (db_Read (RocksDB lib) table key flds result d)"
    by (cases "kv_Get lib (rd_db d) key"; cases "fst (kv_Get lib (rd_db d) key)")
      (auto simp: RocksDB_def RocksDBCloud_def RC_Read_def RD_Read_def RD_format_eqs as_cloud_def map_andthen)
next
  fix table key kvs and d :: "'a rocksdb"
  have "RC_Insert lib table key kvs (as_cloud d) = with_state as_cloud (RD_Insert lib table key kvs d)"
    by (cases "or_stop Stop_Diverges (SerializeValues kvs)")
      (auto simp: RC_Insert_def RD_Insert_def RD_format_eqs as_cloud_def split: prod.splits)
  then show "db_Update (RocksDBCloud lib) table key kvs (as_cloud d) = with_state as_cloud (db_Update (RocksDB lib) table key kvs d)"
    "db_Insert (RocksDBCloud lib) table key kvs (as_cloud d) = with_state as_cloud (db_Insert (RocksDB lib) table key kvs d)"
    by (simp_all add: RocksDB_def RocksDBCloud_def RC_Update_def RD_Update_def)
next
  fix op t and d :: "'a rocksdb"
  show "db_RecordTime (RocksDBCloud lib) op t (as_cloud d) = map_sum id as_cloud (db_RecordTime (RocksDB lib) op t d)"
    by (cases "record_into t (rd_hdr_all d)"; cases "record_into t (rd_hdr_last_1s d)")
      (auto simp: RocksDB_def RocksDBCloud_def RC_RecordTime_def RD_RecordTime_def as_cloud_def Let_def andthen_def
        split: sum.splits)
qed (simp_all add: RocksDB_def RocksDBCloud_def RC_Scan_def RD_Scan_def RC_Delete_def RD_Delete_def
    RD_HaveBalancedDistribution_def RC_HaveBalancedDistribution_def
    RC_PrintStats_def RD_PrintStats_def RC_PrintStats_to_def RD_PrintStats_to_def RD_summary_cloud [unfolded as_cloud_def] RC_latency_hiccup_def
    RD_latency_hiccup_def map_andthen Let_def case_prod_beta as_cloud_def)

text \<open>The contract of the client holds by the simulation, with the times of the translated state.\<close>

interpretation rocksdb_timed: timed_database "RocksDB lib" "\<lambda>n d. rocks_inv lib n (as_cloud d)" "\<lambda>_. True"
    "\<lambda>L d. rocks_timed L (as_cloud d)" for lib
  by (rule rocksdb_sim.timed_database_view [OF rocks_timed.timed_database_axioms])

section \<open>Properties\<close>


lemma SetOptions_cases:
  "SetOptions b cache props o' =
     (case property_at props ''dboption'' of
        Inl e \<Rightarrow> Inl (Stop_Exn e)
      | Inr str \<Rightarrow> (case c_stoi str of Inl e \<Rightarrow> Inl (Stop_Exn e) | Inr dboption \<Rightarrow> SetOptions b cache [(''dboption'', str)] o'))"
  by (auto simp: SetOptions_def Let_def property_at_def split: sum.splits option.splits)

lemma SetOptions_paths:
  assumes "SetOptions b cache [(''dboption'', str)] o' = Inr o''" "c_stoi str = Inr dboption"
  shows "length (db_paths o'') = (if dboption = 0 then 1 else if dboption = 2 then 7 else if dboption = 3 then 2 else length (db_paths o'))"
    "distinct (map fst (db_paths o')) \<Longrightarrow> distinct (map fst (db_paths o''))"
    "bt_persistent_cache (table_factory o'') \<noteq> bt_persistent_cache b \<longrightarrow> dboption = 2 \<and> cache"
  using assms by (auto simp: SetOptions_def property_at_def Let_def option_paths_def option_cache_def split: if_splits)

lemma RocksDB_new_opens:
  assumes "latency_setup calloc output hiccup = Inr hs"
    "SetOptions (rl_block_options rl) (rl_cache_made rl) props (rl_options rl) = Inr opts" "rl_Open rl opts dbfilename = Some db"
  shows "\<exists>s. RocksDB_new rl calloc output hiccup qps dbfilename props = Inr s
        \<and> RocksDBCloud_new calloc output hiccup qps (Inr db) = Inr (as_cloud s)
        \<and> latencies (rd_hdr_all s) (as_cloud s) {#} {#} (\<lambda>_. {#})"
proof -
  obtain h where h: "hdr_init (calloc 0) 1 3600000000 3 = Some (Inr h)" "hs = (h, h, h, h, h, h, h)"
    by (rule latency_setup_cases [OF assms(1)])
  define s where "s = \<lparr>rd_qps = qps, rd_hdr_all = h, rd_hdr_last_1s = h, rd_hdr_get = h, rd_hdr_put = h, rd_hdr_update = h,
    rd_hdr_scan = h, rd_hdr_rmw = h, rd_hiccups = [], rd_db = db, rd_noResult = 0\<rparr>"
  have s: "RocksDB_new rl calloc output hiccup qps dbfilename props = Inr s"
    "RocksDBCloud_new calloc output hiccup qps (Inr db) = Inr (as_cloud s)"
    using assms h(2) by (simp_all add: RocksDB_new_def RocksDBCloud_new_def as_cloud_def s_def)
  moreover have "rc_hdr_all (as_cloud s) = rd_hdr_all s" by (simp add: as_cloud_def)
  ultimately show ?thesis using RocksDBCloud_new_latencies(1) [OF s(2)] by auto
qed

text \<open>C21: The constructor of the plain database, when its histograms and files can be had: it throws when
  the property dboption is missing or no number, ends the process when the store cannot be opened, and otherwise
  is new and translates to a new RocksDB-Cloud database on the same store. The options passed on are consistent, their
  paths are distinct, one, seven or two of them for the options 0, 2 and 3 and those of the library otherwise, and only
  option 2 adds a persistent cache.
\<close>

theorem RocksDB_new_outcome:
  assumes "readahead_grows (rl_block_options rl)" "distinct (map fst (db_paths (rl_options rl)))"
    "latency_setup calloc output hiccup = Inr hs"
  shows "case property_at props ''dboption'' of
      Inl e \<Rightarrow> RocksDB_new rl calloc output hiccup qps dbfilename props = Inl (Stop_Exn e)
    | Inr str \<Rightarrow> (case c_stoi str of
        Inl e \<Rightarrow> RocksDB_new rl calloc output hiccup qps dbfilename props = Inl (Stop_Exn e)
      | Inr dboption \<Rightarrow> (\<exists>opts. options_consistent opts \<and> distinct (map fst (db_paths opts))
          \<and> length (db_paths opts) = (if dboption = 0 then 1 else if dboption = 2 then 7 else if dboption = 3 then 2 else length (db_paths (rl_options rl)))
          \<and> (bt_persistent_cache (table_factory opts) \<noteq> bt_persistent_cache (rl_block_options rl) \<longrightarrow> dboption = 2 \<and> rl_cache_made rl)
          \<and> (case rl_Open rl opts dbfilename of
               None \<Rightarrow> RocksDB_new rl calloc output hiccup qps dbfilename props = Inl Stop_Exit
             | Some db \<Rightarrow> \<exists>s. RocksDB_new rl calloc output hiccup qps dbfilename props = Inr s
                 \<and> RocksDBCloud_new calloc output hiccup qps (Inr db) = Inr (as_cloud s)
                 \<and> latencies (rd_hdr_all s) (as_cloud s) {#} {#} (\<lambda>_. {#}))))"
proof (cases "property_at props ''dboption''")
  case (Inr str)
  show ?thesis
  proof (cases "c_stoi str")
    case Inr': (Inr dboption)
    obtain opts where opts: "SetOptions (rl_block_options rl) (rl_cache_made rl) [(''dboption'', str)] (rl_options rl) = Inr opts"
      using Inr' by (simp add: SetOptions_def property_at_def Let_def)
    then have set: "SetOptions (rl_block_options rl) (rl_cache_made rl) props (rl_options rl) = Inr opts"
      using Inr Inr' by (subst SetOptions_cases) simp
    show ?thesis
      using Inr Inr' set assms RocksDB_new_opens [OF assms(3) set] SetOptions_paths [OF opts Inr'] SetOptions_consistent [OF assms(1) opts]
      by (auto simp: RocksDB_new_def split: option.splits prod.splits intro!: exI [of _ opts])
  next
    case Inl': (Inl e)
    then show ?thesis using Inr assms(3) by (simp add: RocksDB_new_def SetOptions_def Let_def case_prod_beta)
  qed
next
  case (Inl e)
  then show ?thesis using assms(3) by (simp add: RocksDB_new_def SetOptions_def Let_def case_prod_beta)
qed

definition plain_rocksdb :: "(string \<Rightarrow> byte list option) rocksdb_lib" where
  "plain_rocksdb = \<lparr>rl_options = plain_options, rl_block_options = plain_block, rl_cache_made = True,
     rl_Open = \<lambda>_ _. Some Map.empty\<rparr>"

theorem RocksDB_new_outcome_witness:
  "\<exists>s. RocksDB_new plain_rocksdb (\<lambda>_ _. True) True True 0 ''db'' [(''dboption'', ''0'')] = Inr s \<and> rd_db s = Map.empty
     \<and> hdr_abs (rd_hdr_all s) {#}"
proof -
  obtain hs where hs: "latency_setup (\<lambda>_ _. True) True True = Inr hs" using latency_setup_succeeds by blast
  have plain: "readahead_grows (rl_block_options plain_rocksdb)" "distinct (map fst (db_paths (rl_options plain_rocksdb)))"
    by (simp_all add: plain_rocksdb_def plain_block_def plain_options_def)
  have zero: "c_stoi ''0'' = Inr 0" using c_stoi_to_string [of 0] by (simp add: to_string_small)
  have "rd_db s = db" if "RocksDBCloud_new (\<lambda>_ _. True) True True 0 (Inr db) = Inr (as_cloud s)"
    for s :: "(string \<Rightarrow> byte list option) rocksdb" and db
    using RocksDBCloud_new_latencies(2) [OF that] by (simp add: as_cloud_def)
  with RocksDB_new_outcome [OF plain hs, where props = "[(''dboption'', ''0'')]" and qps = 0 and dbfilename = "''db''"] zero
  show ?thesis
    by (auto simp: property_at_def plain_rocksdb_def latencies_def latency_hist_def as_cloud_def)
qed

end
