(* ===== verification/Ycsb_Lifetime.thy ===== *)
theory Ycsb_Lifetime
  imports Ycsb_Rocksdb
begin

text \<open>
  What the constructors take and the destructors give back: memory, open files and the store, as a multiset
  of resources. Giving back what is not held, a double free, is undefined. The destructors are those of the
  two RocksDB databases (\<open>db/rocksdb_cloud_db.cc\<close>, \<open>db/rocksdb_db.cc\<close>) and of the workload
  (\<open>core/core_workload.h\<close>); \<open>hdr_close\<close> of the histogram library is the call that they do not use.
\<close>

section \<open>Resources\<close>

datatype latency_kind = Hdr_All | Hdr_Last_1s | Hdr_Get | Hdr_Put | Hdr_Update | Hdr_Scan | Hdr_Rmw

datatype generator_kind = Field_Len_Generator | Key_Generator | Key_Chooser | Field_Chooser | Scan_Len_Chooser

datatype resource =
    Histogram_Struct latency_kind
  | Histogram_Counts latency_kind
  | Hdr_Output
  | Hdr_Hiccup_Output
  | Store_Handle
  | Generator_Object generator_kind

definition release :: "resource \<Rightarrow> resource multiset \<Rightarrow> resource multiset option" where
  "release r held = (if r \<in># held then Some (held - {#r#}) else None)"

fun release_all :: "resource list \<Rightarrow> resource multiset \<Rightarrow> resource multiset option" where
  "release_all [] held = Some held"
| "release_all (r # rs) held = Option.bind (release r held) (release_all rs)"

lemma release_all_append: "release_all (rs @ qs) held = Option.bind (release_all rs held) (release_all qs)"
  by (induction rs arbitrary: held) (auto split: Option.bind_split)

text \<open>The contract of an object: each resource is taken once, and none is given back twice.\<close>

locale object_lifetime =
  fixes taken :: "resource list" and given :: "resource list"
  assumes taken_once: "distinct taken" and given_once: "distinct given" and given_held: "set given \<subseteq> set taken"
begin

lemma release_given:
  assumes "distinct rs" "set rs \<subseteq> set taken" "distinct held" "set rs \<subseteq> set held"
  shows "release_all rs (mset held) = Some (mset (filter (\<lambda>r. r \<notin> set rs) held))"
  using assms
proof (induction rs arbitrary: held)
  case (Cons r rs)
  have r: "r \<in># mset held" using Cons.prems by simp
  have "mset held - {#r#} = mset (remove1 r held)" by simp
  moreover have "release_all rs (mset (remove1 r held)) = Some (mset (filter (\<lambda>x. x \<notin> set rs) (remove1 r held)))"
    by (rule Cons.IH) (use Cons.prems in \<open>auto simp: in_set_remove1\<close>)
  moreover have "filter (\<lambda>x. x \<notin> set rs) (remove1 r held) = filter (\<lambda>x. x \<notin> set (r # rs)) held"
    using Cons.prems by (auto simp: distinct_remove1_removeAll removeAll_filter_not_eq intro: filter_cong)
  ultimately show ?case using r by (simp add: release_def)
qed simp

lemma destroyed: "release_all given (mset taken) = Some (mset (filter (\<lambda>r. r \<notin> set given) taken))"
  using release_given [OF given_once given_held taken_once given_held] .

lemma destroyed_twice:
  assumes "given \<noteq> []"
  shows "release_all (given @ given) (mset taken) = None"
proof -
  obtain r rs where "given = r # rs" using assms by (cases given) auto
  then have "release_all given (mset (filter (\<lambda>r. r \<notin> set given) taken)) = None" by (simp add: release_def)
  then show ?thesis by (simp add: release_all_append destroyed)
qed

end

section \<open>Histograms\<close>

text \<open>\<open>hdr_init\<close> takes the counts and then the struct; \<open>free\<close> gives back the struct alone, \<open>hdr_close\<close> both.\<close>

definition latency_kinds :: "latency_kind list" where
  "latency_kinds = [Hdr_All, Hdr_Last_1s, Hdr_Get, Hdr_Put, Hdr_Update, Hdr_Scan, Hdr_Rmw]"

definition hdr_init_takes :: "latency_kind \<Rightarrow> resource list" where
  "hdr_init_takes k = [Histogram_Counts k, Histogram_Struct k]"

definition hdr_close :: "latency_kind \<Rightarrow> resource list" where
  "hdr_close k = [Histogram_Counts k, Histogram_Struct k]"

section \<open>The databases\<close>

definition RocksDBCloud_takes :: "resource list" where
  "RocksDBCloud_takes = concat (map hdr_init_takes latency_kinds) @ [Hdr_Output, Hdr_Hiccup_Output, Store_Handle]"

definition RocksDBCloud_delete :: "resource list" where
  "RocksDBCloud_delete =
     [Histogram_Struct Hdr_All, Histogram_Struct Hdr_Last_1s, Histogram_Struct Hdr_Get, Histogram_Struct Hdr_Put,
      Histogram_Struct Hdr_Update, Histogram_Struct Hdr_Scan, Histogram_Struct Hdr_Rmw, Store_Handle]"

definition RocksDB_takes :: "resource list" where
  "RocksDB_takes = concat (map hdr_init_takes latency_kinds) @ [Hdr_Output, Hdr_Hiccup_Output, Store_Handle]"

definition RocksDB_delete :: "resource list" where
  "RocksDB_delete =
     map Histogram_Struct [Hdr_All, Hdr_Last_1s, Hdr_Get, Hdr_Put, Hdr_Update, Hdr_Scan, Hdr_Rmw] @ [Store_Handle]"

lemmas lifetime_defs = RocksDBCloud_takes_def RocksDBCloud_delete_def RocksDB_takes_def RocksDB_delete_def
  latency_kinds_def hdr_init_takes_def hdr_close_def

interpretation cloud_object: object_lifetime RocksDBCloud_takes RocksDBCloud_delete
  by unfold_locales (simp_all add: lifetime_defs)

interpretation rocksdb_object: object_lifetime RocksDB_takes RocksDB_delete
  by unfold_locales (simp_all add: lifetime_defs)

text \<open>A destructor that closed the histograms and the files would leave nothing.\<close>

interpretation closing_object: object_lifetime RocksDBCloud_takes
    "concat (map hdr_close latency_kinds) @ [Hdr_Output, Hdr_Hiccup_Output, Store_Handle]"
  by unfold_locales (simp_all add: lifetime_defs)

section \<open>The workload\<close>

text \<open>The generators behind the pointers that are set, and those that the destructor deletes.\<close>

definition owned :: "generator_kind \<Rightarrow> 'e gen option \<Rightarrow> resource list" where
  "owned k ptr = (case ptr of None \<Rightarrow> [] | Some _ \<Rightarrow> [Generator_Object k])"

definition CoreWorkload_delete :: "'e core_workload \<Rightarrow> resource list" where
  "CoreWorkload_delete wl =
     owned Field_Len_Generator (wl_field_len_generator wl) @ owned Key_Generator (wl_key_generator wl)
     @ owned Key_Chooser (wl_key_chooser wl) @ owned Field_Chooser (wl_field_chooser wl)
     @ owned Scan_Len_Chooser (wl_scan_len_chooser wl)"

text \<open>What a successful \<open>Init\<close> has made, in the order of the code.\<close>

definition Workload_Init_takes :: "resource list" where
  "Workload_Init_takes = map Generator_Object [Field_Len_Generator, Key_Generator, Key_Chooser, Field_Chooser, Scan_Len_Chooser]"

lemma CoreWorkload_delete_ok: "workload_ok lib wl \<Longrightarrow> CoreWorkload_delete wl = Workload_Init_takes"
  by (auto simp: workload_ok_def ptr_ok_def CoreWorkload_delete_def Workload_Init_takes_def owned_def)

interpretation workload_object: object_lifetime Workload_Init_takes Workload_Init_takes
  by unfold_locales (simp_all add: Workload_Init_takes_def)

section \<open>Properties\<close>

text \<open>What is left when the objects are destroyed. Both databases give back the seven histogram structs
  and the store, each once, and leave the seven arrays of counts and the two open files, where closing the
  histograms and the files would leave nothing. A workload that was initialised with valid settings, and
  used in any way, gives back exactly its five generators.\<close>

theorem destructors_leave:
  assumes "workload_inv lib wl"
  shows "release_all RocksDBCloud_delete (mset RocksDBCloud_takes)
      = Some (image_mset Histogram_Counts (mset latency_kinds) + {#Hdr_Output, Hdr_Hiccup_Output#})
    \<and> release_all RocksDB_delete (mset RocksDB_takes)
      = Some (image_mset Histogram_Counts (mset latency_kinds) + {#Hdr_Output, Hdr_Hiccup_Output#})
    \<and> release_all (concat (map hdr_close latency_kinds) @ [Hdr_Output, Hdr_Hiccup_Output, Store_Handle]) (mset RocksDBCloud_takes)
      = Some {#}
    \<and> release_all (CoreWorkload_delete wl) (mset Workload_Init_takes) = Some {#}
    \<and> release_all (RocksDBCloud_delete @ RocksDBCloud_delete) (mset RocksDBCloud_takes) = None"
proof -
  have "CoreWorkload_delete wl = Workload_Init_takes"
    using assms CoreWorkload_delete_ok by (auto simp: workload_inv_def)
  then show ?thesis
    using cloud_object.destroyed rocksdb_object.destroyed closing_object.destroyed workload_object.destroyed
      cloud_object.destroyed_twice
    by (simp add: lifetime_defs Workload_Init_takes_def del: release_all.simps)
qed

theorem destructors_leave_witness:
  "\<exists>wl :: unit core_workload. workload_inv least_lib wl
     \<and> release_all (CoreWorkload_delete wl) (mset Workload_Init_takes) = Some {#}"
proof -
  obtain wl :: "unit core_workload" and env :: "unit rand_env" where wl: "workload_inv least_lib wl" by (rule small_workload)
  with destructors_leave [OF wl] show ?thesis by blast
qed

end
