(* ===== verification/Shared_Counters.thy ===== *)
theory Shared_Counters
  imports Prelude
begin

text \<open>
  Counters that several threads update with \<open>+=\<close> and without a lock. An update is the two accesses it
  consists of, a load into a register and a store of the sum, and the accesses of all threads interleave.
  An atomic addition is the update as one step.
\<close>

section \<open>Accesses\<close>

type_synonym 'c memory = "'c \<Rightarrow> u64"

record 'c worker =
  w_updates :: "('c \<times> u64) list"
  w_register :: "u64 option"

definition worker_with :: "('c \<times> u64) list \<Rightarrow> 'c worker" where
  "worker_with us = \<lparr>w_updates = us, w_register = None\<rparr>"

inductive access_step :: "'c worker list \<times> 'c memory \<Rightarrow> 'c worker list \<times> 'c memory \<Rightarrow> bool" where
  Load: "i < length ws \<Longrightarrow> ws ! i = \<lparr>w_updates = (c, x) # us, w_register = None\<rparr> \<Longrightarrow>
    access_step (ws, m) (ws[i := \<lparr>w_updates = (c, x) # us, w_register = Some (m c)\<rparr>], m)"
| Store: "i < length ws \<Longrightarrow> ws ! i = \<lparr>w_updates = (c, x) # us, w_register = Some r\<rparr> \<Longrightarrow>
    access_step (ws, m) (ws[i := \<lparr>w_updates = us, w_register = None\<rparr>], m(c := r + x))"

text \<open>An update as one step.\<close>

inductive update_step :: "'c worker list \<times> 'c memory \<Rightarrow> 'c worker list \<times> 'c memory \<Rightarrow> bool" where
  "i < length ws \<Longrightarrow> ws ! i = \<lparr>w_updates = (c, x) # us, w_register = None\<rparr> \<Longrightarrow>
    update_step (ws, m) (ws[i := \<lparr>w_updates = us, w_register = None\<rparr>], m(c := m c + x))"

definition all_made :: "'c worker list \<Rightarrow> bool" where
  "all_made ws \<longleftrightarrow> list_all (\<lambda>w. w_updates w = []) ws"

section \<open>What is left to add\<close>

definition amount_left :: "'c \<Rightarrow> ('c \<times> u64) list \<Rightarrow> nat" where
  "amount_left c us = (\<Sum>(d, x) \<leftarrow> us. if d = c then unat x else 0)"

definition total_left :: "'c \<Rightarrow> 'c worker list \<Rightarrow> nat" where
  "total_left c ws = (\<Sum>w \<leftarrow> ws. amount_left c (w_updates w))"

lemma amount_left_simps [simp]:
  "amount_left c [] = 0"
  "amount_left c ((d, x) # us) = (if d = c then unat x else 0) + amount_left c us"
  "amount_left c (us @ vs) = amount_left c us + amount_left c vs"
  by (simp_all add: amount_left_def)

lemma total_left_update:
  "i < length ws \<Longrightarrow> total_left c (ws[i := w]) + amount_left c (w_updates (ws ! i)) = total_left c ws + amount_left c (w_updates w)"
proof (induction ws arbitrary: i)
  case (Cons v ws)
  then show ?case by (cases i) (simp_all add: total_left_def)
qed simp

lemma total_left_made: "all_made ws \<Longrightarrow> total_left c ws = 0"
  unfolding all_made_def total_left_def by (induction ws) simp_all

section \<open>Undisturbed updates are exact\<close>

lemma update_step_accesses: "update_step x y \<Longrightarrow> access_step\<^sup>*\<^sup>* x y"
proof (induction rule: update_step.induct)
  case (1 i ws c x us m)
  let ?ws = "ws[i := \<lparr>w_updates = (c, x) # us, w_register = Some (m c)\<rparr>]"
  have "access_step (ws, m) (?ws, m)" by (rule Load [OF 1])
  moreover have "access_step (?ws, m) (?ws[i := \<lparr>w_updates = us, w_register = None\<rparr>], m(c := m c + x))"
    by (rule Store) (use 1 in simp_all)
  ultimately show ?case by simp
qed

lemma update_step_sum:
  assumes "update_step (ws, m) (ws', m')"
  shows "m' c + of_nat (total_left c ws') = m c + of_nat (total_left c ws)"
  using assms
proof (cases rule: update_step.cases)
  case (1 i d x us)
  then have "total_left c ws = total_left c ws' + (if d = c then unat x else 0)"
    using total_left_update [of i ws c "\<lparr>w_updates = us, w_register = None\<rparr>"] by simp
  then have "of_nat (total_left c ws) = of_nat (total_left c ws') + (if d = c then x else 0)" by simp
  with 1 show ?thesis by simp
qed

lemma update_steps_sum:
  "update_step\<^sup>*\<^sup>* (ws, m) (ws', m') \<Longrightarrow> m' c + of_nat (total_left c ws') = m c + of_nat (total_left c ws)"
  by (induction rule: rtranclp_induct2) (simp, metis update_step_sum)

section \<open>Disturbed updates can only lose\<close>

text \<open>Bounds of every value in memory and in a register: at least the start, at most what was added so far.\<close>

definition bounded_by :: "'c memory \<Rightarrow> ('c \<Rightarrow> nat) \<Rightarrow> 'c worker list \<Rightarrow> u64 \<Rightarrow> 'c \<Rightarrow> bool" where
  "bounded_by m0 T ws v c \<longleftrightarrow> unat (m0 c) \<le> unat v \<and> unat v + total_left c ws \<le> T c"

definition access_inv :: "'c memory \<Rightarrow> ('c \<Rightarrow> nat) \<Rightarrow> 'c worker list \<times> 'c memory \<Rightarrow> bool" where
  "access_inv m0 T = (\<lambda>(ws, m).
     (\<forall>c. bounded_by m0 T ws (m c) c)
     \<and> (\<forall>w \<in> set ws. \<forall>c x us r. w = \<lparr>w_updates = (c, x) # us, w_register = Some r\<rparr> \<longrightarrow> bounded_by m0 T ws r c))"

lemma access_inv_step:
  assumes T: "\<And>c. T c < 2 ^ 64" and inv: "access_inv m0 T (ws, m)" and step: "access_step (ws, m) (ws', m')"
  shows "access_inv m0 T (ws', m')"
  using step
proof (cases rule: access_step.cases)
  case (Load i c x us)
  have left: "total_left d ws' = total_left d ws" for d
    using total_left_update [of i ws d "\<lparr>w_updates = (c, x) # us, w_register = Some (m c)\<rparr>"] Load by simp
  then have "bounded_by m0 T ws' = bounded_by m0 T ws" by (simp add: bounded_by_def fun_eq_iff)
  with inv Load show ?thesis
    by (auto simp: access_inv_def dest!: set_update_subset_insert [THEN subsetD])
next
  case (Store i c x us r)
  have left: "total_left d ws' + (if c = d then unat x else 0) = total_left d ws" for d
    using total_left_update [of i ws d "\<lparr>w_updates = us, w_register = None\<rparr>"] Store by simp
  then have mono: "bounded_by m0 T ws v d \<Longrightarrow> bounded_by m0 T ws' v d" for v d
    unfolding bounded_by_def by (metis add_le_mono1 le_add1 order_trans add_le_cancel_left)
  have "ws ! i \<in> set ws" using Store(3) by (rule nth_mem)
  then have "bounded_by m0 T ws r c" using inv Store unfolding access_inv_def by blast
  then have r: "unat (m0 c) \<le> unat r" "unat r + unat x + total_left c ws' \<le> T c"
    using left [of c] by (simp_all add: bounded_by_def)
  then have "unat (r + x) = unat r + unat x" using T [of c] by (intro unat_add_lem [THEN iffD1]) simp
  with r have "bounded_by m0 T ws' (r + x) c" by (simp add: bounded_by_def)
  with inv Store mono show ?thesis
    by (auto simp: access_inv_def dest!: set_update_subset_insert [THEN subsetD])
qed

text \<open>A cell whose updates all add something has grown as soon as one of them was stored.\<close>

definition adds_to :: "'c \<Rightarrow> 'c worker list \<Rightarrow> bool" where
  "adds_to c ws \<longleftrightarrow> (\<forall>w \<in> set ws. \<forall>x. (c, x) \<in> set (w_updates w) \<longrightarrow> x \<noteq> 0)"

definition grown_inv :: "'c memory \<Rightarrow> nat \<Rightarrow> 'c \<Rightarrow> 'c worker list \<times> 'c memory \<Rightarrow> bool" where
  "grown_inv m0 n c = (\<lambda>(ws, m). adds_to c ws \<and> (total_left c ws < n \<longrightarrow> unat (m0 c) < unat (m c)))"

lemma adds_to_update:
  assumes "adds_to c ws" "i < length ws" "set (w_updates w) \<subseteq> set (w_updates (ws ! i))"
  shows "adds_to c (ws[i := w])"
  unfolding adds_to_def
proof (intro ballI allI impI)
  fix v x assume "v \<in> set (ws[i := w])" "(c, x) \<in> set (w_updates v)"
  then consider "v \<in> set ws" | "v = w" using set_update_subset_insert by fastforce
  then show "x \<noteq> 0"
    using assms(1,3) nth_mem [OF assms(2)] \<open>(c, x) \<in> set (w_updates v)\<close> unfolding adds_to_def by cases blast+
qed

lemma grown_inv_step:
  assumes T: "\<And>c. T c < 2 ^ 64" and inv: "access_inv m0 T (ws, m)" and grown: "grown_inv m0 n c (ws, m)"
    and step: "access_step (ws, m) (ws', m')"
  shows "grown_inv m0 n c (ws', m')"
  using step
proof (cases rule: access_step.cases)
  case (Load i d x us)
  have "adds_to c ws'" using grown Load by (auto simp: grown_inv_def intro!: adds_to_update)
  moreover have "total_left c ws' = total_left c ws"
    using total_left_update [of i ws c "\<lparr>w_updates = (d, x) # us, w_register = Some (m d)\<rparr>"] Load by simp
  ultimately show ?thesis using grown Load by (simp add: grown_inv_def)
next
  case (Store i d x us r)
  have at: "ws ! i \<in> set ws" using Store(3) by (rule nth_mem)
  have adds: "adds_to c ws'" using grown Store by (auto simp: grown_inv_def intro!: adds_to_update)
  have left: "total_left c ws' + (if d = c then unat x else 0) = total_left c ws"
    using total_left_update [of i ws c "\<lparr>w_updates = us, w_register = None\<rparr>"] Store by simp
  show ?thesis
  proof (cases "d = c")
    case True
    have "bounded_by m0 T ws r c" using inv at Store True unfolding access_inv_def by blast
    then have r: "unat (m0 c) \<le> unat r" "unat r + unat x \<le> T c" using left True by (simp_all add: bounded_by_def)
    then have "unat (r + x) = unat r + unat x" using T [of c] by (intro unat_add_lem [THEN iffD1]) simp
    moreover have "x \<noteq> 0" using grown at Store True unfolding grown_inv_def adds_to_def by fastforce
    then have "0 < unat x" by (simp add: unat_gt_0)
    ultimately show ?thesis using adds r(1) Store True by (simp add: grown_inv_def)
  next
    case False
    then show ?thesis using grown adds left Store by (simp add: grown_inv_def)
  qed
qed

lemma access_steps_bounds:
  assumes "access_step\<^sup>*\<^sup>* (ws0, m0) (ws, m)" "\<And>w. w \<in> set ws0 \<Longrightarrow> w_register w = None" "adds_to c ws0"
    and room: "\<And>d. unat (m0 d) + total_left d ws0 < 2 ^ 64"
  shows "unat (m0 d) \<le> unat (m d)" "unat (m d) + total_left d ws \<le> unat (m0 d) + total_left d ws0"
    "total_left c ws < total_left c ws0 \<Longrightarrow> unat (m0 c) < unat (m c)"
proof -
  let ?T = "\<lambda>d. unat (m0 d) + total_left d ws0"
  have "access_inv m0 ?T (ws, m) \<and> grown_inv m0 (total_left c ws0) c (ws, m)"
    using assms(1)
  proof (induction rule: rtranclp_induct2)
    case refl
    then show ?case using assms(2,3) by (force simp: access_inv_def bounded_by_def grown_inv_def)
  next
    case (step ws m ws' m')
    then show ?case using access_inv_step [of ?T m0 ws m] grown_inv_step [of ?T m0 ws m] room by blast
  qed
  then show "unat (m0 d) \<le> unat (m d)" "unat (m d) + total_left d ws \<le> unat (m0 d) + total_left d ws0"
    "total_left c ws < total_left c ws0 \<Longrightarrow> unat (m0 c) < unat (m c)"
    by (simp_all add: access_inv_def bounded_by_def grown_inv_def)
qed

section \<open>All but one update can be lost\<close>

lemma each_worker_steps:
  assumes "\<And>xs ys m. P m \<Longrightarrow> access_step\<^sup>*\<^sup>* (xs @ a # ys, m) (xs @ b # ys, f m) \<and> P (f m)" "P m"
  shows "access_step\<^sup>*\<^sup>* (xs @ replicate k a, m) (xs @ replicate k b, (f ^^ k) m) \<and> P ((f ^^ k) m)"
  using assms(2)
proof (induction k arbitrary: xs m)
  case (Suc k)
  have one: "access_step\<^sup>*\<^sup>* (xs @ a # replicate k a, m) (xs @ b # replicate k a, f m)" "P (f m)"
    using assms(1) [OF Suc.prems, of xs "replicate k a"] by simp_all
  with Suc.IH [OF one(2), of "xs @ [b]"] show ?case
    by (auto simp: funpow_Suc_right simp del: funpow.simps intro: rtranclp_trans)
qed simp

lemma load_step:
  "access_step (xs @ \<lparr>w_updates = (c, x) # us, w_register = None\<rparr> # ys, m)
     (xs @ \<lparr>w_updates = (c, x) # us, w_register = Some (m c)\<rparr> # ys, m)"
  using Load [of "length xs" "xs @ \<lparr>w_updates = (c, x) # us, w_register = None\<rparr> # ys" c x us m] by simp

lemma store_step:
  "access_step (xs @ \<lparr>w_updates = (c, x) # us, w_register = Some r\<rparr> # ys, m)
     (xs @ \<lparr>w_updates = us, w_register = None\<rparr> # ys, m(c := r + x))"
  using Store [of "length xs" "xs @ \<lparr>w_updates = (c, x) # us, w_register = Some r\<rparr> # ys" c x us r m] by simp

text \<open>A worker alone makes all its updates.\<close>

definition add_update :: "'c \<times> u64 \<Rightarrow> 'c memory \<Rightarrow> 'c memory" where
  "add_update = (\<lambda>(c, x) m. m(c := m c + x))"

lemma update_step_at:
  "update_step (xs @ worker_with ((c, x) # us) # ys, m) (xs @ worker_with us # ys, add_update (c, x) m)"
  using update_step.intros [of "length xs" "xs @ worker_with ((c, x) # us) # ys" c x us m]
  by (simp add: worker_with_def add_update_def)

lemma update_steps_at:
  "update_step\<^sup>*\<^sup>* (xs @ worker_with (us @ vs) # ys, m) (xs @ worker_with vs # ys, fold add_update us m)"
proof (induction us arbitrary: m)
  case (Cons u us)
  then show ?case
    using update_step_at [of xs "fst u" "snd u" "us @ vs" ys m] by (auto intro: converse_rtranclp_into_rtranclp)
qed simp

lemma update_steps_accesses: "update_step\<^sup>*\<^sup>* x y \<Longrightarrow> access_step\<^sup>*\<^sup>* x y"
  by (induction rule: rtranclp_induct) (auto dest: update_step_accesses)

lemma fold_add_update_other: "c \<notin> fst ` set us \<Longrightarrow> fold add_update us m c = m c"
  by (induction us arbitrary: m) (auto simp: add_update_def)

lemma each_alone:
  assumes "c \<notin> fst ` set us"
  shows "\<exists>m'. access_step\<^sup>*\<^sup>* (replicate k (worker_with (us @ vs)), m) (replicate k (worker_with vs), m') \<and> m' c = m c"
proof -
  have "access_step\<^sup>*\<^sup>* (xs @ worker_with (us @ vs) # ys, n) (xs @ worker_with vs # ys, fold add_update us n)
      \<and> fold add_update us n c = m c" if "n c = m c" for xs ys n
    using update_steps_at [THEN update_steps_accesses] fold_add_update_other [OF assms] that by metis
  from each_worker_steps [of "\<lambda>n. n c = m c" "worker_with (us @ vs)" "worker_with vs" "fold add_update us" m "[]" k, OF this refl]
  show ?thesis by (intro exI [of _ "(fold add_update us ^^ k) m"]) simp
qed

lemma updates_lost:
  assumes "0 < k" "c \<notin> fst ` set us" "c \<notin> fst ` set vs"
  shows "\<exists>m. access_step\<^sup>*\<^sup>* (replicate k (worker_with (us @ (c, x) # vs)), m0) (replicate k (worker_with []), m) \<and> m c = m0 c + x"
proof -
  define w where "w = \<lparr>w_updates = (c, x) # vs, w_register = Some (m0 c)\<rparr>"
  define g where "g = (\<lambda>m :: 'a memory. m(c := m0 c + x))"
  obtain m1 where m1: "access_step\<^sup>*\<^sup>* (replicate k (worker_with (us @ (c, x) # vs)), m0) (replicate k (worker_with ((c, x) # vs)), m1)"
      "m1 c = m0 c"
    using each_alone [OF assms(2), of k "(c, x) # vs" m0] by (elim exE conjE)
  have "access_step\<^sup>*\<^sup>* (xs @ worker_with ((c, x) # vs) # ys, m) (xs @ w # ys, id m) \<and> id m c = m0 c" if "m c = m0 c" for xs ys m
    using load_step [of xs c x vs ys m] that by (simp add: worker_with_def w_def r_into_rtranclp)
  from each_worker_steps [of "\<lambda>m. m c = m0 c" "worker_with ((c, x) # vs)" w id m1 "[]" k, OF this m1(2)]
  have loads: "access_step\<^sup>*\<^sup>* (replicate k (worker_with ((c, x) # vs)), m1) (replicate k w, m1)" by simp
  have "access_step\<^sup>*\<^sup>* (xs @ w # ys, m) (xs @ worker_with vs # ys, g m) \<and> True" for xs ys m
    using store_step [of xs c x vs "m0 c" ys m] by (simp add: worker_with_def w_def g_def r_into_rtranclp)
  from each_worker_steps [of "\<lambda>_. True" w "worker_with vs" g m1 "[]" k, OF this TrueI]
  have stores: "access_step\<^sup>*\<^sup>* (replicate k w, m1) (replicate k (worker_with vs), (g ^^ k) m1)" by simp
  have gk: "(g ^^ k) m1 c = m0 c + x" using assms(1) by (cases k) (simp_all add: g_def)
  obtain m where m: "access_step\<^sup>*\<^sup>* (replicate k (worker_with vs), (g ^^ k) m1) (replicate k (worker_with []), m)" "m c = (g ^^ k) m1 c"
    using each_alone [OF assms(3), of k "[]" "(g ^^ k) m1"] by (simp only: append_Nil2) (elim exE conjE)
  note rtranclp_trans [OF rtranclp_trans [OF rtranclp_trans [OF m1(1) loads] stores] m(1)]
  then show ?thesis using m(2) gk by (intro exI [of _ m]) simp
qed

section \<open>The end of a run\<close>

text \<open>Workers that make, one after the other, the updates of their tasks.\<close>

definition workers_for :: "('t \<Rightarrow> ('c \<times> u64) list) \<Rightarrow> 't list list \<Rightarrow> 'c worker list" where
  "workers_for f tss = map (\<lambda>ts. worker_with (concat (map f ts))) tss"

definition task_amount :: "('t \<Rightarrow> ('c \<times> u64) list) \<Rightarrow> 't list list \<Rightarrow> 'c \<Rightarrow> nat" where
  "task_amount f tss c = amount_left c (concat (map f (concat tss)))"

lemma replicate_workers: "replicate k (worker_with (f t)) = workers_for f (replicate k [t])"
  by (induction k) (simp_all add: workers_for_def)

text \<open>At the end all updates are made. A cell that each of its updates increases has grown, by no more than the
  sum; when the updates were atomic, by exactly the sum.\<close>

lemma all_made_bounds:
  assumes run: "access_step\<^sup>*\<^sup>* (workers_for f tss, m0) (ws, m)" and made: "all_made ws"
    and adds: "\<forall>t x. (c, x) \<in> set (f t) \<longrightarrow> x \<noteq> 0" and room: "\<And>d. unat (m0 d) + task_amount f tss d < 2 ^ 64"
  shows "unat (m0 d) \<le> unat (m d)" "unat (m d) \<le> unat (m0 d) + task_amount f tss d"
    "0 < task_amount f tss c \<Longrightarrow> unat (m0 c) < unat (m c)"
    "update_step\<^sup>*\<^sup>* (workers_for f tss, m0) (ws, m) \<Longrightarrow> unat (m d) = unat (m0 d) + task_amount f tss d"
proof -
  have left: "total_left d (workers_for f tss) = task_amount f tss d" for d
    by (induction tss) (simp_all add: total_left_def worker_with_def workers_for_def task_amount_def)
  have start: "w_register w = None" if "w \<in> set (workers_for f tss)" for w using that by (auto simp: workers_for_def worker_with_def)
  have grows: "adds_to c (workers_for f tss)" using adds by (auto simp: adds_to_def worker_with_def workers_for_def)
  have room': "unat (m0 d) + total_left d (workers_for f tss) < 2 ^ 64" for d using room left by simp
  note bounds = access_steps_bounds [OF run start grows room'] and zero = total_left_made [OF made]
  show "unat (m0 d) \<le> unat (m d)" by (rule bounds(1))
  show "unat (m d) \<le> unat (m0 d) + task_amount f tss d" using bounds(2) [of d] by (simp add: left zero)
  show "0 < task_amount f tss c \<Longrightarrow> unat (m0 c) < unat (m c)" using bounds(3) by (simp add: left zero)
  show "unat (m d) = unat (m0 d) + task_amount f tss d" if "update_step\<^sup>*\<^sup>* (workers_for f tss, m0) (ws, m)"
  proof -
    have "m d = m0 d + of_nat (task_amount f tss d)"
      using update_steps_sum [OF that, of d] by (simp add: left zero)
    then show ?thesis using room [of d] by (simp add: unat_word_ariths unat_of_nat take_bit_nat_def mod_add_right_eq)
  qed
qed

lemma replicate_made: "all_made (replicate k (worker_with []))"
  by (simp add: all_made_def worker_with_def list_all_length)

end
