(* ===== verification/Ycsb_Races.thy ===== *)
theory Ycsb_Races
  imports Shared_Counters Ycsb_Client
begin

text \<open>
  Two kinds of counters are shared by the client threads without a lock: the global arrays \<open>ops_cnt\<close> and
  \<open>ops_time\<close> of \<open>ycsbc.cc\<close>, and the slots and the total of the latency histograms, into which
  \<open>hdr_record_value\<close> records. The theory \<open>Ycsb_Threads\<close> makes a transaction one step; here the loads and stores of
  its accounting interleave with those of the other threads.
\<close>

section \<open>The counters of the program\<close>

datatype stat_cell = Ops_Cnt operation | Ops_Time operation

definition stats_memory :: "('s, 'e) client_state \<Rightarrow> stat_cell memory" where
  "stats_memory s = (\<lambda>c. case c of Ops_Cnt op \<Rightarrow> sh_ops_cnt s op | Ops_Time op \<Rightarrow> sh_ops_time s op)"

text \<open>The updates that the accounting of a transaction makes.\<close>

definition account_updates :: "operation \<times> u64 \<Rightarrow> (stat_cell \<times> u64) list" where
  "account_updates = (\<lambda>(op, op_time). [(Ops_Time op, op_time), (Ops_Cnt op, 1)])"

lemma account_amounts:
  "task_amount account_updates txnss (Ops_Cnt op) = length (filter (\<lambda>t. fst t = op) (concat txnss))"
  "task_amount account_updates txnss (Ops_Time op) = (\<Sum>(o', t) \<leftarrow> concat txnss. if o' = op then unat t else 0)"
proof -
  have "amount_left (Ops_Cnt op) (concat (map account_updates txns)) = length (filter (\<lambda>t. fst t = op) txns)"
    "amount_left (Ops_Time op) (concat (map account_updates txns)) = (\<Sum>(o', t) \<leftarrow> txns. if o' = op then unat t else 0)" for txns
    by (induction txns) (auto simp: account_updates_def)
  then show "task_amount account_updates txnss (Ops_Cnt op) = length (filter (\<lambda>t. fst t = op) (concat txnss))"
    "task_amount account_updates txnss (Ops_Time op) = (\<Sum>(o', t) \<leftarrow> concat txnss. if o' = op then unat t else 0)"
    by (simp_all only: task_amount_def)
qed

text \<open>The accounting of a transaction in the theory \<open>Ycsb_Client\<close> is the two updates in a row.\<close>

lemma account_is_updates:
  "update_step\<^sup>*\<^sup>* ([worker_with (account_updates (op, t))], stats_memory s) ([worker_with []], stats_memory (account op t s))"
proof -
  have "fold add_update (account_updates (op, t)) (stats_memory s) = stats_memory (account op t s)"
    by (auto simp: account_updates_def add_update_def stats_memory_def account_def fun_eq_iff split: stat_cell.split)
  then show ?thesis
    using update_steps_at [of "[]" "account_updates (op, t)" "[]" "[]" "stats_memory s"] by simp
qed

section \<open>The counts of a latency histogram\<close>

text \<open>The 64-bit cells of the counts, by slot, and of the total. There is nothing outside the slots.\<close>

datatype hdr_cell = Slot int | Total

definition hdr_memory :: "hdr_histogram \<Rightarrow> hdr_cell memory" where
  "hdr_memory h = (\<lambda>c. case c of
     Slot i \<Rightarrow> if 0 \<le> i \<and> i < counts_len h then word_of_int (slot_count h i) else 0
   | Total \<Rightarrow> word_of_int (total_count h))"

text \<open>The additions of \<open>hdr_record_value\<close>, which are two unlocked updates, and of
  \<open>hdr_record_value_atomic\<close>, which are the same two as atomic additions.\<close>

definition counts_inc_updates :: "hdr_histogram \<Rightarrow> int \<Rightarrow> (hdr_cell \<times> u64) list" where
  "counts_inc_updates h v = (if trackable h v then [(Slot (counts_index_for h v), 1), (Total, 1)] else [])"

lemma counts_amounts:
  "task_amount (counts_inc_updates h) vss (Slot i) = size {#v \<in># mset (concat vss). trackable h v \<and> counts_index_for h v = i#}"
  "task_amount (counts_inc_updates h) vss Total = size {#v \<in># mset (concat vss). trackable h v#}"
proof -
  have "amount_left (Slot i) (concat (map (counts_inc_updates h) vs)) = size {#v \<in># mset vs. trackable h v \<and> counts_index_for h v = i#}"
    "amount_left Total (concat (map (counts_inc_updates h) vs)) = size {#v \<in># mset vs. trackable h v#}" for vs
    by (induction vs) (auto simp: counts_inc_updates_def)
  then show "task_amount (counts_inc_updates h) vss (Slot i) = size {#v \<in># mset (concat vss). trackable h v \<and> counts_index_for h v = i#}"
    "task_amount (counts_inc_updates h) vss Total = size {#v \<in># mset (concat vss). trackable h v#}"
    by (simp_all only: task_amount_def)
qed

text \<open>Recording in the theory \<open>Hdr_Record\<close> is the two updates in a row.\<close>

lemma record_is_updates:
  assumes abs: "hdr_abs h M" and room: "int (size M) < INT64_MAX" and v: "trackable h v"
  shows "\<exists>h'. hdr_record_value h v = Some (True, h')
    \<and> update_step\<^sup>*\<^sup>* ([worker_with (counts_inc_updates h v)], hdr_memory h) ([worker_with []], hdr_memory h')"
proof -
  define h' where "h' = after_record h v 1"
  note wf = hdr_absD(1,2) [OF abs]
  have rec: "hdr_record_value h v = Some (True, h')"
    using hdr_record_values_trackable [OF wf v, of 1] by (simp add: hdr_record_value_def h'_def after_record_def Let_def)
  obtain h1 where "hdr_record_value h v = Some (True, h1)" "hdr_abs h1 (add_mset v M)"
    using hdr_record_values_abs [OF abs v, of 1] room by (auto simp: hdr_record_value_def)
  then have abs': "hdr_abs h' (add_mset v M)" using rec by simp
  have idx: "counts_index_for h' = counts_index_for h" "counts_len h' = counts_len h"
    by (simp_all add: h'_def after_record_def update_min_max_eq Let_def fun_eq_iff)
  note range = trackableD(3,4) [OF wf(1) v]
  have "hdr_memory h' c = fold add_update (counts_inc_updates h v) (hdr_memory h) c" for c
  proof (cases c)
    case (Slot i)
    then show ?thesis
      using hdr_abs_slot_count [OF abs, of i] hdr_abs_slot_count [OF abs', of i] range v
      by (cases "0 \<le> i \<and> i < counts_len h") (auto simp: hdr_memory_def counts_inc_updates_def add_update_def idx add.commute)
  next
    case Total
    then show ?thesis
      using hdr_absD(5) [OF abs] hdr_absD(5) [OF abs'] v
      by (simp add: hdr_memory_def counts_inc_updates_def add_update_def add.commute)
  qed
  then have "hdr_memory h' = fold add_update (counts_inc_updates h v) (hdr_memory h)" by (rule ext)
  then show ?thesis
    using rec update_steps_at [of "[]" "counts_inc_updates h v" "[]" "[]" "hdr_memory h"] by simp
qed

section \<open>Properties\<close>

text \<open>C17: The counters of the program under any interleaving of the loads and stores of all threads. When all
  updates are made, a count that was to grow by \<open>n\<close> has grown by at least 1 and at most \<open>n\<close>, and the time by at
  most the sum of the times. When no access comes between the load and the store of an update, both are
  exact. The lower bound is met: any number of threads can count a transaction each and the count grow by 1
  only.\<close>

theorem unlocked_counters:
  assumes run: "access_step\<^sup>*\<^sup>* (workers_for account_updates txnss, m0) (ws, m)" and made: "all_made ws"
    and n: "n = length (filter (\<lambda>t. fst t = op) (concat txnss))" "0 < n"
    and time: "time = (\<Sum>(o', t) \<leftarrow> concat txnss. if o' = op then unat t else 0)"
    and room: "\<And>c. unat (m0 c) + task_amount account_updates txnss c < 2 ^ 64"
  shows "unat (m0 (Ops_Cnt op)) + 1 \<le> unat (m (Ops_Cnt op)) \<and> unat (m (Ops_Cnt op)) \<le> unat (m0 (Ops_Cnt op)) + n
    \<and> unat (m0 (Ops_Time op)) \<le> unat (m (Ops_Time op)) \<and> unat (m (Ops_Time op)) \<le> unat (m0 (Ops_Time op)) + time
    \<and> (update_step\<^sup>*\<^sup>* (workers_for account_updates txnss, m0) (ws, m) \<longrightarrow>
         unat (m (Ops_Cnt op)) = unat (m0 (Ops_Cnt op)) + n \<and> unat (m (Ops_Time op)) = unat (m0 (Ops_Time op)) + time)
    \<and> (\<forall>k > 0. \<forall>t. \<exists>m'. access_step\<^sup>*\<^sup>* (workers_for account_updates (replicate k [(op, t)]), m0) (replicate k (worker_with []), m')
         \<and> m' (Ops_Cnt op) = m0 (Ops_Cnt op) + 1)"
proof -
  note amounts = account_amounts [of txnss op, folded n(1) time]
  have adds: "\<forall>t x. (Ops_Cnt op, x) \<in> set (account_updates t) \<longrightarrow> x \<noteq> 0" by (auto simp: account_updates_def split: prod.splits)
  note bounds = all_made_bounds [where c = "Ops_Cnt op", OF run made adds room]
  have lost: "\<exists>m'. access_step\<^sup>*\<^sup>* (workers_for account_updates (replicate k [(op, t)]), m0) (replicate k (worker_with []), m')
      \<and> m' (Ops_Cnt op) = m0 (Ops_Cnt op) + 1" if "0 < k" for k t
    using updates_lost [OF that, of "Ops_Cnt op" "[(Ops_Time op, t)]" "[]" 1 m0]
    by (simp add: account_updates_def flip: replicate_workers)
  show ?thesis
    using bounds(1,2,4) [where d = "Ops_Cnt op"] bounds(1,2,4) [where d = "Ops_Time op"] bounds(3) n(2) lost unfolding amounts by simp
qed

theorem unlocked_counters_witness:
  "\<exists>ws m. access_step\<^sup>*\<^sup>* (workers_for account_updates (replicate 2 [(READ, 5)]), \<lambda>_. 0) (ws, m) \<and> all_made ws
     \<and> 1 \<le> unat (m (Ops_Cnt READ)) \<and> unat (m (Ops_Cnt READ)) \<le> 2 \<and> unat (m (Ops_Time READ)) \<le> 10"
proof -
  let ?txnss = "replicate 2 [(READ, 5)] :: (operation \<times> u64) list list"
  have txnss: "concat ?txnss = [(READ, 5), (READ, 5)]" by (simp add: numeral_eq_Suc)
  then have amounts: "task_amount account_updates ?txnss (Ops_Cnt op) \<le> 2" "task_amount account_updates ?txnss (Ops_Time op) \<le> 10" for op
    unfolding account_amounts by simp_all
  obtain m where run: "access_step\<^sup>*\<^sup>* (workers_for account_updates ?txnss, \<lambda>_. 0) (replicate 2 (worker_with []), m)"
    using updates_lost [of 2 "Ops_Cnt READ" "[(Ops_Time READ, 5)]" "[]" 1 "\<lambda>_. 0"]
    by (auto simp: account_updates_def simp flip: replicate_workers)
  have "unat ((\<lambda>_. 0 :: u64) c) + task_amount account_updates ?txnss c < 2 ^ 64" for c
    by (cases c) (auto intro: le_less_trans [OF amounts(1)] le_less_trans [OF amounts(2)])
  from unlocked_counters [OF run replicate_made refl _ refl this, of READ] run show ?thesis
    by (intro exI [of _ "replicate 2 (worker_with [])"] exI [of _ m]) (simp add: txnss replicate_made sum_list_replicate)
qed

text \<open>C37: A latency histogram that holds the values \<open>M\<close> and into which several threads record without a lock.
  At the end a slot to which \<open>n\<close> of the values belong has grown by at least 1 and at most \<open>n\<close>, and the total by
  at most the number of the values. With atomic additions, as in \<open>hdr_record_value_atomic\<close>, all are exact.
  The lower bound is met: any number of threads can record the same value once each and its slot grow by 1 only.\<close>

theorem unlocked_histograms:
  assumes abs: "hdr_abs h M" and i: "0 \<le> i" "i < counts_len h"
    and run: "access_step\<^sup>*\<^sup>* (workers_for (counts_inc_updates h) vss, hdr_memory h) (ws, m)" and made: "all_made ws"
    and n: "n = size {#v \<in># mset (concat vss). trackable h v \<and> counts_index_for h v = i#}" "0 < n"
    and k: "k = size {#v \<in># mset (concat vss). trackable h v#}"
    and c: "c = size {#v \<in># M. counts_index_for h v = i#}"
    and room: "int (size M + length (concat vss)) \<le> INT64_MAX"
  shows "c + 1 \<le> unat (m (Slot i)) \<and> unat (m (Slot i)) \<le> c + n
    \<and> size M \<le> unat (m Total) \<and> unat (m Total) \<le> size M + k
    \<and> (update_step\<^sup>*\<^sup>* (workers_for (counts_inc_updates h) vss, hdr_memory h) (ws, m) \<longrightarrow>
         unat (m (Slot i)) = c + n \<and> unat (m Total) = size M + k)
    \<and> (\<forall>v. \<forall>j > 0. trackable h v \<longrightarrow>
         (\<exists>m'. access_step\<^sup>*\<^sup>* (workers_for (counts_inc_updates h) (replicate j [v]), hdr_memory h) (replicate j (worker_with []), m')
            \<and> m' (Slot (counts_index_for h v)) = hdr_memory h (Slot (counts_index_for h v)) + 1))"
proof -
  have cells: "unat (hdr_memory h (Slot j)) = (if 0 \<le> j \<and> j < counts_len h then size {#v \<in># M. counts_index_for h v = j#} else 0)"
    "unat (hdr_memory h Total) = size M" for j
    using hdr_abs_slot_count [OF abs, of j] hdr_absD(5,6) [OF abs]
      le_trans [OF size_filter_le [of "\<lambda>v. counts_index_for h v = j" M], of 9223372036854775807]
    by (auto simp: hdr_memory_def unat_of_nat)
  have size: "size {#v \<in># mset (concat vss). P v#} \<le> length (concat vss)" for P
    using size_filter_le [of P "mset (concat vss)"] by simp
  have room': "unat (hdr_memory h d) + task_amount (counts_inc_updates h) vss d < 2 ^ 64" for d
  proof (cases d)
    case (Slot j)
    have "unat (hdr_memory h (Slot j)) \<le> size M" by (simp add: cells size_filter_le)
    then show ?thesis
      using room size [of "\<lambda>v. trackable h v \<and> counts_index_for h v = j"] unfolding Slot counts_amounts by simp
  next
    case Total
    then show ?thesis
      using room size [of "trackable h"] unfolding Total counts_amounts cells by simp
  qed
  have adds: "\<forall>v x. (Slot i, x) \<in> set (counts_inc_updates h v) \<longrightarrow> x \<noteq> 0" by (auto simp: counts_inc_updates_def split: if_splits)
  note bounds = all_made_bounds [where c = "Slot i", OF run made adds room']
  have lost: "\<exists>m'. access_step\<^sup>*\<^sup>* (workers_for (counts_inc_updates h) (replicate j [v]), hdr_memory h) (replicate j (worker_with []), m')
      \<and> m' (Slot (counts_index_for h v)) = hdr_memory h (Slot (counts_index_for h v)) + 1" if "0 < j" "trackable h v" for j v
    using updates_lost [OF that(1), of "Slot (counts_index_for h v)" "[]" "[(Total, 1)]" 1 "hdr_memory h"] that(2)
    by (simp add: counts_inc_updates_def flip: replicate_workers)
  have amounts: "task_amount (counts_inc_updates h) vss (Slot i) = n" "task_amount (counts_inc_updates h) vss Total = k"
    "unat (hdr_memory h (Slot i)) = c"
    using i by (simp_all add: counts_amounts n(1) k c cells)
  show ?thesis
  proof (intro conjI allI impI)
    show "c + 1 \<le> unat (m (Slot i))" using bounds(3) n(2) unfolding amounts by simp
    show "unat (m (Slot i)) \<le> c + n" using bounds(2) [where d = "Slot i"] unfolding amounts .
    show "size M \<le> unat (m Total)" "unat (m Total) \<le> size M + k"
      using bounds(1,2) [where d = Total] unfolding amounts cells(2) .
    show "unat (m (Slot i)) = c + n" "unat (m Total) = size M + k"
      if "update_step\<^sup>*\<^sup>* (workers_for (counts_inc_updates h) vss, hdr_memory h) (ws, m)"
      using bounds(4) [where d = "Slot i", OF that] bounds(4) [where d = Total, OF that] unfolding amounts cells(2) .
  qed (rule lost)
qed

theorem unlocked_histograms_witness:
  "\<exists>ws m. access_step\<^sup>*\<^sup>* (workers_for (counts_inc_updates small_histogram) (replicate 2 [5]), hdr_memory small_histogram) (ws, m)
     \<and> 1 \<le> unat (m (Slot 5)) \<and> unat (m (Slot 5)) \<le> 2 \<and> unat (m Total) \<le> 2"
proof -
  let ?h = small_histogram and ?vss = "replicate 2 [5] :: int list list"
  have idx: "counts_index_for ?h 5 = 5" "5 < counts_len ?h" by code_simp+
  have track: "trackable ?h 5" by (simp add: small_histogram_trackable)
  have vss: "concat ?vss = [5, 5]" by (simp add: numeral_eq_Suc)
  obtain m where run: "access_step\<^sup>*\<^sup>* (workers_for (counts_inc_updates ?h) ?vss, hdr_memory ?h) (replicate 2 (worker_with []), m)"
    using updates_lost [of 2 "Slot 5" "[]" "[(Total, 1)]" 1 "hdr_memory ?h"] track
    by (auto simp: counts_inc_updates_def idx simp flip: replicate_workers)
  have "0 < size {#v \<in># mset (concat ?vss). trackable ?h v \<and> counts_index_for ?h v = 5#}"
    by (simp add: vss track idx)
  moreover have "int (size ({#} :: int multiset) + length (concat ?vss)) \<le> INT64_MAX" by (simp add: vss)
  ultimately show ?thesis
    using unlocked_histograms [OF small_histogram_abs _ idx(2) run replicate_made refl _ refl refl] run
    by (intro exI [of _ "replicate 2 (worker_with [])"] exI [of _ m]) (simp add: vss track idx)
qed

end
