(* ===== verification/Ycsb_Monitor.thy ===== *)
theory Ycsb_Monitor
  imports Ycsb_Db
begin

text \<open>
  The status threads of the RocksDB-Cloud database: the readers of \<open>/proc/net/dev\<close> and
  \<open>/proc/diskstats\<close> (\<open>lib/perf_disk_net_bw.h\<close>), the report written every second with the traffic and
  the counters of the store since the report before, the summary at the end, and the report of the store's
  own statistics every ten seconds (\<open>db/rocksdb_cloud_db.cc\<close>). What the threads find when they wake
  up, the contents of the files, the counters and the flags, is an argument. Output is kept as the numbers
  that are printed.
\<close>

section \<open>Reading text\<close>

text \<open>The lines that \<open>while (std::getline(file, line))\<close> sees, and the words of a line.\<close>

lemma c_getline_pair: "(line, Some rest) = c_getline s \<Longrightarrow> length rest < length s"
  by (rule c_getline_rest) (metis snd_conv)

function text_lines :: "string \<Rightarrow> string list" where
  "text_lines s =
     (if s = [] then []
      else case c_getline s of
             (line, None) \<Rightarrow> [line]
           | (line, Some rest) \<Rightarrow> line # text_lines rest)"
  by pat_completeness auto
termination
  by (relation "measure length") (auto intro: c_getline_pair)

function c_words :: "string \<Rightarrow> string list" where
  "c_words s =
     (let t = dropWhile c_isspace s in
      if t = [] then []
      else takeWhile (\<lambda>c. \<not> c_isspace c) t # c_words (dropWhile (\<lambda>c. \<not> c_isspace c) t))"
  by pat_completeness auto
termination
proof (relation "measure length", simp_all)
  fix s assume "\<exists>x\<in>set s. \<not> c_isspace x"
  then obtain c t where t: "dropWhile c_isspace s = c # t" "\<not> c_isspace c"
    by (cases "dropWhile c_isspace s") (auto simp: dropWhile_eq_Cons_conv)
  have "length (dropWhile (\<lambda>c. \<not> c_isspace c) (c # t)) \<le> length t"
    using t(2) by (simp add: length_dropWhile_le)
  also have "\<dots> < length s" using length_dropWhile_le [of c_isspace s] t(1) by simp
  finally show "length (dropWhile (\<lambda>c. \<not> c_isspace c) (dropWhile c_isspace s)) < length s" using t(1) by simp
qed

declare text_lines.simps [simp del] c_words.simps [simp del]

definition c_stoll :: "string \<Rightarrow> ycsb_exn + int" where
  "c_stoll s =
     (case split_sign s of (sign, rest) \<Rightarrow>
        let ds = takeWhile is_digit rest; v = sign * int (digits_value ds) in
        if ds = [] then Inl Invalid_Argument
        else if INT64_MIN \<le> v \<and> v \<le> INT64_MAX then Inr v
        else Inl Out_Of_Range)"

text \<open>\<open>iss >> n\<close> for a number of the given range, and for a word; \<open>None\<close> when the stream fails.\<close>

definition extract_number :: "int \<Rightarrow> int \<Rightarrow> string \<Rightarrow> (int \<times> string) option" where
  "extract_number lo hi s =
     (case split_sign s of (sign, rest) \<Rightarrow>
        let ds = takeWhile is_digit rest; v = sign * int (digits_value ds) in
        if ds = [] \<or> v < lo \<or> hi < v then None else Some (v, dropWhile is_digit rest))"

definition extract_word :: "string \<Rightarrow> (string \<times> string) option" where
  "extract_word s =
     (let t = dropWhile c_isspace s in
      if t = [] then None else Some (takeWhile (\<lambda>c. \<not> c_isspace c) t, dropWhile (\<lambda>c. \<not> c_isspace c) t))"

abbreviation extract_int :: "string \<Rightarrow> (int \<times> string) option" where
  "extract_int \<equiv> extract_number INT32_MIN INT32_MAX"

abbreviation extract_long :: "string \<Rightarrow> (int \<times> string) option" where
  "extract_long \<equiv> extract_number INT64_MIN INT64_MAX"

section \<open>The readers\<close>

record net_stats =
  rxBytes :: int
  txBytes :: int

text \<open>A line of \<open>/proc/net/dev\<close>; an index outside the vector of fields is undefined.\<close>

definition strip_colon :: "string \<Rightarrow> string" where
  "strip_colon iface = (if iface \<noteq> [] \<and> last iface = CHR '':'' then butlast iface else iface)"

definition net_line :: "string \<Rightarrow> run_stop + string \<times> net_stats" where
  "net_line line =
     (let ws = c_words line;
          iface = strip_colon (case ws of [] \<Rightarrow> [] | w # _ \<Rightarrow> w);
          fields = (case ws of [] \<Rightarrow> [] | _ # fs \<Rightarrow> fs)
      in if fields = [] then Inl Stop_Undefined
         else andthen (or_throw (c_stoll (fields ! 0))) (\<lambda>rx.
           if length fields \<le> 8 then Inl Stop_Undefined
           else andthen (or_throw (c_stoll (fields ! 8))) (\<lambda>tx.
             Inr (iface, \<lparr>rxBytes = rx, txBytes = tx\<rparr>))))"

fun net_loop :: "string list \<Rightarrow> (string \<times> net_stats) list \<Rightarrow> run_stop + (string \<times> net_stats) list" where
  "net_loop [] stats = Inr stats"
| "net_loop (line # lines) stats = andthen (net_line line) (\<lambda>(iface, st). net_loop lines (map_put iface st stats))"

text \<open>A file that cannot be opened gives no lines.\<close>

definition getNetStats :: "string option \<Rightarrow> run_stop + (string \<times> net_stats) list" where
  "getNetStats file =
     net_loop (drop 2 (text_lines (case file of None \<Rightarrow> [] | Some s \<Rightarrow> s))) []"

definition DISK_NAME :: string where
  "DISK_NAME = ''nvme1n1''"

record disk_stats =
  sectors_read :: int
  sectors_written :: int

definition disk_line :: "string \<Rightarrow> (string \<times> disk_stats) option" where
  "disk_line line = do {
     (major, s1) \<leftarrow> extract_int line;
     (minor, s2) \<leftarrow> extract_int s1;
     (disk_name, s3) \<leftarrow> extract_word s2;
     (reads_completed, s4) \<leftarrow> extract_long s3;
     (reads_merged, s5) \<leftarrow> extract_long s4;
     (sectors_read_tmp, s6) \<leftarrow> extract_long s5;
     (time_reading, s7) \<leftarrow> extract_long s6;
     (writes_completed, s8) \<leftarrow> extract_long s7;
     (writes_merged, s9) \<leftarrow> extract_long s8;
     (sectors_written_tmp, s10) \<leftarrow> extract_long s9;
     (time_writing, s11) \<leftarrow> extract_long s10;
     Some (disk_name, \<lparr>sectors_read = sectors_read_tmp, sectors_written = sectors_written_tmp\<rparr>)
   }"

fun disk_loop :: "string list \<Rightarrow> disk_stats" where
  "disk_loop [] = \<lparr>sectors_read = 0, sectors_written = 0\<rparr>"
| "disk_loop (line # lines) =
     (case disk_line line of
        None \<Rightarrow> disk_loop lines
      | Some (disk_name, st) \<Rightarrow> if disk_name = DISK_NAME then st else disk_loop lines)"

definition get_disk_stats :: "string option \<Rightarrow> disk_stats" where
  "get_disk_stats file =
     (case file of None \<Rightarrow> \<lparr>sectors_read = 0, sectors_written = 0\<rparr> | Some s \<Rightarrow> disk_loop (text_lines s))"

section \<open>Traffic between two readings\<close>

text \<open>Signed differences and products are undefined when they overflow.\<close>

definition checked :: "int \<Rightarrow> run_stop + int" where
  "checked x = (if INT64_MIN \<le> x \<and> x \<le> INT64_MAX then Inr x else Inl Stop_Undefined)"

definition contains_str :: "string \<Rightarrow> string \<Rightarrow> bool" where
  "contains_str str sub = (\<exists>i \<le> length str. take (length sub) (drop i str) = sub)"

text \<open>Received and sent megabytes per second of the interfaces that were there in the first reading;
  one that is gone in the second is an exception. The interval is one second.\<close>

fun net_bandwidth ::
    "(string \<times> net_stats) list \<Rightarrow> (string \<times> net_stats) list \<Rightarrow> run_stop + (string \<times> real \<times> real) list" where
  "net_bandwidth [] stats2 = Inr []"
| "net_bandwidth ((iface, st) # stats1) stats2 =
     (if \<not> contains_str iface ''ens5'' then net_bandwidth stats1 stats2
      else case map_of stats2 iface of
             None \<Rightarrow> Inl (Stop_Exn Out_Of_Range)
           | Some st2 \<Rightarrow>
               andthen (checked (rxBytes st2 - rxBytes st)) (\<lambda>rxDiff.
               andthen (checked (txBytes st2 - txBytes st)) (\<lambda>txDiff.
               andthen (net_bandwidth stats1 stats2) (\<lambda>rest.
                 Inr ((iface, real_of_int rxDiff / 1024 / 1024, real_of_int txDiff / 1024 / 1024) # rest)))))"

definition disk_bandwidth :: "disk_stats \<Rightarrow> disk_stats \<Rightarrow> run_stop + real \<times> real" where
  "disk_bandwidth st1 st2 =
     andthen (checked (sectors_read st2 - sectors_read st1)) (\<lambda>readDiff.
     andthen (checked (sectors_written st2 - sectors_written st1)) (\<lambda>writeDiff.
     andthen (checked (readDiff * 512)) (\<lambda>r.
     andthen (checked (writeDiff * 512)) (\<lambda>w.
       Inr (real_of_int r / 1024 / 1024, real_of_int w / 1024 / 1024)))))"

text \<open>A round of \<open>calculateBandwidth\<close>: both readings of both files.\<close>

definition bandwidth_round ::
    "string option \<Rightarrow> string option \<Rightarrow> string option \<Rightarrow> string option \<Rightarrow> run_stop + (string \<times> real \<times> real) list \<times> real \<times> real" where
  "bandwidth_round net1 disk1 net2 disk2 =
     andthen (getNetStats net1) (\<lambda>net_stats1.
     andthen (getNetStats net2) (\<lambda>net_stats2.
     andthen (net_bandwidth net_stats1 net_stats2) (\<lambda>net.
     andthen (disk_bandwidth (get_disk_stats disk1) (get_disk_stats disk2)) (\<lambda>disk.
       Inr (net, disk)))))"

text \<open>
  \<open>calculateBandwidth\<close> over the readings of its rounds: what it has written after them, and what stopped it
  if anything did; the loop itself has no end. The rates are divided by the interval, which is positive.
  When the file cannot be opened nothing is read.
\<close>

definition per_second ::
    "int \<Rightarrow> (string \<times> real \<times> real) list \<times> real \<times> real \<Rightarrow> (string \<times> real \<times> real) list \<times> real \<times> real" where
  "per_second intervalSeconds = (\<lambda>(net, readThroughput, writeThroughput).
     let secs = real_of_int intervalSeconds in
     (map (\<lambda>(iface, rx, tx). (iface, rx / secs, tx / secs)) net, readThroughput / secs, writeThroughput / secs))"

type_synonym readings = "string option \<times> string option \<times> string option \<times> string option"

fun bandwidth_loop ::
    "int \<Rightarrow> readings list \<Rightarrow> ((string \<times> real \<times> real) list \<times> real \<times> real) list \<times> run_stop option" where
  "bandwidth_loop secs [] = ([], None)"
| "bandwidth_loop secs ((net1, disk1, net2, disk2) # rs) =
     (case bandwidth_round net1 disk1 net2 disk2 of
        Inl e \<Rightarrow> ([], Some e)
      | Inr rates \<Rightarrow> (case bandwidth_loop secs rs of (out, e) \<Rightarrow> (per_second secs rates # out, e)))"

definition calculateBandwidth ::
    "bool \<Rightarrow> int \<Rightarrow> readings list \<Rightarrow> ((string \<times> real \<times> real) list \<times> real \<times> real) list \<times> run_stop option" where
  "calculateBandwidth opened intervalSeconds rs =
     (if \<not> opened then ([], None) else bandwidth_loop intervalSeconds rs)"

section \<open>The report of every second\<close>

datatype ticker =
    BYTES_READ | BYTES_WRITTEN | NUMBER_KEYS_WRITTEN | NUMBER_KEYS_READ
  | NUMBER_DB_SEEK_FOUND | NUMBER_DB_NEXT_FOUND | NUMBER_DB_PREV_FOUND | ITER_BYTES_READ | STALL_MICROS
  | MEMTABLE_HIT | MEMTABLE_MISS | GET_HIT_L0 | GET_HIT_L1 | GET_HIT_L2 | GET_HIT_L3 | GET_HIT_L4_AND_UP
  | BLOCK_CACHE_DATA_HIT | BLOCK_CACHE_DATA_MISS
  | BLOOM_FILTER_USEFUL | BLOOM_FILTER_FULL_POSITIVE | BLOOM_FILTER_FULL_TRUE_POSITIVE

datatype stats_histogram = DB_GET | DB_WRITE | DB_SEEK | SST_READ_MICROS | COMPACTION_TIME

definition kMB :: real where
  "kMB = 1024 * 1024"

text \<open>The global snapshots.\<close>

record status_snaps =
  total_time :: u64
  user_write_bytes_snap :: u64
  user_read_bytes_snap :: u64
  number_keys_write_snap :: u64
  number_keys_read_snap :: u64
  number_db_seek_snap :: u64
  number_db_next_snap :: u64
  number_db_prev_snap :: u64
  iter_bytes_read_snap :: u64

definition first_snaps :: status_snaps where
  "first_snaps =
     \<lparr>total_time = 0, user_write_bytes_snap = 0, user_read_bytes_snap = 0, number_keys_write_snap = 0,
      number_keys_read_snap = 0, number_db_seek_snap = 0, number_db_next_snap = 0, number_db_prev_snap = 0,
      iter_bytes_read_snap = 0\<rparr>"

definition to_double :: "u64 \<Rightarrow> real" where
  "to_double w = real (unat w)"

text \<open>A quotient of doubles, \<open>None\<close> when it is not a number or infinite.\<close>

definition ratio :: "u64 \<Rightarrow> u64 \<Rightarrow> real option" where
  "ratio a b = (if b = 0 then None else Some (to_double a / to_double b))"

record status_report =
  rp_net :: "(string \<times> real \<times> real) list"
  rp_disk :: "real \<times> real"
  rp_total_write_Mops :: real
  rp_write_MB :: real
  rp_write_ops :: real
  rp_total_read_Mops :: real
  rp_read_MB :: real
  rp_read_ops :: real
  rp_iter_MB :: real
  rp_seek_ops :: real
  rp_next_ops :: real
  rp_prev_ops :: real
  rp_block_cache :: "u64 \<times> u64 \<times> real option"
  rp_bloom :: "u64 \<times> u64 \<times> u64 \<times> u64 \<times> real option"
  rp_blob_stats :: string

text \<open>What the thread finds: both readings, whether the program is done, and the counters, histograms and
  texts of the store.\<close>

record status_sample =
  sm_net1 :: "string option"
  sm_disk1 :: "string option"
  sm_done :: bool
  sm_net2 :: "string option"
  sm_disk2 :: "string option"
  sm_ticker :: "ticker \<Rightarrow> u64"
  sm_histogram :: "stats_histogram \<Rightarrow> string"
  sm_statistics :: string
  sm_blob_stats :: string

definition rocks_report ::
    "(ticker \<Rightarrow> u64) \<Rightarrow> string \<Rightarrow> (string \<times> real \<times> real) list \<Rightarrow> real \<times> real \<Rightarrow> status_snaps \<Rightarrow> status_report" where
  "rocks_report tick blob net disk sn =
     \<lparr>rp_net = net, rp_disk = disk,
      rp_total_write_Mops = to_double (tick NUMBER_KEYS_WRITTEN) / 1000 / 1000,
      rp_write_MB = to_double (tick BYTES_WRITTEN - user_write_bytes_snap sn) / kMB,
      rp_write_ops = to_double (tick NUMBER_KEYS_WRITTEN - number_keys_write_snap sn),
      rp_total_read_Mops = to_double (tick NUMBER_KEYS_READ) / 1000 / 1000,
      rp_read_MB = to_double (tick BYTES_READ - user_read_bytes_snap sn) / kMB,
      rp_read_ops = to_double (tick NUMBER_KEYS_READ - number_keys_read_snap sn),
      rp_iter_MB = to_double (tick ITER_BYTES_READ - iter_bytes_read_snap sn) / kMB,
      rp_seek_ops = to_double (tick NUMBER_DB_SEEK_FOUND - number_db_seek_snap sn),
      rp_next_ops = to_double (tick NUMBER_DB_NEXT_FOUND - number_db_next_snap sn),
      rp_prev_ops = to_double (tick NUMBER_DB_PREV_FOUND - number_db_prev_snap sn),
      rp_block_cache = (tick BLOCK_CACHE_DATA_HIT, tick BLOCK_CACHE_DATA_MISS,
        ratio (tick BLOCK_CACHE_DATA_HIT) (tick BLOCK_CACHE_DATA_HIT + tick BLOCK_CACHE_DATA_MISS)),
      rp_bloom =
        (let useful = tick BLOOM_FILTER_USEFUL; positive = tick BLOOM_FILTER_FULL_POSITIVE;
             true_positive = tick BLOOM_FILTER_FULL_TRUE_POSITIVE; false_positive = positive - true_positive
         in (useful, positive, true_positive, false_positive, ratio false_positive (useful + positive))),
      rp_blob_stats = blob\<rparr>"

definition take_snaps :: "(ticker \<Rightarrow> u64) \<Rightarrow> status_snaps \<Rightarrow> status_snaps" where
  "take_snaps tick sn =
     sn\<lparr>user_write_bytes_snap := tick BYTES_WRITTEN, user_read_bytes_snap := tick BYTES_READ,
        number_keys_write_snap := tick NUMBER_KEYS_WRITTEN, number_keys_read_snap := tick NUMBER_KEYS_READ,
        number_db_seek_snap := tick NUMBER_DB_SEEK_FOUND, number_db_next_snap := tick NUMBER_DB_NEXT_FOUND,
        number_db_prev_snap := tick NUMBER_DB_PREV_FOUND, iter_bytes_read_snap := tick ITER_BYTES_READ\<rparr>"

record status_summary =
  su_total_time :: u64
  su_read :: "real \<times> real option"
  su_write :: "real \<times> real option"
  su_write_op :: "real \<times> real option"
  su_read_op :: "real \<times> real option"
  su_seek :: "real \<times> real option"
  su_next :: "real \<times> real option"
  su_prev :: "real \<times> real option"
  su_levels :: "u64 list"
  su_histograms :: "string list"
  su_statistics :: string

definition print_summary :: "status_sample \<Rightarrow> status_snaps \<Rightarrow> status_summary" where
  "print_summary x sn =
     (let tick = sm_ticker x;
          t = total_time sn;
          per = (\<lambda>x. if t = 0 then None else Some (x / to_double t)) in
      \<lparr>su_total_time = t,
       su_read = (to_double (tick BYTES_READ) / kMB, per (to_double (tick BYTES_READ) / kMB)),
       su_write = (to_double (tick BYTES_WRITTEN) / kMB, per (to_double (tick BYTES_WRITTEN) / kMB)),
       su_write_op = (to_double (tick NUMBER_KEYS_WRITTEN) / 1000 / 1000, per (to_double (tick NUMBER_KEYS_WRITTEN) / 1000)),
       su_read_op = (to_double (tick NUMBER_KEYS_READ) / 1000 / 1000, per (to_double (tick NUMBER_KEYS_READ) / 1000)),
       su_seek = (to_double (tick NUMBER_DB_SEEK_FOUND) / 1000, per (to_double (tick NUMBER_DB_SEEK_FOUND) / 1000)),
       su_next = (to_double (tick NUMBER_DB_NEXT_FOUND) / 1000, per (to_double (tick NUMBER_DB_NEXT_FOUND) / 1000)),
       su_prev = (to_double (tick NUMBER_DB_PREV_FOUND) / 1000, per (to_double (tick NUMBER_DB_PREV_FOUND) / 1000)),
       su_levels = map tick [MEMTABLE_HIT, MEMTABLE_MISS, GET_HIT_L0, GET_HIT_L1, GET_HIT_L2, GET_HIT_L3, GET_HIT_L4_AND_UP],
       su_histograms = map (sm_histogram x) [DB_GET, DB_WRITE, DB_SEEK, SST_READ_MICROS, COMPACTION_TIME],
       su_statistics = sm_statistics x\<rparr>)"

text \<open>
  The loop of \<open>print_my_status\<close> over the samples it takes: the reports, the summary if the program was
  done within them, and the snapshots. A reading that stops ends the process.
\<close>

fun status_loop ::
    "status_sample list \<Rightarrow> status_snaps \<Rightarrow> run_stop + status_report list \<times> status_summary option \<times> status_snaps" where
  "status_loop [] sn = Inr ([], None, sn)"
| "status_loop (x # xs) sn =
     andthen (getNetStats (sm_net1 x)) (\<lambda>net_stats1.
       let disk_stats1 = get_disk_stats (sm_disk1 x);
           sn1 = sn\<lparr>total_time := total_time sn + 1\<rparr> in
       if sm_done x then Inr ([], Some (print_summary x sn1), sn1)
       else
         andthen (getNetStats (sm_net2 x)) (\<lambda>net_stats2.
         andthen (net_bandwidth net_stats1 net_stats2) (\<lambda>net.
         andthen (disk_bandwidth disk_stats1 (get_disk_stats (sm_disk2 x))) (\<lambda>disk.
         andthen (status_loop xs (take_snaps (sm_ticker x) sn1)) (\<lambda>(rps, su, sn2).
           Inr (rocks_report (sm_ticker x) (sm_blob_stats x) net disk sn1 # rps, su, sn2))))))"

text \<open>\<open>print_my_status\<close> returns at once when its file cannot be opened.\<close>

definition print_my_status ::
    "bool \<Rightarrow> status_sample list \<Rightarrow> status_snaps \<Rightarrow> run_stop + status_report list \<times> status_summary option \<times> status_snaps" where
  "print_my_status opened samples sn = (if \<not> opened then Inr ([], None, sn) else status_loop samples sn)"

section \<open>The report of the store's statistics\<close>

text \<open>
  A sample is what the thread finds after ten seconds: the flag \<open>done\<close>, whether the main thread has set
  \<open>finish\<close> meanwhile, and the two texts of the store. The result has the flag \<open>finish\<close> as it is left.
\<close>

datatype stats_line =
    Write_Finished
  | Stats_Block string string

fun rocks_stats_loop :: "(bool \<times> bool \<times> string \<times> string) list \<Rightarrow> bool \<Rightarrow> stats_line list \<times> bool" where
  "rocks_stats_loop [] finish = ([], finish)"
| "rocks_stats_loop ((is_done, set_finish, stats, cache) # xs) finish =
     (let finish1 = (finish \<or> set_finish) in
      if is_done then ([], finish1)
      else case rocks_stats_loop xs False of
             (out, finish2) \<Rightarrow> ((if finish1 then [Write_Finished] else []) @ Stats_Block stats cache # out, finish2))"

definition printRocksDBStats :: "bool \<Rightarrow> (bool \<times> bool \<times> string \<times> string) list \<Rightarrow> bool \<Rightarrow> stats_line list \<times> bool" where
  "printRocksDBStats opened samples finish = (if \<not> opened then ([], finish) else rocks_stats_loop samples finish)"

section \<open>Lines and words\<close>

text \<open>A line of a file under \<open>/proc\<close>: words with a number of blanks in front of each.\<close>

definition proc_line :: "(nat \<times> string) list \<Rightarrow> string" where
  "proc_line ws = concat (map (\<lambda>(n, w). replicate n (CHR '' '') @ w) ws)"

definition unlines :: "string list \<Rightarrow> string" where
  "unlines lines = concat (map (\<lambda>line. line @ [CHR 0x0A]) lines)"

definition is_word :: "string \<Rightarrow> bool" where
  "is_word w \<longleftrightarrow> w \<noteq> [] \<and> list_all (\<lambda>c. \<not> c_isspace c) w"

lemma c_isspace_blank [simp]: "c_isspace (CHR '' '')" "c_isspace (CHR 0x0A)"
  by (simp_all add: c_isspace_def)

lemma is_digit_not_blank: "is_digit c \<Longrightarrow> \<not> c_isspace c"
  by (auto simp: is_digit_def c_isspace_def Let_def)

lemma is_word_to_string [simp]: "is_word (to_string n)"
  using to_string_digits [of n] by (auto simp: is_word_def list_all_iff is_digit_not_blank)

lemma is_word_name [simp]: "is_word (iface @ '':'') \<longleftrightarrow> list_all (\<lambda>c. \<not> c_isspace c) iface"
  by (auto simp: is_word_def c_isspace_def)

lemma proc_line_simps [simp]:
  "proc_line [] = []"
  "proc_line ((n, w) # ws) = replicate n (CHR '' '') @ w @ proc_line ws"
  by (simp_all add: proc_line_def)

lemma unlines_simps [simp]:
  "unlines [] = []"
  "unlines (line # lines) = line @ CHR 0x0A # unlines lines"
  by (simp_all add: unlines_def)

lemma text_lines_unlines: "list_all (\<lambda>line. CHR 0x0A \<notin> set line) lines \<Longrightarrow> text_lines (unlines lines) = lines"
proof (induction lines)
  case (Cons line lines)
  from Cons.prems have "takeWhile (\<lambda>c. c \<noteq> CHR 0x0A) (unlines (line # lines)) = line" by (simp add: takeWhile_append)
  then have "c_getline (unlines (line # lines)) = (line, Some (unlines lines))" by (simp add: c_getline_def)
  with Cons show ?case by (subst text_lines.simps) simp
qed (simp add: text_lines.simps)

text \<open>Blanks stand in front of every word but perhaps the first.\<close>

definition spaced :: "(nat \<times> string) list \<Rightarrow> bool" where
  "spaced ws \<longleftrightarrow> list_all (\<lambda>(n, w). is_word w) ws \<and> list_all (\<lambda>(n, w). 0 < n) (tl ws)"

lemma spaced_Cons: "spaced ((n, w) # ws) \<Longrightarrow> is_word w \<and> spaced ws \<and> list_all (\<lambda>(n, w). 0 < n) ws"
  by (cases ws) (auto simp: spaced_def)

lemma blank_first: "list_all (\<lambda>(n, w). 0 < n) ws \<Longrightarrow> proc_line ws = [] \<or> hd (proc_line ws) = CHR '' ''"
  by (cases ws) (auto simp: gr0_conv_Suc)

lemma dropWhile_blanks: "w \<noteq> [] \<Longrightarrow> \<not> c_isspace (hd w) \<Longrightarrow> dropWhile c_isspace (replicate n (CHR '' '') @ w @ rest) = w @ rest"
  by (cases w; induction n) auto

lemma split_word:
  assumes "list_all P w" "rest = [] \<or> \<not> P (hd rest)"
  shows "takeWhile P (w @ rest) = w" "dropWhile P (w @ rest) = rest"
  using assms by (cases rest; auto simp: list_all_iff takeWhile_append2 dropWhile_append2)+

lemma c_words_proc_line: "spaced ws \<Longrightarrow> c_words (proc_line ws) = map snd ws"
proof (induction ws)
  case (Cons nw ws)
  obtain n w where nw: "nw = (n, w)" by (cases nw)
  from spaced_Cons Cons.prems have w: "is_word w" "spaced ws" "list_all (\<lambda>(n, w). 0 < n) ws" unfolding nw by blast+
  then have hd: "w \<noteq> []" "\<not> c_isspace (hd w)" by (cases w; auto simp: is_word_def)+
  have rest: "proc_line ws = [] \<or> \<not> \<not> c_isspace (hd (proc_line ws))" using blank_first [OF w(3)] by auto
  from w(1) have all: "list_all (\<lambda>c. \<not> c_isspace c) w" by (simp add: is_word_def)
  show ?case
    using Cons.IH [OF w(2)] split_word [OF all rest] dropWhile_blanks [OF hd] hd(1)
    by (subst c_words.simps) (simp add: nw)
qed (simp add: c_words.simps)

lemma no_newline_proc_line: "spaced ws \<Longrightarrow> CHR 0x0A \<notin> set (proc_line ws)"
  by (force simp: proc_line_def spaced_def is_word_def list_all_iff)

lemma all_digits: "takeWhile is_digit (to_string n) = to_string n"
  unfolding takeWhile_eq_all_conv using to_string_digits [of n] by (simp add: list_all_iff)

lemma c_stoll_to_string: "int n \<le> INT64_MAX \<Longrightarrow> c_stoll (to_string n) = Inr (int n)"
  by (simp add: c_stoll_def split_sign_to_string all_digits)

lemma extract_number_to_string:
  assumes "lo \<le> int n" "int n \<le> hi" "rest = [] \<or> hd rest = CHR '' ''"
  shows "extract_number lo hi (replicate k (CHR '' '') @ to_string n @ rest) = Some (int n, rest)"
proof -
  have "split_sign (replicate k (CHR '' '') @ to_string n @ rest) = (1, to_string n @ rest)"
    using to_string_head [of n] dropWhile_blanks [of "to_string n" k rest]
    by (cases "to_string n") (auto simp: split_sign_def)
  moreover have "rest = [] \<or> \<not> is_digit (hd rest)" using assms(3) by (auto simp: is_digit_def)
  ultimately show ?thesis
    using assms(1,2) split_word [OF to_string_digits, of rest n] by (simp add: extract_number_def Let_def)
qed

lemma extract_word_proc:
  assumes "is_word w" "rest = [] \<or> hd rest = CHR '' ''"
  shows "extract_word (replicate k (CHR '' '') @ w @ rest) = Some (w, rest)"
proof -
  have hd: "w \<noteq> []" "\<not> c_isspace (hd w)" using assms by (cases w; auto simp: is_word_def)+
  have "list_all (\<lambda>c. \<not> c_isspace c) w" "rest = [] \<or> \<not> \<not> c_isspace (hd rest)" using assms by (auto simp: is_word_def)
  from split_word [OF this] dropWhile_blanks [OF hd] hd show ?thesis by (simp add: extract_word_def)
qed

section \<open>The readers read what the kernel prints\<close>

text \<open>A row of \<open>/proc/net/dev\<close> has the name of an interface and at least nine counters, a row of
  \<open>/proc/diskstats\<close> the numbers and the name of a device and at least eight; a counter comes with the number of
  blanks in front of it.\<close>

type_synonym counters = "(nat \<times> nat) list"

definition counter :: "counters \<Rightarrow> nat \<Rightarrow> int" where
  "counter cs i = int (snd (cs ! i))"

abbreviation counter_words :: "counters \<Rightarrow> (nat \<times> string) list" where
  "counter_words \<equiv> map (\<lambda>(n, c). (n, to_string c))"

definition counters_ok :: "nat \<Rightarrow> counters \<Rightarrow> bool" where
  "counters_ok k cs \<longleftrightarrow> k \<le> length cs \<and> list_all (\<lambda>(n, c). 0 < n \<and> int c \<le> INT64_MAX) cs"

type_synonym net_row = "nat \<times> string \<times> counters"

definition net_row_words :: "net_row \<Rightarrow> (nat \<times> string) list" where
  "net_row_words = (\<lambda>(n, iface, cs). (n, iface @ '':'') # counter_words cs)"

definition net_row_ok :: "net_row \<Rightarrow> bool" where
  "net_row_ok = (\<lambda>(n, iface, cs). list_all (\<lambda>c. \<not> c_isspace c) iface \<and> counters_ok 9 cs)"

definition net_row_stats :: "net_row \<Rightarrow> string \<times> net_stats" where
  "net_row_stats = (\<lambda>(n, iface, cs). (iface, \<lparr>rxBytes = counter cs 0, txBytes = counter cs 8\<rparr>))"

definition net_file :: "string \<Rightarrow> string \<Rightarrow> net_row list \<Rightarrow> string" where
  "net_file h1 h2 rows = unlines (h1 # h2 # map (\<lambda>r. proc_line (net_row_words r)) rows)"

type_synonym disk_row = "(nat \<times> nat) \<times> (nat \<times> nat) \<times> (nat \<times> string) \<times> counters"

definition disk_row_words :: "disk_row \<Rightarrow> (nat \<times> string) list" where
  "disk_row_words = (\<lambda>((i, major), (j, minor), (k, name), cs).
     (i, to_string major) # (j, to_string minor) # (k, name) # counter_words cs)"

definition disk_row_ok :: "disk_row \<Rightarrow> bool" where
  "disk_row_ok = (\<lambda>((i, major), (j, minor), (k, name), cs).
     int major \<le> INT32_MAX \<and> int minor \<le> INT32_MAX \<and> 0 < j \<and> 0 < k \<and> is_word name \<and> counters_ok 8 cs)"

definition disk_row_stats :: "disk_row \<Rightarrow> string \<times> disk_stats" where
  "disk_row_stats = (\<lambda>(_, _, (k, name), cs). (name, \<lparr>sectors_read = counter cs 2, sectors_written = counter cs 6\<rparr>))"

definition disk_file :: "disk_row list \<Rightarrow> string" where
  "disk_file rows = unlines (map (\<lambda>r. proc_line (disk_row_words r)) rows)"

lemma counters_ok_words: "counters_ok k cs \<Longrightarrow> list_all (\<lambda>(n, w). is_word w) (counter_words cs) \<and> list_all (\<lambda>(n, w). 0 < n) (counter_words cs)"
  by (auto simp: counters_ok_def list_all_iff)

lemma counters_ok_counter: "counters_ok k cs \<Longrightarrow> i < k \<Longrightarrow> i < length cs \<and> 0 \<le> counter cs i \<and> counter cs i \<le> INT64_MAX"
  by (auto simp: counters_ok_def list_all_length counter_def case_prod_beta)

lemma spaced_net_row: "net_row_ok r \<Longrightarrow> spaced (net_row_words r)"
  using counters_ok_words by (auto simp: net_row_ok_def net_row_words_def spaced_def split: prod.splits)

lemma spaced_disk_row: "disk_row_ok r \<Longrightarrow> spaced (disk_row_words r)"
  using counters_ok_words by (auto simp: disk_row_ok_def disk_row_words_def spaced_def split: prod.splits)

lemma net_line_row:
  assumes "net_row_ok r"
  shows "net_line (proc_line (net_row_words r)) = Inr (net_row_stats r)"
proof -
  obtain n iface cs where r: "r = (n, iface, cs)" by (cases r)
  have cs: "counters_ok 9 cs" using assms by (simp add: net_row_ok_def r)
  have word: "snd (counter_words cs ! i) = to_string (snd (cs ! i))" if "i < 9" for i
    using counters_ok_counter [OF cs that] by (simp add: case_prod_beta)
  have read: "c_stoll (map snd (counter_words cs) ! i) = Inr (counter cs i)" if "i < 9" for i
    using counters_ok_counter [OF cs that] c_stoll_to_string word [OF that] by (simp add: counter_def)
  have len: "9 \<le> length cs" using cs by (simp add: counters_ok_def)
  have ws: "c_words (proc_line (net_row_words r)) = (iface @ '':'') # map snd (counter_words cs)"
    using c_words_proc_line [OF spaced_net_row [OF assms]] by (simp add: r net_row_words_def)
  have name: "strip_colon (iface @ '':'') = iface" by (simp add: strip_colon_def)
  have "map snd (counter_words cs) \<noteq> []" "\<not> length (map snd (counter_words cs)) \<le> 8" using len by auto
  then show ?thesis
    unfolding net_line_def ws Let_def list.case name
    using read [of 0] read [of 8] by (simp add: net_row_stats_def r del: map_map)
qed

lemma net_loop_rows:
  "list_all net_row_ok rows \<Longrightarrow>
     net_loop (map (\<lambda>r. proc_line (net_row_words r)) rows) stats
       = Inr (fold (\<lambda>r. map_put (fst (net_row_stats r)) (snd (net_row_stats r))) rows stats)"
  by (induction rows arbitrary: stats) (simp_all add: net_line_row case_prod_beta)

lemma getNetStats_net_file:
  assumes "CHR 0x0A \<notin> set h1" "CHR 0x0A \<notin> set h2" "list_all net_row_ok rows"
  shows "getNetStats (Some (net_file h1 h2 rows))
    = Inr (fold (\<lambda>r. map_put (fst (net_row_stats r)) (snd (net_row_stats r))) rows [])"
proof -
  have "text_lines (net_file h1 h2 rows) = h1 # h2 # map (\<lambda>r. proc_line (net_row_words r)) rows"
    unfolding net_file_def using assms spaced_net_row no_newline_proc_line
    by (intro text_lines_unlines) (auto simp: list_all_iff)
  with net_loop_rows [OF assms(3)] show ?thesis by (simp add: getNetStats_def)
qed

lemma counter_words_blank: "counters_ok k cs \<Longrightarrow> proc_line (counter_words cs) = [] \<or> hd (proc_line (counter_words cs)) = CHR '' ''"
  using blank_first counters_ok_words by blast

lemma extract_counter:
  assumes "counters_ok (Suc k) cs"
  shows "extract_long (proc_line (counter_words cs)) = Some (counter cs 0, proc_line (counter_words (tl cs)))"
    and "counters_ok k (tl cs)"
proof -
  from assms obtain n c cs' where cs: "cs = (n, c) # cs'" by (cases cs) (auto simp: counters_ok_def)
  from assms show tl: "counters_ok k (tl cs)" by (simp add: cs counters_ok_def)
  from assms have "int c \<le> INT64_MAX" by (simp add: cs counters_ok_def)
  then show "extract_long (proc_line (counter_words cs)) = Some (counter cs 0, proc_line (counter_words (tl cs)))"
    using extract_number_to_string [of INT64_MIN c INT64_MAX] counter_words_blank [OF tl] by (simp add: cs counter_def)
qed

lemma counter_drop: "i + j < length cs \<Longrightarrow> counter (drop i cs) j = counter cs (i + j)"
  by (simp add: counter_def)

lemma extract_counter_at:
  assumes "counters_ok k cs" "i < k"
  shows "extract_long (proc_line (counter_words (drop i cs))) = Some (counter cs i, proc_line (counter_words (drop (Suc i) cs)))"
proof -
  from assms have "counters_ok (Suc (k - Suc i)) (drop i cs)"
    by (auto simp: counters_ok_def list_all_iff dest: in_set_dropD)
  from extract_counter(1) [OF this] show ?thesis
    using assms counter_drop [of i 0 cs] by (simp add: counters_ok_def drop_Suc tl_drop)
qed

lemma disk_line_row:
  assumes "disk_row_ok r"
  shows "disk_line (proc_line (disk_row_words r)) = Some (disk_row_stats r)"
proof -
  obtain i major j minor k name cs where r: "r = ((i, major), (j, minor), (k, name), cs)" by (cases r) auto
  have ok: "int major \<le> INT32_MAX" "int minor \<le> INT32_MAX" "0 < j" "0 < k" "is_word name" "counters_ok 8 cs"
    using assms by (simp_all add: disk_row_ok_def r)
  have numbers: "extract_int (proc_line ((n, to_string m) # ws)) = Some (int m, proc_line ws)"
    if "int m \<le> INT32_MAX" "list_all (\<lambda>(n, w). 0 < n) ws" for n m ws
    using extract_number_to_string [of INT32_MIN m INT32_MAX] blank_first that by simp
  have words: "extract_word (proc_line ((k, name) # counter_words cs)) = Some (name, proc_line (counter_words cs))"
    using extract_word_proc [OF ok(5)] counter_words_blank [OF ok(6)] by simp
  have blanks: "list_all (\<lambda>(n, w). 0 < n) ((k, name) # counter_words cs)"
    "list_all (\<lambda>(n, w). 0 < n) ((j, to_string minor) # (k, name) # counter_words cs)"
    using counters_ok_words [OF ok(6)] ok by simp_all
  note chain = numbers [OF ok(1) blanks(2)] numbers [OF ok(2) blanks(1)] words extract_counter_at [OF ok(6)]
  show ?thesis
    unfolding disk_line_def disk_row_words_def r prod.case
    using chain(4) [of 0] chain(4) [of 1] chain(4) [of 2] chain(4) [of 3] chain(4) [of 4] chain(4) [of 5]
      chain(4) [of 6] chain(4) [of 7]
    by (simp add: chain(1-3) disk_row_stats_def numeral_2_eq_2 [symmetric] del: proc_line_simps)
qed

lemma disk_loop_rows:
  "list_all disk_row_ok rows \<Longrightarrow>
     disk_loop (map (\<lambda>r. proc_line (disk_row_words r)) rows)
       = (case map_of (map disk_row_stats rows) DISK_NAME of None \<Rightarrow> \<lparr>sectors_read = 0, sectors_written = 0\<rparr> | Some st \<Rightarrow> st)"
  by (induction rows) (auto simp: disk_line_row split: prod.splits)

lemma get_disk_stats_disk_file:
  assumes "list_all disk_row_ok rows"
  shows "get_disk_stats (Some (disk_file rows))
    = (case map_of (map disk_row_stats rows) DISK_NAME of None \<Rightarrow> \<lparr>sectors_read = 0, sectors_written = 0\<rparr> | Some st \<Rightarrow> st)"
proof -
  have "text_lines (disk_file rows) = map (\<lambda>r. proc_line (disk_row_words r)) rows"
    unfolding disk_file_def using assms spaced_disk_row no_newline_proc_line
    by (intro text_lines_unlines) (auto simp: list_all_iff)
  with disk_loop_rows [OF assms] show ?thesis by (simp add: get_disk_stats_def)
qed

section \<open>The traffic reported\<close>

definition net_table :: "net_row list \<Rightarrow> string \<Rightarrow> net_stats option" where
  "net_table rows = map_of (rev (map net_row_stats rows))"

definition disk_table :: "disk_row list \<Rightarrow> disk_stats" where
  "disk_table rows = (case map_of (map disk_row_stats rows) DISK_NAME of
     None \<Rightarrow> \<lparr>sectors_read = 0, sectors_written = 0\<rparr> | Some st \<Rightarrow> st)"

abbreviation megabytes :: "int \<Rightarrow> real" where
  "megabytes n \<equiv> real_of_int n / 1024 / 1024"

definition net_rate :: "net_stats \<Rightarrow> net_stats \<Rightarrow> real \<times> real" where
  "net_rate st1 st2 = (megabytes (rxBytes st2 - rxBytes st1), megabytes (txBytes st2 - txBytes st1))"

definition in_int64 :: "net_stats \<Rightarrow> bool" where
  "in_int64 st \<longleftrightarrow> 0 \<le> rxBytes st \<and> rxBytes st \<le> INT64_MAX \<and> 0 \<le> txBytes st \<and> txBytes st \<le> INT64_MAX"

lemma map_of_fold_map_put:
  "map_of (fold (\<lambda>r. map_put (fst (f r)) (snd (f r))) rows m) = map_of m ++ map_of (rev (map f rows))"
  by (induction rows arbitrary: m) (auto simp: map_add_def fun_eq_iff split: option.splits)

lemma ordered_keys_fold_map_put:
  "ordered_keys m \<Longrightarrow> ordered_keys (fold (\<lambda>r. map_put (fst (f r)) (snd (f r))) rows m)"
  by (induction rows arbitrary: m) (auto intro: ordered_keys_map_put)

lemma net_bandwidth_eq:
  assumes "list_all (\<lambda>(_, st). in_int64 st) stats1" "list_all (\<lambda>(_, st). in_int64 st) stats2"
  shows "net_bandwidth stats1 stats2 =
    (if \<exists>(iface, st) \<in> set stats1. contains_str iface ''ens5'' \<and> map_of stats2 iface = None
     then Inl (Stop_Exn Out_Of_Range)
     else Inr (map (\<lambda>(iface, st). (iface, net_rate st (the (map_of stats2 iface))))
                 (filter (\<lambda>(iface, st). contains_str iface ''ens5'') stats1)))"
  using assms
proof (induction stats1 stats2 rule: net_bandwidth.induct)
  case (2 iface st stats1 stats2)
  show ?case
  proof (cases "contains_str iface ''ens5''")
    case False
    with 2 show ?thesis by simp
  next
    case True
    show ?thesis
    proof (cases "map_of stats2 iface")
      case (Some st2)
      then have "in_int64 st" "in_int64 st2" using 2(3,4) by (auto simp: list_all_iff dest: map_of_SomeD)
      then have "checked (rxBytes st2 - rxBytes st) = Inr (rxBytes st2 - rxBytes st)"
        "checked (txBytes st2 - txBytes st) = Inr (txBytes st2 - txBytes st)"
        by (simp_all add: checked_def in_int64_def)
      then show ?thesis using 2 True Some by (auto simp: net_rate_def)
    qed (use True in simp)
  qed
qed simp

lemma net_file_stats:
  assumes "CHR 0x0A \<notin> set h1" "CHR 0x0A \<notin> set h2" "list_all net_row_ok rows"
  obtains stats where "getNetStats (Some (net_file h1 h2 rows)) = Inr stats"
    "map_of stats = net_table rows" "ordered_keys stats" "list_all (\<lambda>(_, st). in_int64 st) stats"
proof
  let ?stats = "fold (\<lambda>r. map_put (fst (net_row_stats r)) (snd (net_row_stats r))) rows []"
  show "getNetStats (Some (net_file h1 h2 rows)) = Inr ?stats" by (rule getNetStats_net_file [OF assms])
  show m: "map_of ?stats = net_table rows" by (simp add: map_of_fold_map_put net_table_def)
  show o: "ordered_keys ?stats" by (intro ordered_keys_fold_map_put) simp
  have rows: "in_int64 (snd (net_row_stats r))" if "r \<in> set rows" for r
    using that assms(3) counters_ok_counter [of 9 _ 0] counters_ok_counter [of 9 _ 8]
    by (auto simp: list_all_iff net_row_ok_def net_row_stats_def in_int64_def split: prod.splits)
  have "in_int64 st" if "(iface, st) \<in> set ?stats" for iface st
  proof -
    have "map_of ?stats iface = Some st" using that o by (intro map_of_is_SomeI) (auto simp: strict_sorted_iff)
    then have "(iface, st) \<in> net_row_stats ` set rows"
      unfolding m net_table_def by (auto dest!: map_of_SomeD)
    then show ?thesis using rows by (metis imageE snd_conv)
  qed
  then show "list_all (\<lambda>(_, st). in_int64 st) ?stats" by (auto simp: list_all_iff)
qed

lemma map_of_rates:
  "map_of (map (\<lambda>(iface, st). (iface, g iface st)) (filter (\<lambda>(iface, st). P iface) stats)) iface
     = (if P iface then map_option (g iface) (map_of stats iface) else None)"
  by (induction stats) (auto split: prod.splits)

lemma sectors_checked:
  assumes "0 \<le> a" "a \<le> INT64_MAX div 512" "0 \<le> b" "b \<le> INT64_MAX div 512"
  shows "checked (b - a) = Inr (b - a)" "checked ((b - a) * 512) = Inr ((b - a) * 512)"
  using assms by (simp_all add: checked_def)

definition sectors_ok :: "disk_row \<Rightarrow> bool" where
  "sectors_ok r = (sectors_read (snd (disk_row_stats r)) \<le> INT64_MAX div 512
     \<and> sectors_written (snd (disk_row_stats r)) \<le> INT64_MAX div 512)"

lemma disk_table_bounds:
  assumes "list_all sectors_ok rows"
  shows "0 \<le> sectors_read (disk_table rows)" "sectors_read (disk_table rows) \<le> INT64_MAX div 512"
    "0 \<le> sectors_written (disk_table rows)" "sectors_written (disk_table rows) \<le> INT64_MAX div 512"
  using assms
  by (auto simp: disk_table_def list_all_iff sectors_ok_def disk_row_stats_def counter_def
      split: option.splits prod.splits dest!: map_of_SomeD)

lemma ordered_keys_filter: "ordered_keys m \<Longrightarrow> ordered_keys (map (\<lambda>(k, v). (k, g k v)) (filter (\<lambda>(k, v). P k) m))"
  by (induction m) (auto split: prod.splits)

text \<open>C19: One round of the bandwidth monitor on the tables of the kernel at two moments: when an interface named after
  ens5 has gone the round stops with the exception of a missing key; otherwise it reports, in the order of
  their names, exactly those interfaces with the bytes received and sent between the readings in megabytes, and
  the bytes read and written on the disk as 512 times the difference of its sectors.
\<close>

theorem bandwidth_round_correct:
  assumes files: "list_all net_row_ok (n1 @ n2)" "list_all disk_row_ok (d1 @ d2)" "list_all sectors_ok (d1 @ d2)"
    and headings: "CHR 0x0A \<notin> set (h1 @ h2)"
  shows "let result = bandwidth_round (Some (net_file h1 h2 n1)) (Some (disk_file d1))
               (Some (net_file h1 h2 n2)) (Some (disk_file d2)) in
     if \<exists>iface. contains_str iface ''ens5'' \<and> net_table n1 iface \<noteq> None \<and> net_table n2 iface = None
     then result = Inl (Stop_Exn Out_Of_Range)
     else \<exists>net. result = Inr (net,
             megabytes ((sectors_read (disk_table d2) - sectors_read (disk_table d1)) * 512),
             megabytes ((sectors_written (disk_table d2) - sectors_written (disk_table d1)) * 512))
           \<and> ordered_keys net
           \<and> (\<forall>iface. map_of net iface =
                (if contains_str iface ''ens5''
                 then map_option (\<lambda>st. net_rate st (the (net_table n2 iface))) (net_table n1 iface)
                 else None))"
proof -
  have h: "CHR 0x0A \<notin> set h1" "CHR 0x0A \<notin> set h2" "list_all net_row_ok n1" "list_all net_row_ok n2"
    "list_all disk_row_ok d1" "list_all disk_row_ok d2" "list_all sectors_ok d1" "list_all sectors_ok d2"
    using files headings by simp_all
  obtain s1 where s1: "getNetStats (Some (net_file h1 h2 n1)) = Inr s1" "map_of s1 = net_table n1"
    "ordered_keys s1" "list_all (\<lambda>(_, st). in_int64 st) s1" by (rule net_file_stats [OF h(1,2,3)])
  obtain s2 where s2: "getNetStats (Some (net_file h1 h2 n2)) = Inr s2" "map_of s2 = net_table n2"
    "list_all (\<lambda>(_, st). in_int64 st) s2" by (rule net_file_stats [OF h(1,2,4)])
  have missing: "(\<exists>(iface, st) \<in> set s1. contains_str iface ''ens5'' \<and> net_table n2 iface = None) \<longleftrightarrow>
      (\<exists>iface. contains_str iface ''ens5'' \<and> net_table n1 iface \<noteq> None \<and> net_table n2 iface = None)"
    unfolding s1(2) [symmetric] map_of_eq_None_iff by force
  note disk = sectors_checked [OF disk_table_bounds(1,2) [OF h(7)] disk_table_bounds(1,2) [OF h(8)]]
    sectors_checked [OF disk_table_bounds(3,4) [OF h(7)] disk_table_bounds(3,4) [OF h(8)]]
  have dk: "get_disk_stats (Some (disk_file d1)) = disk_table d1" "get_disk_stats (Some (disk_file d2)) = disk_table d2"
    using h by (simp_all add: get_disk_stats_disk_file disk_table_def)
  have result: "bandwidth_round (Some (net_file h1 h2 n1)) (Some (disk_file d1)) (Some (net_file h1 h2 n2)) (Some (disk_file d2))
    = andthen (net_bandwidth s1 s2) (\<lambda>net. Inr (net,
             megabytes ((sectors_read (disk_table d2) - sectors_read (disk_table d1)) * 512),
             megabytes ((sectors_written (disk_table d2) - sectors_written (disk_table d1)) * 512)))"
    unfolding bandwidth_round_def dk disk_bandwidth_def s1 s2 disk andthen_simps ..
  show ?thesis
    unfolding Let_def result net_bandwidth_eq [OF s1(4) s2(3)] s2(2) missing
    using ordered_keys_filter [OF s1(3)] by (auto simp: map_of_rates s1(2))
qed

definition ens5_row :: "nat \<Rightarrow> nat \<Rightarrow> net_row" where
  "ens5_row rx tx = (2, ''ens5'', [(1, rx), (1, 0), (1, 0), (1, 0), (1, 0), (1, 0), (1, 0), (1, 0), (1, tx)])"

definition nvme_row :: "nat \<Rightarrow> nat \<Rightarrow> disk_row" where
  "nvme_row rd wr = ((0, 259), (1, 0), (1, DISK_NAME), [(1, 0), (1, 0), (1, rd), (1, 0), (1, 0), (1, 0), (1, wr), (1, 0)])"

lemma sample_rows [simp]:
  "int rx \<le> INT64_MAX \<Longrightarrow> int tx \<le> INT64_MAX \<Longrightarrow> net_row_ok (ens5_row rx tx)"
  "int rd \<le> INT64_MAX \<Longrightarrow> int wr \<le> INT64_MAX \<Longrightarrow> disk_row_ok (nvme_row rd wr)"
  "net_row_stats (ens5_row rx tx) = (''ens5'', \<lparr>rxBytes = int rx, txBytes = int tx\<rparr>)"
  "disk_row_stats (nvme_row rd wr) = (DISK_NAME, \<lparr>sectors_read = int rd, sectors_written = int wr\<rparr>)"
  by (simp_all add: net_row_ok_def ens5_row_def counters_ok_def c_isspace_def disk_row_ok_def nvme_row_def is_word_def
      DISK_NAME_def net_row_stats_def disk_row_stats_def counter_def)

theorem bandwidth_round_correct_witness:
  "\<exists>net. bandwidth_round (Some (net_file [] [] [ens5_row 0 0])) (Some (disk_file [nvme_row 8 16]))
       (Some (net_file [] [] [ens5_row 1048576 2097152])) (Some (disk_file [nvme_row 2056 6160])) = Inr (net, 1, 3)
     \<and> map_of net ''ens5'' = Some (1, 2)"
proof -
  have "contains_str ''ens5'' ''ens5''" by (simp add: contains_str_def exI [of _ 0])
  then show ?thesis
    using bandwidth_round_correct [of "[ens5_row 0 0]" "[ens5_row 1048576 2097152]" "[nvme_row 8 16]" "[nvme_row 2056 6160]" "[]" "[]"]
    by (auto simp: net_table_def disk_table_def sectors_ok_def net_rate_def Let_def split: if_splits)
qed

section \<open>The reports of a run add up\<close>

text \<open>The counters of a report: the printed number, its ticker, its unit and the snapshot it is counted from.\<close>

definition report_counters :: "((status_report \<Rightarrow> real) \<times> ticker \<times> real \<times> (status_snaps \<Rightarrow> u64)) list" where
  "report_counters =
     [(rp_write_MB, BYTES_WRITTEN, kMB, user_write_bytes_snap),
      (rp_write_ops, NUMBER_KEYS_WRITTEN, 1, number_keys_write_snap),
      (rp_read_MB, BYTES_READ, kMB, user_read_bytes_snap),
      (rp_read_ops, NUMBER_KEYS_READ, 1, number_keys_read_snap),
      (rp_iter_MB, ITER_BYTES_READ, kMB, iter_bytes_read_snap),
      (rp_seek_ops, NUMBER_DB_SEEK_FOUND, 1, number_db_seek_snap),
      (rp_next_ops, NUMBER_DB_NEXT_FOUND, 1, number_db_next_snap),
      (rp_prev_ops, NUMBER_DB_PREV_FOUND, 1, number_db_prev_snap)]"

lemma report_counters_laws:
  assumes "(f, t, u, snap) \<in> set report_counters"
  shows "f (rocks_report tick blob net disk sn) = to_double (tick t - snap sn) / u"
    "snap (take_snaps tick sn) = tick t" "snap (sn\<lparr>total_time := n\<rparr>) = snap sn" "snap first_snaps = 0"
  using assms by (auto simp: report_counters_def rocks_report_def take_snaps_def first_snaps_def)

lemma total_time_take_snaps [simp]: "total_time (take_snaps tick sn) = total_time sn"
  by (simp add: take_snaps_def)

lemma to_double_zero: "to_double 0 = 0"
  by (simp add: to_double_def)

lemma to_double_diff: "a \<le> b \<Longrightarrow> to_double (b - a) = to_double b - to_double a"
  by (simp add: to_double_def unat_sub word_le_nat_alt of_nat_diff)

definition sample_traffic :: "status_sample \<Rightarrow> run_stop + (string \<times> real \<times> real) list \<times> real \<times> real" where
  "sample_traffic x = bandwidth_round (sm_net1 x) (sm_disk1 x) (sm_net2 x) (sm_disk2 x)"

lemma status_loop_report:
  assumes "\<not> sm_done x" "sample_traffic x = Inr (net, disk)"
  shows "status_loop (x # xs) sn =
    (let sn1 = sn\<lparr>total_time := total_time sn + 1\<rparr> in
     andthen (status_loop xs (take_snaps (sm_ticker x) sn1)) (\<lambda>(rps, su, sn2).
       Inr (rocks_report (sm_ticker x) (sm_blob_stats x) net disk sn1 # rps, su, sn2)))"
  using assms by (auto simp: sample_traffic_def bandwidth_round_def andthen_eq_Inr)

fun ticks_rise :: "(ticker \<Rightarrow> u64) \<Rightarrow> status_sample list \<Rightarrow> bool" where
  "ticks_rise tick [] = True"
| "ticks_rise tick (x # xs) = ((\<forall>t. tick t \<le> sm_ticker x t) \<and> ticks_rise (sm_ticker x) xs)"

definition last_ticks :: "(ticker \<Rightarrow> u64) \<Rightarrow> status_sample list \<Rightarrow> ticker \<Rightarrow> u64" where
  "last_ticks tick xs = (if xs = [] then tick else sm_ticker (last xs))"

lemma last_ticks_Cons [simp]: "last_ticks tick (x # xs) = last_ticks (sm_ticker x) xs"
  by (simp add: last_ticks_def)

text \<open>The snapshots are the tickers of the report before.\<close>

definition snaps_at :: "(ticker \<Rightarrow> u64) \<Rightarrow> status_snaps \<Rightarrow> bool" where
  "snaps_at tick sn \<longleftrightarrow> (\<forall>(f, t, u, snap) \<in> set report_counters. snap sn = tick t)"

lemma snaps_at_take [simp]: "snaps_at tick (take_snaps tick sn)"
  using report_counters_laws(2) by (auto simp: snaps_at_def)

lemma snaps_at_first: "snaps_at (\<lambda>t. 0) first_snaps"
  using report_counters_laws(4) by (auto simp: snaps_at_def)

lemma status_loop_sums:
  assumes "list_all (\<lambda>x. \<not> sm_done x \<and> (\<exists>r. sample_traffic x = Inr r)) xs" "ticks_rise tick xs" "snaps_at tick sn"
    and y: "sm_done y" "getNetStats (sm_net1 y) = Inr st"
  shows "\<exists>rps sn'. status_loop (xs @ y # zs) sn = Inr (rps, Some (print_summary y sn'), sn')
    \<and> length rps = length xs \<and> total_time sn' = total_time sn + of_nat (length xs) + 1
    \<and> (\<forall>(f, t, u, snap) \<in> set report_counters.
         sum_list (map f rps) = (to_double (last_ticks tick xs t) - to_double (tick t)) / u)"
  using assms(1-3)
proof (induction xs arbitrary: tick sn)
  case Nil
  then show ?case using y by (auto simp: last_ticks_def Let_def)
next
  case (Cons x xs)
  let ?sn1 = "sn\<lparr>total_time := total_time sn + 1\<rparr>"
  from Cons.prems obtain net disk where x: "\<not> sm_done x" "sample_traffic x = Inr (net, disk)" by auto
  from Cons.prems have "list_all (\<lambda>x. \<not> sm_done x \<and> (\<exists>r. sample_traffic x = Inr r)) xs" "ticks_rise (sm_ticker x) xs"
    by simp_all
  from Cons.IH [OF this snaps_at_take, of ?sn1] obtain rps sn'
    where IH: "status_loop (xs @ y # zs) (take_snaps (sm_ticker x) ?sn1) = Inr (rps, Some (print_summary y sn'), sn')"
      "length rps = length xs" "total_time sn' = total_time sn + 1 + of_nat (length xs) + 1"
      "\<forall>(f, t, u, snap) \<in> set report_counters.
         sum_list (map f rps) = (to_double (last_ticks (sm_ticker x) xs t) - to_double (sm_ticker x t)) / u"
    by auto
  let ?rp = "rocks_report (sm_ticker x) (sm_blob_stats x) net disk ?sn1"
  have "f ?rp = (to_double (sm_ticker x t) - to_double (tick t)) / u"
    if "(f, t, u, snap) \<in> set report_counters" for f t u snap
    using that Cons.prems(2,3) report_counters_laws(1,3) [OF that] by (auto simp: snaps_at_def to_double_diff)
  with IH(4) have "\<forall>(f, t, u, snap) \<in> set report_counters.
      sum_list (map f (?rp # rps)) = (to_double (last_ticks tick (x # xs) t) - to_double (tick t)) / u"
    by (fastforce simp: diff_divide_distrib)
  then show ?case using IH(1-3) status_loop_report [OF x, of "xs @ y # zs" sn] by (simp add: add_ac)
qed

lemma first_total_time [simp]: "total_time first_snaps = 0"
  by (simp add: first_snaps_def)

text \<open>C8: When the counters of the store never fall and the files under proc can be read, the status thread makes one
  report per second until the program is done and then the summary. Each number of operations or of megabytes
  over all reports adds up to the counter at the last report, nothing is lost or counted twice between two reports;
  the run time is the number of seconds and the averages of the summary divide the totals by it.
\<close>

theorem status_reports_add_up:
  assumes samples: "list_all (\<lambda>x. \<not> sm_done x \<and> (\<exists>r. sample_traffic x = Inr r)) xs" "ticks_rise (\<lambda>t. 0) xs"
    and finished: "sm_done y" "getNetStats (sm_net1 y) = Inr st"
    and seconds: "length xs < 2 ^ 64 - 1"
  shows "\<exists>rps su sn. print_my_status True (xs @ y # zs) first_snaps = Inr (rps, Some su, sn)
    \<and> length rps = length xs
    \<and> (\<forall>(f, t, u, snap) \<in> set report_counters. sum_list (map f rps) = to_double (last_ticks (\<lambda>t. 0) xs t) / u)
    \<and> su_total_time su = of_nat (length xs + 1)
    \<and> su_read su = (to_double (sm_ticker y BYTES_READ) / kMB,
          Some (to_double (sm_ticker y BYTES_READ) / kMB / real (length xs + 1)))
    \<and> su_write su = (to_double (sm_ticker y BYTES_WRITTEN) / kMB,
          Some (to_double (sm_ticker y BYTES_WRITTEN) / kMB / real (length xs + 1)))"
proof -
  from status_loop_sums [OF samples snaps_at_first finished, of zs] obtain rps sn
    where l: "status_loop (xs @ y # zs) first_snaps = Inr (rps, Some (print_summary y sn), sn)"
      "length rps = length xs" "total_time sn = of_nat (length xs) + 1"
      "\<forall>(f, t, u, snap) \<in> set report_counters.
         sum_list (map f rps) = (to_double (last_ticks (\<lambda>t. 0) xs t) - to_double 0) / u"
    by auto
  have n: "unat (of_nat (length xs + 1) :: u64) = length xs + 1"
    using seconds by (simp add: unat_of_nat take_bit_nat_eq_self del: of_nat_add of_nat_Suc)
  have t: "total_time sn = of_nat (length xs + 1)" by (simp add: l(3))
  have "to_double (total_time sn) = real (length xs + 1)" unfolding t to_double_def n ..
  moreover from this have "total_time sn \<noteq> 0" by (auto simp: to_double_zero)
  ultimately show ?thesis using l
    by (simp add: print_my_status_def print_summary_def to_double_zero Let_def)
qed

theorem status_reports_add_up_witness:
  "\<exists>rps su sn.
     print_my_status True
       [\<lparr>sm_net1 = None, sm_disk1 = None, sm_done = False, sm_net2 = None, sm_disk2 = None, sm_ticker = \<lambda>t. 5,
         sm_histogram = \<lambda>h. [], sm_statistics = [], sm_blob_stats = []\<rparr>,
        \<lparr>sm_net1 = None, sm_disk1 = None, sm_done = True, sm_net2 = None, sm_disk2 = None, sm_ticker = \<lambda>t. 6,
         sm_histogram = \<lambda>h. [], sm_statistics = [], sm_blob_stats = []\<rparr>] first_snaps = Inr (rps, Some su, sn)
     \<and> sum_list (map rp_write_ops rps) = 5 \<and> su_total_time su = 2"
proof -
  let ?x = "\<lparr>sm_net1 = None, sm_disk1 = None, sm_done = False, sm_net2 = None, sm_disk2 = None, sm_ticker = \<lambda>t. 5,
    sm_histogram = \<lambda>h. [], sm_statistics = [], sm_blob_stats = []\<rparr>"
  let ?y = "\<lparr>sm_net1 = None, sm_disk1 = None, sm_done = True, sm_net2 = None, sm_disk2 = None, sm_ticker = \<lambda>t. 6,
    sm_histogram = \<lambda>h. [], sm_statistics = [], sm_blob_stats = []\<rparr>"
  have files: "getNetStats None = Inr []" "\<exists>r. sample_traffic ?x = Inr r"
    by (simp_all add: getNetStats_def text_lines.simps sample_traffic_def bandwidth_round_def get_disk_stats_def
        disk_bandwidth_def checked_def)
  have "(rp_write_ops, NUMBER_KEYS_WRITTEN, 1, number_keys_write_snap) \<in> set report_counters"
    by (simp add: report_counters_def)
  then show ?thesis
    using status_reports_add_up [of "[?x]" ?y "[]" "[]"] files by (fastforce simp: last_ticks_def to_double_def)
qed

section \<open>The end of the load is announced once\<close>

lemma write_finished_announced:
  "length (filter (\<lambda>l. l = Write_Finished) (fst (rocks_stats_loop xs finish)))
     \<le> length (filter (\<lambda>(_, set_finish, _). set_finish) xs) + of_bool finish"
proof (induction xs finish rule: rocks_stats_loop.induct)
  case (2 is_done set_finish stats cache xs finish)
  then show ?case by (cases "rocks_stats_loop xs False") (auto split: if_splits)
qed simp

text \<open>The monitor writes the rates of all rounds up to the first that stops.\<close>

lemma calculateBandwidth_rounds:
  fixes rs :: "readings list"
  defines "rates \<equiv> map (\<lambda>(net1, disk1, net2, disk2). bandwidth_round net1 disk1 net2 disk2) rs"
  shows "calculateBandwidth True secs rs =
    (map (per_second secs \<circ> projr) (takeWhile (\<lambda>r. \<not> isl r) rates),
     map_option projl (find isl rates))"
  unfolding rates_def calculateBandwidth_def
  by (induction secs rs rule: bandwidth_loop.induct) (auto split: sum.splits)

end
