(* ===== verification/Ycsb_Shutdown.thy ===== *)
theory Ycsb_Shutdown
  imports Ycsb_Monitor
begin

text \<open>
  The main thread and the two status threads (the end of \<open>main\<close> in \<open>ycsbc.cc\<close>; \<open>print_my_status\<close> and
  \<open>printRocksDBStats\<close> of \<open>db/rocksdb_cloud_db.cc\<close>) as one machine. They communicate by the flags \<open>finish\<close> and
  \<open>done\<close>, and share the store, which the main thread deletes. The loops of the theory \<open>Ycsb_Monitor\<close> run over
  what a thread finds; here the flags are those of the machine, and a step is taken between any two looks at
  them or uses of the store.
\<close>

section \<open>The threads\<close>

text \<open>Where a thread is, named after what it does next.\<close>

datatype main_at =
    Main_Works
  | Main_Finishes
  | Main_Waits
  | Main_Sets_Done
  | Main_Joins_Status
  | Main_Joins_Stats
  | Main_Deletes
  | Main_Returned

datatype status_at =
    Status_Opens
  | Status_Reads
  | Status_Sleeps "string option" "string option"
  | Status_Reports "string option" "string option"
  | Status_Sums_Up "string option" "string option"
  | Status_Ended

datatype stats_at = Stats_Opens | Stats_Sleeps | Stats_Looks | Stats_Clears | Stats_Writes | Stats_Ended

record process =
  pr_main :: main_at
  pr_status :: status_at
  pr_stats :: stats_at
  pr_done :: bool
  pr_finish :: bool
  pr_live :: bool
  pr_stop :: "run_stop option"
  pr_snaps :: status_snaps
  pr_reports :: "status_report list"
  pr_summary :: "status_summary option"
  pr_lines :: "stats_line list"

text \<open>After the constructor of the database has started the threads.\<close>

definition process_start :: process where
  "process_start =
     \<lparr>pr_main = Main_Works, pr_status = Status_Opens, pr_stats = Stats_Opens, pr_done = False, pr_finish = False,
      pr_live = True, pr_stop = None, pr_snaps = first_snaps, pr_reports = [], pr_summary = None, pr_lines = []\<rparr>"

section \<open>Steps\<close>

text \<open>
  The main thread: the phases and their reports, which may also end the process in any way; the flags; the wait
  after a load; the joins and the destructor.
\<close>

inductive main_step :: "bool \<Rightarrow> process \<Rightarrow> process \<Rightarrow> bool" for load where
  Work: "pr_main p = Main_Works \<Longrightarrow> main_step load p (p\<lparr>pr_main := Main_Finishes\<rparr>)"
| Work_Stops: "pr_main p = Main_Works \<Longrightarrow> main_step load p (p\<lparr>pr_stop := Some e\<rparr>)"
| Finish: "pr_main p = Main_Finishes \<Longrightarrow>
    main_step load p (p\<lparr>pr_finish := True, pr_main := if load then Main_Waits else Main_Sets_Done\<rparr>)"
| Wait: "pr_main p = Main_Waits \<Longrightarrow> main_step load p p"
| Set_Done: "pr_main p = Main_Sets_Done \<Longrightarrow> main_step load p (p\<lparr>pr_done := True, pr_main := Main_Joins_Status\<rparr>)"
| Join_Status: "pr_main p = Main_Joins_Status \<Longrightarrow> pr_status p = Status_Ended \<Longrightarrow>
    main_step load p (p\<lparr>pr_main := Main_Joins_Stats\<rparr>)"
| Join_Stats: "pr_main p = Main_Joins_Stats \<Longrightarrow> pr_stats p = Stats_Ended \<Longrightarrow>
    main_step load p (p\<lparr>pr_main := Main_Deletes\<rparr>)"
| Delete: "pr_main p = Main_Deletes \<Longrightarrow> main_step load p (p\<lparr>pr_live := False, pr_main := Main_Returned\<rparr>)"

text \<open>
  The status thread: its file is opened or not; a round reads the files of the kernel, sleeps, looks at
  \<open>done\<close>, and reports or sums up. A reading can end the process.
\<close>

inductive status_step :: "process \<Rightarrow> process \<Rightarrow> bool" where
  Status_Open: "pr_status p = Status_Opens \<Longrightarrow>
    status_step p (p\<lparr>pr_status := if opened then Status_Reads else Status_Ended\<rparr>)"
| Read: "pr_status p = Status_Reads \<Longrightarrow> getNetStats net = Inr st \<Longrightarrow>
    status_step p (p\<lparr>pr_status := Status_Sleeps net disk\<rparr>)"
| Read_Stops: "pr_status p = Status_Reads \<Longrightarrow> getNetStats net = Inl e \<Longrightarrow> status_step p (p\<lparr>pr_stop := Some e\<rparr>)"
| Wake: "pr_status p = Status_Sleeps net disk \<Longrightarrow>
    status_step p (p\<lparr>pr_snaps := (pr_snaps p)\<lparr>total_time := total_time (pr_snaps p) + 1\<rparr>,
                     pr_status := if pr_done p then Status_Sums_Up net disk else Status_Reports net disk\<rparr>)"
| Report: "pr_status p = Status_Reports (sm_net1 x) (sm_disk1 x) \<Longrightarrow> sample_traffic x = Inr (net, disk) \<Longrightarrow>
    status_step p (p\<lparr>pr_reports := pr_reports p @ [rocks_report (sm_ticker x) (sm_blob_stats x) net disk (pr_snaps p)],
                     pr_snaps := take_snaps (sm_ticker x) (pr_snaps p), pr_status := Status_Reads\<rparr>)"
| Report_Stops: "pr_status p = Status_Reports (sm_net1 x) (sm_disk1 x) \<Longrightarrow> sample_traffic x = Inl e \<Longrightarrow>
    status_step p (p\<lparr>pr_stop := Some e\<rparr>)"
| Sum_Up: "pr_status p = Status_Sums_Up (sm_net1 x) (sm_disk1 x) \<Longrightarrow>
    status_step p (p\<lparr>pr_summary := Some (print_summary x (pr_snaps p)), pr_status := Status_Ended\<rparr>)"

text \<open>The thread for the statistics looks at \<open>done\<close> and then at \<open>finish\<close>, which it clears.\<close>

inductive stats_step :: "process \<Rightarrow> process \<Rightarrow> bool" where
  Stats_Open: "pr_stats p = Stats_Opens \<Longrightarrow>
    stats_step p (p\<lparr>pr_stats := if opened then Stats_Sleeps else Stats_Ended\<rparr>)"
| Stats_Wake: "pr_stats p = Stats_Sleeps \<Longrightarrow>
    stats_step p (p\<lparr>pr_stats := if pr_done p then Stats_Ended else Stats_Looks\<rparr>)"
| Look: "pr_stats p = Stats_Looks \<Longrightarrow>
    stats_step p (if pr_finish p then p\<lparr>pr_lines := pr_lines p @ [Write_Finished], pr_stats := Stats_Clears\<rparr>
                  else p\<lparr>pr_stats := Stats_Writes\<rparr>)"
| Clear: "pr_stats p = Stats_Clears \<Longrightarrow> stats_step p (p\<lparr>pr_finish := False, pr_stats := Stats_Writes\<rparr>)"
| Write: "pr_stats p = Stats_Writes \<Longrightarrow>
    stats_step p (p\<lparr>pr_lines := pr_lines p @ [Stats_Block stats cache], pr_stats := Stats_Sleeps\<rparr>)"

definition process_step :: "bool \<Rightarrow> process \<Rightarrow> process \<Rightarrow> bool" where
  "process_step load p p' \<longleftrightarrow> pr_stop p = None \<and> (main_step load p p' \<or> status_step p p' \<or> stats_step p p')"

text \<open>The threads that are about to use the store.\<close>

definition uses_store :: "process \<Rightarrow> bool" where
  "uses_store p \<longleftrightarrow> pr_main p \<in> {Main_Works, Main_Deletes} \<or> pr_stats p = Stats_Writes
     \<or> (\<exists>net disk. pr_status p = Status_Reports net disk \<or> pr_status p = Status_Sums_Up net disk)"

section \<open>The order of the end\<close>

definition announced :: "process \<Rightarrow> nat" where
  "announced p = length (filter (\<lambda>l. l = Write_Finished) (pr_lines p))"

definition shutdown_inv :: "bool \<Rightarrow> process \<Rightarrow> bool" where
  "shutdown_inv load p \<longleftrightarrow>
     (pr_live p \<longleftrightarrow> pr_main p \<noteq> Main_Returned)
     \<and> (pr_done p \<longleftrightarrow> pr_main p \<in> {Main_Joins_Status, Main_Joins_Stats, Main_Deletes, Main_Returned})
     \<and> (pr_main p \<in> {Main_Joins_Stats, Main_Deletes, Main_Returned} \<longrightarrow> pr_status p = Status_Ended)
     \<and> (pr_main p \<in> {Main_Deletes, Main_Returned} \<longrightarrow> pr_stats p = Stats_Ended)
     \<and> (load \<longrightarrow> pr_main p \<in> {Main_Works, Main_Finishes, Main_Waits})
     \<and> (pr_main p = Main_Waits \<longrightarrow> load)"

lemma shutdown_invD:
  assumes "shutdown_inv load p"
  shows "pr_live p \<longleftrightarrow> pr_main p \<noteq> Main_Returned" "pr_main p = Main_Returned \<Longrightarrow> pr_status p = Status_Ended"
    "pr_main p = Main_Returned \<Longrightarrow> pr_stats p = Stats_Ended" "load \<Longrightarrow> \<not> pr_done p" "load \<Longrightarrow> pr_main p \<noteq> Main_Returned"
proof -
  from assms have inv: "pr_live p \<longleftrightarrow> pr_main p \<noteq> Main_Returned"
      "pr_done p \<longleftrightarrow> pr_main p \<in> {Main_Joins_Status, Main_Joins_Stats, Main_Deletes, Main_Returned}"
      "pr_main p \<in> {Main_Joins_Stats, Main_Deletes, Main_Returned} \<Longrightarrow> pr_status p = Status_Ended"
      "pr_main p \<in> {Main_Deletes, Main_Returned} \<Longrightarrow> pr_stats p = Stats_Ended"
      "load \<Longrightarrow> pr_main p \<in> {Main_Works, Main_Finishes, Main_Waits}"
    unfolding shutdown_inv_def by iprover+
  show "pr_live p \<longleftrightarrow> pr_main p \<noteq> Main_Returned" by (rule inv(1))
  show "pr_status p = Status_Ended" "pr_stats p = Stats_Ended" if "pr_main p = Main_Returned"
    using that inv(3,4) by simp_all
  show "\<not> pr_done p" "pr_main p \<noteq> Main_Returned" if load
    unfolding inv(2) using inv(5) [OF that] by auto
qed

text \<open>The message of the end is written at most once, and not before the flag is set.\<close>

definition announce_inv :: "process \<Rightarrow> bool" where
  "announce_inv p \<longleftrightarrow>
     (pr_stats p = Stats_Clears \<longrightarrow> pr_finish p)
     \<and> announced p + of_bool (pr_finish p \<and> pr_stats p \<noteq> Stats_Clears)
         \<le> (if pr_main p \<in> {Main_Works, Main_Finishes} then 0 else 1)"

lemmas process_inv_defs = shutdown_inv_def announce_inv_def announced_def

lemma process_start_inv: "shutdown_inv load process_start" "announce_inv process_start"
  by (simp_all add: process_inv_defs process_start_def)

lemma main_step_inv:
  assumes "main_step load p p'" "shutdown_inv load p" "announce_inv p"
  shows "shutdown_inv load p' \<and> announce_inv p'"
  using assms by (cases rule: main_step.cases) (auto simp: process_inv_defs split: if_splits)

lemma status_step_inv:
  assumes "status_step p p'" "shutdown_inv load p" "announce_inv p"
  shows "shutdown_inv load p' \<and> announce_inv p'"
  using assms by (cases rule: status_step.cases) (auto simp: process_inv_defs)

lemma stats_step_inv:
  assumes "stats_step p p'" "shutdown_inv load p" "announce_inv p"
  shows "shutdown_inv load p' \<and> announce_inv p'"
  using assms by (cases rule: stats_step.cases) (auto simp: process_inv_defs split: if_splits)

lemma process_steps_inv:
  assumes "(process_step load)\<^sup>*\<^sup>* process_start p"
  shows "shutdown_inv load p" "announce_inv p"
proof -
  have "shutdown_inv load p \<and> announce_inv p" using assms
    by (induction rule: rtranclp_induct)
      (simp add: process_start_inv, use main_step_inv status_step_inv stats_step_inv in \<open>auto simp: process_step_def\<close>)
  then show "shutdown_inv load p" "announce_inv p" by simp_all
qed

section \<open>The end is reached\<close>

text \<open>How many steps a thread still takes once \<open>done\<close> is set.\<close>

fun main_left :: "main_at \<Rightarrow> nat" where
  "main_left Main_Joins_Status = 3"
| "main_left Main_Joins_Stats = 2"
| "main_left Main_Deletes = 1"
| "main_left _ = 0"

fun status_left :: "status_at \<Rightarrow> nat" where
  "status_left Status_Opens = 4"
| "status_left (Status_Reports net disk) = 4"
| "status_left Status_Reads = 3"
| "status_left (Status_Sleeps net disk) = 2"
| "status_left (Status_Sums_Up net disk) = 1"
| "status_left Status_Ended = 0"

fun stats_left :: "stats_at \<Rightarrow> nat" where
  "stats_left Stats_Looks = 4"
| "stats_left Stats_Clears = 3"
| "stats_left Stats_Opens = 2"
| "stats_left Stats_Writes = 2"
| "stats_left Stats_Sleeps = 1"
| "stats_left Stats_Ended = 0"

definition steps_left :: "process \<Rightarrow> nat" where
  "steps_left p = (if pr_stop p \<noteq> None then 0 else main_left (pr_main p) + status_left (pr_status p) + stats_left (pr_stats p))"

lemma steps_left_decreases:
  assumes "process_step load p p'" "pr_done p" "shutdown_inv load p"
  shows "steps_left p' < steps_left p \<and> pr_done p' \<and> shutdown_inv load p'"
proof -
  have go: "pr_stop p = None" using assms(1) by (simp add: process_step_def)
  consider "main_step load p p'" | "status_step p p'" | "stats_step p p'"
    using assms(1) by (auto simp: process_step_def)
  then show ?thesis
  proof cases
    case 1
    then show ?thesis using assms(2,3) go
      by (cases rule: main_step.cases) (auto simp: steps_left_def shutdown_inv_def)
  next
    case 2
    then show ?thesis using assms(2,3) go
      by (cases rule: status_step.cases) (auto simp: steps_left_def shutdown_inv_def)
  next
    case 3
    then show ?thesis using assms(2,3) go
      by (cases rule: stats_step.cases) (auto simp: steps_left_def shutdown_inv_def split: if_splits)
  qed
qed

lemma steps_after_done:
  assumes "(process_step load ^^ n) p p'" "pr_done p" "shutdown_inv load p"
  shows "n + steps_left p' \<le> steps_left p"
  using assms
proof (induction n arbitrary: p)
  case (Suc n)
  then obtain q where q: "process_step load p q" "(process_step load ^^ n) q p'" by (blast dest: relpowp_Suc_D2)
  show ?case
    using steps_left_decreases [OF q(1) Suc.prems(2,3)] Suc.IH [OF q(2)] by simp
qed simp

lemma steps_left_bound: "steps_left p \<le> 11"
proof -
  have "main_left m \<le> 3" "status_left s \<le> 4" "stats_left t \<le> 4" for m s t
    by (cases m; cases s; cases t; simp)+
  from this(1) [of "pr_main p"] this(2) [of "pr_status p"] this(3) [of "pr_stats p"] show ?thesis
    by (simp add: steps_left_def)
qed

text \<open>Whoever has not ended can take a step, except the main thread where it waits for another.\<close>

lemma reading_steps: "pr_status p = Status_Reads \<Longrightarrow> \<exists>p'. status_step p p'"
  by (cases "getNetStats None") (auto intro: Read Read_Stops)

lemma reporting_steps:
  assumes "pr_status p = Status_Reports net disk"
  shows "\<exists>p'. status_step p p'"
proof -
  define x where "x = \<lparr>sm_net1 = net, sm_disk1 = disk, sm_done = False, sm_net2 = None, sm_disk2 = None,
    sm_ticker = \<lambda>_. 0, sm_histogram = \<lambda>_. [], sm_statistics = [], sm_blob_stats = []\<rparr>"
  have "pr_status p = Status_Reports (sm_net1 x) (sm_disk1 x)" using assms by (simp add: x_def)
  then show ?thesis by (cases "sample_traffic x") (auto intro: Report Report_Stops)
qed

lemma summing_up_steps:
  assumes "pr_status p = Status_Sums_Up net disk"
  shows "\<exists>p'. status_step p p'"
proof -
  define x where "x = \<lparr>sm_net1 = net, sm_disk1 = disk, sm_done = True, sm_net2 = None, sm_disk2 = None,
    sm_ticker = \<lambda>_. 0, sm_histogram = \<lambda>_. [], sm_statistics = [], sm_blob_stats = []\<rparr>"
  have "pr_status p = Status_Sums_Up (sm_net1 x) (sm_disk1 x)" using assms by (simp add: x_def)
  then show ?thesis by (blast intro: Sum_Up)
qed

lemma status_steps: "pr_status p = Status_Ended \<or> (\<exists>p'. status_step p p')"
  using reading_steps reporting_steps summing_up_steps by (cases "pr_status p") (auto intro: Status_Open Wake)

lemma stats_steps: "pr_stats p = Stats_Ended \<or> (\<exists>p'. stats_step p p')"
  by (cases "pr_stats p") (auto intro: Stats_Open Stats_Wake Look Clear Write)

lemma main_steps: "pr_main p \<in> {Main_Joins_Status, Main_Joins_Stats, Main_Returned} \<or> (\<exists>p'. main_step load p p')"
  by (cases "pr_main p") (auto intro: Work Finish Wait Set_Done Delete)

lemma process_stuck:
  assumes "\<nexists>p'. process_step load p p'" "pr_stop p = None"
  shows "pr_main p = Main_Returned \<and> pr_status p = Status_Ended \<and> pr_stats p = Stats_Ended"
proof -
  have none: "\<not> main_step load p p'" "\<not> status_step p p'" "\<not> stats_step p p'" for p'
    using assms by (auto simp: process_step_def)
  then have "pr_status p = Status_Ended" "pr_stats p = Stats_Ended" using status_steps stats_steps by blast+
  with none(1) main_steps [of p load] show ?thesis by (auto intro: Join_Status Join_Stats)
qed

section \<open>The output of the threads\<close>

lemma status_loop_append:
  assumes "list_all (\<lambda>x. \<not> sm_done x) xs"
  shows "status_loop (xs @ ys) sn =
    andthen (status_loop xs sn) (\<lambda>(rps, su, sn').
      andthen (status_loop ys sn') (\<lambda>(rps', su', sn''). Inr (rps @ rps', su', sn'')))"
  using assms
proof (induction xs arbitrary: sn)
  case Nil
  show ?case by (cases "status_loop ys sn") auto
next
  case (Cons x xs)
  have "\<not> sm_done x" "list_all (\<lambda>x. \<not> sm_done x) xs" using Cons.prems by simp_all
  note IH = Cons.IH [OF this(2)]
  show ?case
    using \<open>\<not> sm_done x\<close> unfolding append_Cons status_loop.simps IH Let_def
    by (auto simp: andthen_def split: sum.splits)
qed

lemma status_loop_length:
  "list_all (\<lambda>x. \<not> sm_done x) xs \<Longrightarrow> status_loop xs sn = Inr (rps, su, sn') \<Longrightarrow> length rps = length xs"
  by (induction xs arbitrary: sn rps) (fastforce simp: andthen_eq_Inr Let_def)+

text \<open>The rounds before the last, and the round that finds the program done.\<close>

definition status_rounds :: "status_sample list \<Rightarrow> status_report list \<Rightarrow> status_snaps \<Rightarrow> bool" where
  "status_rounds xs rps sn \<longleftrightarrow>
     list_all (\<lambda>x. \<not> sm_done x \<and> (\<exists>r. sample_traffic x = Inr r)) xs \<and> status_loop xs first_snaps = Inr (rps, None, sn)"

lemma status_rounds_running: "status_rounds xs rps sn \<Longrightarrow> list_all (\<lambda>x. \<not> sm_done x) xs"
  unfolding status_rounds_def by (auto elim: list.pred_mono_strong)

lemma status_rounds_Nil: "status_rounds [] [] first_snaps"
  by (simp add: status_rounds_def)

lemma status_rounds_report:
  assumes "status_rounds xs rps sn" "sample_traffic x = Inr (net, disk)"
  shows "status_rounds (xs @ [x\<lparr>sm_done := False\<rparr>])
    (rps @ [rocks_report (sm_ticker x) (sm_blob_stats x) net disk (sn\<lparr>total_time := total_time sn + 1\<rparr>)])
    (take_snaps (sm_ticker x) (sn\<lparr>total_time := total_time sn + 1\<rparr>))"
proof -
  have "sample_traffic (x\<lparr>sm_done := False\<rparr>) = Inr (net, disk)" using assms(2) by (simp add: sample_traffic_def)
  from status_loop_report [OF _ this, of "[]" sn] show ?thesis
    using assms(1) \<open>sample_traffic (x\<lparr>sm_done := False\<rparr>) = Inr (net, disk)\<close> status_loop_append [OF status_rounds_running [OF assms(1)]]
    by (simp add: status_rounds_def Let_def)
qed

lemma status_rounds_sum_up:
  assumes "status_rounds xs rps sn" "getNetStats (sm_net1 x) = Inr st"
  shows "status_loop (xs @ [x\<lparr>sm_done := True\<rparr>]) first_snaps =
    Inr (rps, Some (print_summary x (sn\<lparr>total_time := total_time sn + 1\<rparr>)), sn\<lparr>total_time := total_time sn + 1\<rparr>)"
  using assms status_loop_append [OF status_rounds_running [OF assms(1)]] by (simp add: status_rounds_def Let_def print_summary_def)

lemma rocks_stats_loop_append:
  assumes "list_all (\<lambda>x. \<not> fst x) xs"
  shows "fst (rocks_stats_loop (xs @ [(False, seen, stats, cache)]) False) =
    fst (rocks_stats_loop xs False) @ (if seen then [Write_Finished] else []) @ [Stats_Block stats cache]"
  using assms by (induction xs "False" rule: rocks_stats_loop.induct) (auto split: prod.splits)

text \<open>What the status thread has written, by where it is.\<close>

definition status_written :: "process \<Rightarrow> bool" where
  "status_written p \<longleftrightarrow> (case pr_status p of
       Status_Opens \<Rightarrow> pr_summary p = None \<and> status_rounds [] (pr_reports p) (pr_snaps p)
     | Status_Reads \<Rightarrow> pr_summary p = None \<and> (\<exists>xs. status_rounds xs (pr_reports p) (pr_snaps p))
     | Status_Sleeps net disk \<Rightarrow> pr_summary p = None \<and> (\<exists>st. getNetStats net = Inr st)
         \<and> (\<exists>xs. status_rounds xs (pr_reports p) (pr_snaps p))
     | Status_Reports net disk \<Rightarrow> pr_summary p = None
         \<and> (\<exists>xs sn. status_rounds xs (pr_reports p) sn \<and> pr_snaps p = sn\<lparr>total_time := total_time sn + 1\<rparr>)
     | Status_Sums_Up net disk \<Rightarrow> pr_summary p = None \<and> (\<exists>st. getNetStats net = Inr st)
         \<and> (\<exists>xs sn. status_rounds xs (pr_reports p) sn \<and> pr_snaps p = sn\<lparr>total_time := total_time sn + 1\<rparr>)
     | Status_Ended \<Rightarrow>
         if pr_summary p = None then print_my_status False [] first_snaps = Inr (pr_reports p, pr_summary p, pr_snaps p)
         else \<exists>xs y sn st. status_rounds xs (pr_reports p) sn \<and> sm_done y \<and> getNetStats (sm_net1 y) = Inr st
           \<and> print_my_status True (xs @ [y]) first_snaps = Inr (pr_reports p, pr_summary p, pr_snaps p))"

definition stats_written :: "process \<Rightarrow> bool" where
  "stats_written p \<longleftrightarrow> (\<exists>xs. list_all (\<lambda>x. \<not> fst x) xs \<and>
     (if pr_stats p = Stats_Clears then pr_lines p = fst (rocks_stats_loop xs False) @ [Write_Finished]
      else if pr_stats p = Stats_Writes then \<exists>seen. pr_lines p = fst (rocks_stats_loop xs False) @ (if seen then [Write_Finished] else [])
      else pr_lines p = fst (rocks_stats_loop xs False)))"

lemma status_written_cong:
  assumes "pr_status p' = pr_status p" "pr_summary p' = pr_summary p" "pr_reports p' = pr_reports p" "pr_snaps p' = pr_snaps p"
  shows "status_written p' \<longleftrightarrow> status_written p"
  by (simp add: status_written_def assms cong: status_at.case_cong)

lemma stats_written_cong:
  "pr_stats p' = pr_stats p \<Longrightarrow> pr_lines p' = pr_lines p \<Longrightarrow> stats_written p' \<longleftrightarrow> stats_written p"
  by (simp add: stats_written_def)

lemma process_start_written: "status_written process_start" "stats_written process_start"
  by (auto simp: status_written_def stats_written_def process_start_def status_rounds_Nil intro: exI [of _ "[]"])

lemma main_step_written: "main_step load p p' \<Longrightarrow> (status_written p' \<longleftrightarrow> status_written p) \<and> (stats_written p' \<longleftrightarrow> stats_written p)"
  by (intro conjI status_written_cong stats_written_cong; erule main_step.cases; simp)

lemma status_step_written:
  assumes "status_step p p'" "status_written p"
  shows "status_written p'"
  using assms(1)
proof (cases rule: status_step.cases)
  case (Status_Open opened)
  have "print_my_status False [] first_snaps = Inr ([], None, first_snaps)" by (simp add: print_my_status_def)
  then show ?thesis using Status_Open assms(2)
    by (auto simp: status_written_def status_rounds_def intro!: exI [of _ "[]"])
next
  case (Report x net disk)
  then obtain xs sn where rounds: "status_rounds xs (pr_reports p) sn" "pr_snaps p = sn\<lparr>total_time := total_time sn + 1\<rparr>"
    using assms(2) by (auto simp: status_written_def)
  then show ?thesis using Report assms(2) status_rounds_report [OF rounds(1) Report(3)]
    by (auto simp: status_written_def)
next
  case (Sum_Up x)
  then obtain xs sn st where rounds: "status_rounds xs (pr_reports p) sn" "getNetStats (sm_net1 x) = Inr st"
    "pr_snaps p = sn\<lparr>total_time := total_time sn + 1\<rparr>"
    using assms(2) by (auto simp: status_written_def)
  have "print_my_status True (xs @ [x\<lparr>sm_done := True\<rparr>]) first_snaps
      = Inr (pr_reports p', pr_summary p', pr_snaps p')"
    using status_rounds_sum_up [OF rounds(1,2)] Sum_Up rounds(3) by (simp add: print_my_status_def)
  moreover have "status_rounds xs (pr_reports p') sn" "pr_summary p' \<noteq> None" "pr_status p' = Status_Ended"
    using Sum_Up rounds(1) by simp_all
  ultimately show ?thesis using rounds(2) unfolding status_written_def
    by (auto intro!: exI [of _ xs] exI [of _ "x\<lparr>sm_done := True\<rparr>"])
qed (use assms(2) in \<open>auto simp: status_written_def\<close>)

lemma stats_step_written:
  assumes "stats_step p p'" "stats_written p"
  shows "stats_written p'"
  using assms(1)
proof (cases rule: stats_step.cases)
  case (Write stats cache)
  then obtain xs seen where xs: "list_all (\<lambda>x. \<not> fst x) xs"
      "pr_lines p = fst (rocks_stats_loop xs False) @ (if seen then [Write_Finished] else [])"
    using assms(2) by (auto simp: stats_written_def)
  have "pr_lines p' = fst (rocks_stats_loop (xs @ [(False, seen, stats, cache)]) False)"
    unfolding rocks_stats_loop_append [OF xs(1)] using Write xs(2) by simp
  moreover have "pr_stats p' = Stats_Sleeps" using Write by simp
  ultimately show ?thesis using xs(1)
    by (simp only: stats_written_def) (rule exI [of _ "xs @ [(False, seen, stats, cache)]"], simp)
next
  case Clear
  then show ?thesis using assms(2) by (auto simp: stats_written_def intro: exI [of _ True])
next
  case Look
  then show ?thesis using assms(2) by (auto simp: stats_written_def)
qed (use assms(2) in \<open>auto simp: stats_written_def split: if_splits\<close>)

lemma status_step_leaves: "status_step p p' \<Longrightarrow> stats_written p' \<longleftrightarrow> stats_written p"
  by (intro stats_written_cong; erule status_step.cases; simp)

lemma stats_step_leaves: "stats_step p p' \<Longrightarrow> status_written p' \<longleftrightarrow> status_written p"
  by (intro status_written_cong; erule stats_step.cases; simp)

lemma process_steps_written:
  assumes "(process_step load)\<^sup>*\<^sup>* process_start p"
  shows "status_written p" "stats_written p"
proof -
  have "status_written p \<and> stats_written p" using assms
    by (induction rule: rtranclp_induct)
      (simp add: process_start_written,
       use main_step_written status_step_written stats_step_written status_step_leaves stats_step_leaves
       in \<open>auto simp: process_step_def\<close>)
  then show "status_written p" "stats_written p" by simp_all
qed

section \<open>Properties\<close>

text \<open>A run in which the status thread could open its file and the other could not, and all threads end.\<close>

definition process_at ::
    "main_at \<Rightarrow> status_at \<Rightarrow> stats_at \<Rightarrow> bool \<Rightarrow> bool \<Rightarrow> bool \<Rightarrow> status_snaps \<Rightarrow> status_summary option \<Rightarrow> process" where
  "process_at m s t f d l n u =
     \<lparr>pr_main = m, pr_status = s, pr_stats = t, pr_done = d, pr_finish = f, pr_live = l, pr_stop = None,
      pr_snaps = n, pr_reports = [], pr_summary = u, pr_lines = []\<rparr>"

lemma process_move:
  "main_step load p p' \<or> status_step p p' \<or> stats_step p p' \<Longrightarrow> pr_stop p = None \<Longrightarrow> process_step load p p'"
  by (simp add: process_step_def)

lemma main_moves:
  "process_step False (process_at Main_Works s t f d l n u) (process_at Main_Finishes s t f d l n u)"
  "process_step False (process_at Main_Finishes s t f d l n u) (process_at Main_Sets_Done s t True d l n u)"
  "process_step False (process_at Main_Sets_Done s t f d l n u) (process_at Main_Joins_Status s t f True l n u)"
  "process_step False (process_at Main_Joins_Status Status_Ended t f d l n u) (process_at Main_Joins_Stats Status_Ended t f d l n u)"
  "process_step False (process_at Main_Joins_Stats s Stats_Ended f d l n u) (process_at Main_Deletes s Stats_Ended f d l n u)"
  "process_step False (process_at Main_Deletes s t f d l n u) (process_at Main_Returned s t f d False n u)"
  using Work [of "process_at Main_Works s t f d l n u" False] Finish [of "process_at Main_Finishes s t f d l n u" False]
    Set_Done [of "process_at Main_Sets_Done s t f d l n u" False]
    Join_Status [of "process_at Main_Joins_Status Status_Ended t f d l n u" False]
    Join_Stats [of "process_at Main_Joins_Stats s Stats_Ended f d l n u" False]
    Delete [of "process_at Main_Deletes s t f d l n u" False]
  by (auto simp: process_at_def intro: process_move)

lemma status_moves:
  "process_step False (process_at m Status_Opens t f d l n u) (process_at m Status_Reads t f d l n u)"
  "process_step False (process_at m Status_Reads t f d l n u) (process_at m (Status_Sleeps None None) t f d l n u)"
  "process_step False (process_at m (Status_Sleeps None None) t f True l n u)
     (process_at m (Status_Sums_Up None None) t f True l (n\<lparr>total_time := total_time n + 1\<rparr>) u)"
  "process_step False (process_at m (Status_Sums_Up (sm_net1 x) (sm_disk1 x)) t f d l n u)
     (process_at m Status_Ended t f d l n (Some (print_summary x n)))"
proof -
  have "getNetStats None = Inr []" by (simp add: getNetStats_def text_lines.simps)
  then show "process_step False (process_at m Status_Reads t f d l n u) (process_at m (Status_Sleeps None None) t f d l n u)"
    using Read [of "process_at m Status_Reads t f d l n u" None "[]" None] by (auto simp: process_at_def intro: process_move)
qed (use Status_Open [of "process_at m Status_Opens t f d l n u" True]
      Wake [of "process_at m (Status_Sleeps None None) t f True l n u" None None]
      Sum_Up [of "process_at m (Status_Sums_Up (sm_net1 x) (sm_disk1 x)) t f d l n u" x]
    in \<open>auto simp: process_at_def intro: process_move\<close>)

lemma stats_moves: "process_step False (process_at m s Stats_Opens f d l n u) (process_at m s Stats_Ended f d l n u)"
  using Stats_Open [of "process_at m s Stats_Opens f d l n u" False] by (auto simp: process_at_def intro: process_move)

lemma short_run:
  obtains p where "(process_step False)\<^sup>*\<^sup>* process_start p" "pr_main p = Main_Returned" "pr_stop p = None"
    "pr_status p = Status_Ended" "pr_summary p \<noteq> None"
proof -
  define y where "y = \<lparr>sm_net1 = None, sm_disk1 = None, sm_done = True, sm_net2 = None, sm_disk2 = None,
    sm_ticker = \<lambda>_. 0, sm_histogram = \<lambda>_. [], sm_statistics = [], sm_blob_stats = []\<rparr>"
  let ?sn = "first_snaps\<lparr>total_time := total_time first_snaps + 1\<rparr>"
  have sums: "process_step False (process_at m (Status_Sums_Up None None) t f d l n u)
      (process_at m Status_Ended t f d l n (Some (print_summary y n)))" for m t f d l n u
    using status_moves(4) [of m y t f d l n u] by (simp add: y_def)
  have start: "process_start = process_at Main_Works Status_Opens Stats_Opens False False True first_snaps None"
    by (simp add: process_start_def process_at_def)
  have "(process_step False)\<^sup>*\<^sup>* process_start
      (process_at Main_Returned Status_Ended Stats_Ended True True False ?sn (Some (print_summary y ?sn)))"
    unfolding start
    by (rule main_moves(1-3) stats_moves status_moves(1-3) sums main_moves(4-6)
        converse_rtranclp_into_rtranclp rtranclp.rtrancl_refl)+
  then show ?thesis by (rule that) (simp_all add: process_at_def)
qed

text \<open>C9: The end of the program, in any interleaving of the main thread with the status threads. No thread uses the
  store after its deletion, and the end of the work is announced at most once. After a load \<open>done\<close> is never set, and
  as long as nothing stops the process it can always go on, for ever. Otherwise at most eleven steps remain
  once \<open>done\<close> is set, and where no step is left the process was stopped, or all three threads have ended and
  the store is deleted.\<close>

theorem shutdown_order:
  assumes reach: "(process_step load)\<^sup>*\<^sup>* process_start p"
  shows "(uses_store p \<longrightarrow> pr_live p) \<and> announced p \<le> 1
    \<and> (load \<and> pr_stop p = None \<longrightarrow> \<not> pr_done p \<and> (\<exists>p'. process_step load p p'))
    \<and> (\<forall>n p'. pr_done p \<and> (process_step load ^^ n) p p' \<longrightarrow> n \<le> 11)
    \<and> ((\<nexists>p'. process_step load p p') \<longrightarrow> pr_stop p \<noteq> None
         \<or> pr_main p = Main_Returned \<and> pr_status p = Status_Ended \<and> pr_stats p = Stats_Ended \<and> \<not> pr_live p)"
proof (intro conjI allI impI)
  note inv = process_steps_inv [OF reach]
  note D = shutdown_invD [OF inv(1)]
  show "pr_live p" if "uses_store p" unfolding D(1) using that D(2,3) by (auto simp: uses_store_def)
  show "announced p \<le> 1" using inv(2) by (simp add: announce_inv_def split: if_splits)
  show "\<not> pr_done p" if "load \<and> pr_stop p = None" using D(4) that by simp
  show "\<exists>p'. process_step load p p'" if "load \<and> pr_stop p = None" using D(5) that process_stuck [of load p] by blast
  show "n \<le> 11" if "pr_done p \<and> (process_step load ^^ n) p p'" for n p'
    using steps_after_done [OF conjunct2 [OF that] conjunct1 [OF that] inv(1)] steps_left_bound [of p] by linarith
  show "pr_stop p \<noteq> None \<or> pr_main p = Main_Returned \<and> pr_status p = Status_Ended \<and> pr_stats p = Stats_Ended \<and> \<not> pr_live p"
    if "\<nexists>p'. process_step load p p'"
    unfolding D(1) using process_stuck [OF that] by blast
qed

theorem shutdown_order_witness:
  "\<exists>p. (process_step False)\<^sup>*\<^sup>* process_start p \<and> pr_main p = Main_Returned \<and> announced p \<le> 1 \<and> \<not> uses_store p"
proof -
  obtain p where p: "(process_step False)\<^sup>*\<^sup>* process_start p" "pr_main p = Main_Returned" by (rule short_run)
  from shutdown_order [OF p(1)] p(2) process_steps_inv(1) [OF p(1)] p show ?thesis by (auto simp: shutdown_inv_def)
qed

text \<open>C10: What the status threads have written at the end is, in any interleaving, what their loops write for the samples
  they found: the reports belong to rounds that found the program running, and the summary to one that found it done.
  So when the counters of the store never fall, each number over all reports adds up to its counter at the last one.\<close>

theorem status_threads_write:
  assumes reach: "(process_step load)\<^sup>*\<^sup>* process_start p" and ended: "pr_status p = Status_Ended" "pr_summary p \<noteq> None"
  shows "\<exists>xs y. list_all (\<lambda>x. \<not> sm_done x) xs \<and> sm_done y \<and> length (pr_reports p) = length xs
    \<and> print_my_status True (xs @ [y]) first_snaps = Inr (pr_reports p, pr_summary p, pr_snaps p)
    \<and> (ticks_rise (\<lambda>t. 0) xs \<longrightarrow>
         (\<forall>(f, t, u, snap) \<in> set report_counters. sum_list (map f (pr_reports p)) = to_double (last_ticks (\<lambda>t. 0) xs t) / u))
    \<and> (pr_stats p = Stats_Ended \<longrightarrow> (\<exists>ys. pr_lines p = fst (printRocksDBStats True ys False)))"
proof -
  from process_steps_written(1) [OF reach] ended obtain xs y sn st
    where run: "status_rounds xs (pr_reports p) sn" "sm_done y" "getNetStats (sm_net1 y) = Inr st"
      "print_my_status True (xs @ [y]) first_snaps = Inr (pr_reports p, pr_summary p, pr_snaps p)"
    by (auto simp: status_written_def)
  have loop: "status_loop (xs @ [y]) first_snaps = Inr (pr_reports p, pr_summary p, pr_snaps p)"
    using run(4) by (simp add: print_my_status_def)
  have ok: "list_all (\<lambda>x. \<not> sm_done x \<and> (\<exists>r. sample_traffic x = Inr r)) xs" using run(1) by (simp add: status_rounds_def)
  have len: "length (pr_reports p) = length xs"
    using run(1) status_loop_length [OF status_rounds_running [OF run(1)]] unfolding status_rounds_def by blast
  have sums: "\<forall>(f, t, u, snap) \<in> set report_counters. sum_list (map f (pr_reports p)) = to_double (last_ticks (\<lambda>t. 0) xs t) / u"
    if "ticks_rise (\<lambda>t. 0) xs"
    using status_loop_sums [OF ok that snaps_at_first run(2,3), of "[]"] loop by (auto simp: to_double_zero)
  have lines: "\<exists>ys. pr_lines p = fst (printRocksDBStats True ys False)" if "pr_stats p = Stats_Ended"
    using process_steps_written(2) [OF reach] that by (auto simp: stats_written_def printRocksDBStats_def)
  show ?thesis
    using run(2,4) len status_rounds_running [OF run(1)] by (intro exI [of _ xs] exI [of _ y] conjI impI sums lines)
qed

theorem status_threads_write_witness:
  "\<exists>p xs y. (process_step False)\<^sup>*\<^sup>* process_start p \<and> pr_main p = Main_Returned \<and> sm_done y
    \<and> print_my_status True (xs @ [y]) first_snaps = Inr (pr_reports p, pr_summary p, pr_snaps p)"
proof -
  obtain p where p: "(process_step False)\<^sup>*\<^sup>* process_start p" "pr_main p = Main_Returned"
    "pr_status p = Status_Ended" "pr_summary p \<noteq> None" by (rule short_run)
  from status_threads_write [OF p(1,3,4)] obtain xs y where "sm_done y"
      "print_my_status True (xs @ [y]) first_snaps = Inr (pr_reports p, pr_summary p, pr_snaps p)" by (elim exE conjE)
  then show ?thesis using p(1,2) by (intro exI [of _ p] exI [of _ xs] exI [of _ y] conjI)
qed

end
