(* ===== verification/Ycsb_String.thy ===== *)
theory Ycsb_String
  imports Ycsb_Hashtable
begin

text \<open>
  The hashed string of the library (\<open>lib/string.h\<close>) with its allocator (\<open>lib/mem_alloc.h\<close>): a C string
  with its length and its 64-bit SDBM hash, and a comparison that looks at the hashes first. The value is
  a pointer to characters nobody changes: the characters before the NUL, or \<open>None\<close> for the null pointer.
\<close>

record hash_string =
  hs_hash :: u64
  hs_value :: "string option"
  hs_len :: u64

definition empty_String :: hash_string where
  "empty_String = \<lparr>hs_hash = 0, hs_value = None, hs_len = 0\<rparr>"

text \<open>A \<open>char\<close> is signed: the conversion to \<open>uint64_t\<close> extends its sign.\<close>

definition char_to_u64 :: "char \<Rightarrow> u64" where
  "char_to_u64 c = signed (of_char c :: 8 word)"

fun sdbm_loop :: "u64 \<Rightarrow> string \<Rightarrow> u64" where
  "sdbm_loop hash [] = hash"
| "sdbm_loop hash (x # cstr) =
     (let c = char_to_u64 x in
      if c = 0 then hash
      else sdbm_loop (c + push_bit 6 hash + push_bit 16 hash - hash) cstr)"

definition SDBMHash :: "string \<Rightarrow> u64" where
  "SDBMHash cstr = sdbm_loop 0 cstr"

definition strlen :: "string \<Rightarrow> u64" where
  "strlen cstr = of_nat (length (c_str cstr))"

definition set_value :: "string \<Rightarrow> hash_string \<Rightarrow> hash_string" where
  "set_value v hstr = hstr\<lparr>hs_value := Some (c_str v), hs_len := strlen v, hs_hash := SDBMHash v\<rparr>"

text \<open>\<open>malloc\<close> tells whether there is memory for so many bytes; \<open>strcpy\<close> to a null pointer is undefined.\<close>

definition String_Copy :: "(u64 \<Rightarrow> bool) \<Rightarrow> string option \<Rightarrow> run_stop + hash_string" where
  "String_Copy malloc cstr =
     (case cstr of
        None \<Rightarrow> Inl Stop_Assert
      | Some v \<Rightarrow>
          let len = strlen v in
          if \<not> malloc (len + 1) then Inl Stop_Undefined
          else
            let hstr = set_value (c_str v) empty_String in
            if hs_len hstr = len then Inr hstr else Inl Stop_Assert)"

definition String_Wrap :: "string option \<Rightarrow> run_stop + hash_string" where
  "String_Wrap cstr =
     (case cstr of None \<Rightarrow> Inl Stop_Assert | Some v \<Rightarrow> Inr (set_value v empty_String))"

text \<open>The number of bytes \<open>Free\<close> gives back.\<close>

definition String_Free_size :: "hash_string \<Rightarrow> u64" where
  "String_Free_size hstr = hs_len hstr + 1"

definition String_eq :: "hash_string \<Rightarrow> hash_string \<Rightarrow> run_stop + bool" where
  "String_eq a b =
     (if hs_hash a \<noteq> hs_hash b then Inr False
      else case (hs_value a, hs_value b) of
             (Some v, Some w) \<Rightarrow> Inr (v = w)
           | _ \<Rightarrow> Inl Stop_Undefined)"

section \<open>The hash as a polynomial\<close>

lemma char_to_u64_eq_0: "char_to_u64 c = 0 \<longleftrightarrow> c = CHR 0x00"
proof -
  have "\<forall>c \<in> set Enum.enum. char_to_u64 c = 0 \<longleftrightarrow> c = CHR 0x00" by code_simp
  then show ?thesis by (simp add: enum_UNIV)
qed

lemma sdbm_step: "c + push_bit 6 h + push_bit 16 h - h = 65599 * h + (c :: u64)"
  by (simp add: push_bit_eq_mult algebra_simps)

lemma sdbm_loop_eq: "sdbm_loop h s = foldl (\<lambda>h c. 65599 * h + char_to_u64 c) h (c_str s)"
  by (induction s arbitrary: h) (simp_all add: Let_def char_to_u64_eq_0 sdbm_step c_str_def)

lemma foldl_horner:
  fixes a :: "'a :: comm_semiring_1"
  shows "foldl (\<lambda>h c. a * h + f c) h s = a ^ length s * h + (\<Sum>i<length s. f (s ! i) * a ^ (length s - 1 - i))"
proof (induction s rule: rev_induct)
  case (snoc x s)
  have "a * (\<Sum>i<length s. f (s ! i) * a ^ (length s - 1 - i)) = (\<Sum>i<length s. f (s ! i) * a ^ (length s - i))"
    unfolding sum_distrib_left
  proof (intro sum.cong refl)
    fix i assume "i \<in> {..<length s}"
    then have "length s - i = Suc (length s - 1 - i)" by auto
    then show "a * (f (s ! i) * a ^ (length s - 1 - i)) = f (s ! i) * a ^ (length s - i)" by (simp add: ac_simps)
  qed
  with snoc show ?case by (simp add: algebra_simps nth_append)
qed simp

lemma set_value_c_str [simp]: "set_value (c_str v) h = set_value v h"
proof -
  have "c_str (c_str v) = c_str v" by (auto simp: c_str_def takeWhile_eq_all_conv dest: set_takeWhileD)
  then show ?thesis by (simp add: set_value_def strlen_def SDBMHash_def sdbm_loop_eq)
qed

section \<open>Properties\<close>

text \<open>C32: The hash of a string is the polynomial with base 65599 over its characters, computed modulo
  two to the 64. Copying a string, when there is memory for it and its NUL, and wrapping it give the same
  hashed string, and comparing two of them answers whether the C strings are equal: the look at the hashes
  never changes the answer, whatever collisions there are.\<close>

theorem hashed_strings_compare:
  "SDBMHash v = (\<Sum>i<length (c_str v). char_to_u64 (c_str v ! i) * 65599 ^ (length (c_str v) - 1 - i))
   \<and> (\<exists>a b. String_Wrap (Some v) = Inr a \<and> String_Wrap (Some w) = Inr b
        \<and> String_Copy malloc (Some v) = (if malloc (strlen v + 1) then Inr a else Inl Stop_Undefined)
        \<and> String_eq a b = Inr (c_str v = c_str w) \<and> String_Free_size a = strlen v + 1)"
proof -
  have "SDBMHash v = (\<Sum>i<length (c_str v). char_to_u64 (c_str v ! i) * 65599 ^ (length (c_str v) - 1 - i))"
    by (simp add: SDBMHash_def sdbm_loop_eq foldl_horner)
  moreover have "SDBMHash v = SDBMHash w" if "c_str v = c_str w" using that by (simp add: SDBMHash_def sdbm_loop_eq)
  ultimately show ?thesis
    by (auto simp: String_Wrap_def String_Copy_def String_eq_def String_Free_size_def Let_def) (auto simp: set_value_def)
qed

end
