(* ===== verification/Ycsb_Support.thy ===== *)
theory Ycsb_Support
  imports Ycsb_String Ycsb_Client
begin

text \<open>
  The small helpers: the interval timer and the wall clock (\<open>core/timer.h\<close> and the members of the same name in
  the databases) and the allocator of the hashed strings (\<open>lib/mem_alloc.h\<close>).
\<close>

section \<open>Clocks\<close>

text \<open>
  A reading of \<open>high_resolution_clock\<close> is a number of nanoseconds. A timer for floating-point numbers counts the
  seconds between its two readings, one for integers counts the whole seconds, rounded towards zero.
\<close>

record timer =
  tm_time :: int

definition Timer_Start :: "int \<Rightarrow> timer \<Rightarrow> timer" where
  "Timer_Start now tm = tm\<lparr>tm_time := now\<rparr>"

definition Timer_End :: "int \<Rightarrow> timer \<Rightarrow> real" where
  "Timer_End now tm = real_of_int (now - tm_time tm) / 1000000000"

definition Timer_End_whole :: "int \<Rightarrow> timer \<Rightarrow> int" where
  "Timer_End_whole now tm = (now - tm_time tm) sdiv 1000000000"

text \<open>\<open>gettimeofday\<close> in microseconds, as the member of either database computes it.\<close>

definition RC_get_now_micros :: "int \<times> int \<Rightarrow> u64" where
  "RC_get_now_micros = (\<lambda>(tv_sec, tv_usec). word_of_int (tv_sec * 1000000 + tv_usec))"

definition RD_get_now_micros :: "int \<times> int \<Rightarrow> u64" where
  "RD_get_now_micros = (\<lambda>(tv_sec, tv_usec). word_of_int (tv_sec * 1000000 + tv_usec))"

lemma now_micros_agree:
  "fst (get_now_micros cx s) = RC_get_now_micros (cx_clock cx (sh_readings s))"
  "RD_get_now_micros = RC_get_now_micros"
  by (simp_all add: get_now_micros_def RC_get_now_micros_def RD_get_now_micros_def case_prod_beta)

lemma Timer_End_whole_le: "tm_time tm \<le> now \<Longrightarrow> Timer_End_whole now tm = \<lfloor>Timer_End now tm\<rfloor>"
  using floor_divide_of_int_eq [of "now - tm_time tm" 1000000000, where ?'a = real]
  by (cases "tm_time tm = now") (simp_all add: Timer_End_whole_def Timer_End_def signed_divide_int_def)

text \<open>The difference of two readings of the wall clock is the time between them while it does not go back.\<close>

lemma elapsed_micros:
  assumes "a = fst tv * 1000000 + snd tv" "b = fst tv' * 1000000 + snd tv'" "a \<le> b" "b - a < 2 ^ 64"
  shows "uint (RC_get_now_micros tv' - RC_get_now_micros tv) = b - a"
proof -
  have "RC_get_now_micros tv' - RC_get_now_micros tv = word_of_int (b - a)"
    unfolding assms(1,2) RC_get_now_micros_def case_prod_beta by simp
  then show ?thesis using assms(3,4) by (simp only: uint_word_of_int) simp
qed

section \<open>The allocator\<close>

text \<open>
  The heap is the set of live blocks with their sizes. Where \<open>malloc\<close> and \<open>new\<close> place a block, or whether
  they fail, is a parameter; \<open>free\<close> and \<open>delete\<close> accept the null pointer, and anything else that is not the
  start of a live block is undefined. The size that \<open>Free\<close> is given is not used.
\<close>

type_synonym heap = "nat \<rightharpoonup> u64"

definition MemAlloc_Malloc :: "(heap \<Rightarrow> u64 \<Rightarrow> nat option) \<Rightarrow> u64 \<Rightarrow> heap \<Rightarrow> nat option \<times> heap" where
  "MemAlloc_Malloc place n h =
     (case place h n of None \<Rightarrow> (None, h) | Some p \<Rightarrow> (Some p, h(p \<mapsto> n)))"

definition MemAlloc_Free :: "nat option \<Rightarrow> u64 \<Rightarrow> heap \<Rightarrow> run_stop + heap" where
  "MemAlloc_Free ptr n h =
     (case ptr of None \<Rightarrow> Inr h | Some p \<Rightarrow> if p \<in> dom h then Inr (h(p := None)) else Inl Stop_Undefined)"

text \<open>The copy of a string in a block of its own, and its release.\<close>

definition String_Copy_in ::
    "(heap \<Rightarrow> u64 \<Rightarrow> nat option) \<Rightarrow> string option \<Rightarrow> heap \<Rightarrow> run_stop + (hash_string \<times> nat option) \<times> heap" where
  "String_Copy_in place cstr h =
     (case cstr of
        None \<Rightarrow> Inl Stop_Assert
      | Some v \<Rightarrow>
          let len = strlen v; (str, h1) = MemAlloc_Malloc place (len + 1) h in
          if str = None then Inl Stop_Undefined
          else let hstr = set_value (c_str v) empty_String in
               if hs_len hstr = len then Inr ((hstr, str), h1) else Inl Stop_Assert)"

definition String_Free_in :: "hash_string \<times> nat option \<Rightarrow> heap \<Rightarrow> run_stop + heap" where
  "String_Free_in = (\<lambda>(hstr, ptr) h. MemAlloc_Free ptr (String_Free_size hstr) h)"

text \<open>Releasing a copy gives the heap back as it was before the copy, where releasing it again is undefined.\<close>

lemma String_Copy_Free:
  assumes fresh: "\<And>h n p. place h n = Some p \<Longrightarrow> p \<notin> dom h" and copy: "String_Copy_in place cstr h = Inr (x, h')"
  shows "String_Free_in x h' = Inr h" "String_Free_in x h = Inl Stop_Undefined" "String_Copy (\<lambda>_. True) cstr = Inr (fst x)"
proof -
  obtain v where v: "cstr = Some v" using copy by (auto simp: String_Copy_in_def split: option.splits)
  obtain p where p: "place h (strlen v + 1) = Some p"
    using copy by (auto simp: v String_Copy_in_def MemAlloc_Malloc_def Let_def split: option.splits)
  let ?hstr = "set_value (c_str v) empty_String"
  have x: "x = (?hstr, Some p)" "h' = h(p \<mapsto> strlen v + 1)" "hs_len ?hstr = strlen v"
    using copy by (auto simp: v p String_Copy_in_def MemAlloc_Malloc_def Let_def split: if_splits)
  have "p \<notin> dom h" by (rule fresh [OF p])
  then show "String_Free_in x h' = Inr h" "String_Free_in x h = Inl Stop_Undefined"
    by (auto simp: x(1,2) String_Free_in_def MemAlloc_Free_def)
  show "String_Copy (\<lambda>_. True) cstr = Inr (fst x)" using x(3) by (simp add: v x(1) String_Copy_def Let_def)
qed

end
