(* ===== verification/Spec2Isabelle.thy ===== *)
theory Spec2Isabelle
  imports Hdr_Log_Codec Ycsb_Program Ycsb_Lifetime Ycsb_Races Ycsb_Shutdown Ycsb_Support
begin

text \<open>
  Verification of the YCSB cloud benchmark (the program \<^verbatim>\<open>ycsbc\<close> under \<^verbatim>\<open>src/core\<close>,
  \<^verbatim>\<open>src/db\<close>, \<^verbatim>\<open>src/lib\<close> and \<^verbatim>\<open>src/ycsbc.cc\<close>) and of the latency histogram it measures with
  (the vendored \<^verbatim>\<open>HdrHistogram_c\<close>).

  \<^bold>\<open>The program.\<close> \<^verbatim>\<open>main\<close> reads its options and property files, lets a factory construct the database,
  and runs up to two phases, loading and transactions. A phase divides its operations among client
  threads; each thread draws operations, keys and values from the shared workload, calls the database and reports
  the time of every call to it, and about once per second a line of the latency report is written. The
  databases serialise records into a key-value store and keep the times in histograms; two status threads
  report the traffic of the machine and the counters of the store.

  \<^bold>\<open>Theories of the benchmark.\<close>
  \<^item> \<open>Ycsb_Utils\<close>, \<open>Ycsb_Numbers\<close> (\<^verbatim>\<open>core/utils.h\<close>, \<^verbatim>\<open>core/properties.h\<close>, the option parser of
    \<^verbatim>\<open>ycsbc.cc\<close>, the number conversions of the standard library): a property file sets exactly its
    settings, and the parser accepts exactly the well-formed options.
  \<^item> \<open>Dictionaries\<close>, \<open>Codecs\<close>: the contracts of tables and of self-delimiting encodings, as locales.
  \<^item> \<open>Ycsb_Generators\<close>, \<open>Zeta_Sums\<close> (\<^verbatim>\<open>core/*_generator.h\<close>): one record and one \<open>Next\<close> per generator, their
    ranges, and the choice by weight; the locale \<open>generator\<close> is their common contract.
  \<^item> \<open>Ycsb_Coding\<close> (\<^verbatim>\<open>lib/coding.h\<close> and the record format): the round trip of records.
  \<^item> \<open>Ycsb_String\<close>, \<open>Ycsb_Support\<close> (\<^verbatim>\<open>lib/string.h\<close>, \<^verbatim>\<open>lib/mem_alloc.h\<close>, \<^verbatim>\<open>core/timer.h\<close>): the hash as a polynomial, the
    comparison of hashed strings, their copies on a heap, the timer and the clocks.
  \<^item> \<open>Ycsb_Db\<close> (\<^verbatim>\<open>core/db.h\<close>, \<^verbatim>\<open>db/basic_db.h\<close>): the virtual methods as a record of functions, what the client
    relies on as the locale \<open>database\<close>, and the database that prints its calls. \<open>run_stop\<close> has the ways a call
    may end the program: exit, assertion, undefined behaviour, divergence, an escaping exception.
  \<^item> \<open>Ycsb_Hashtable\<close> (\<^verbatim>\<open>db/hashtable_db.*\<close>), \<open>Ycsb_Rocks\<close> (\<^verbatim>\<open>db/rocksdb_cloud_db.*\<close>), \<open>Ycsb_Options\<close> (the option
    setters and the opening of the stores), \<open>Ycsb_Rocksdb\<close> (\<^verbatim>\<open>db/rocksdb_db.*\<close>): the databases, each an instance of
    \<open>database\<close>. They refine maps of records; the histograms hold exactly the recorded times; the reports and the
    summary describe them; the constructors have the outcomes of the code.
  \<^item> \<open>Ycsb_Workload\<close> (\<^verbatim>\<open>core/core_workload.*\<close>): initialisation with all its failures, keys, fields, values and
    operations; a valid workload never fails and keeps its invariant, and the search for a key ends.
  \<^item> \<open>Ycsb_Client\<close> (\<^verbatim>\<open>core/client.h\<close>, \<^verbatim>\<open>core/timer.h\<close>), \<open>Ycsb_Threads\<close>, \<open>Ycsb_Load\<close> (\<^verbatim>\<open>DelegateClient\<close>): the transactions
    and their accounting; the threads of a phase as the step relation \<open>client_step\<close>, whose steps are the start, a
    round and the return of a thread. The locales \<open>timed_database\<close>, \<open>client_phase\<close> and \<open>loadable\<close> carry the
    invariants of both phases, by sublocale from the contract of the database.
  \<^item> \<open>Ycsb_Main\<close>, \<open>Ycsb_Program\<close> (\<^verbatim>\<open>main\<close>, \<^verbatim>\<open>db/db_factory.cc\<close>): settings, phases, what follows them, and whole
    runs of the program as the relation \<open>main_run\<close>.
  \<^item> \<open>Ycsb_Simulation\<close>: databases that commute with a translation of states (locale \<open>database_simulation\<close>)
    cannot be told apart by the benchmark; interpreted on both RocksDB databases.
  \<^item> \<open>Ycsb_Monitor\<close> (\<^verbatim>\<open>lib/perf_disk_net_bw.h\<close> and the status threads): the readers of the files of the kernel, the
    bandwidths, the reports that add up and the summary.
  \<^item> \<open>Ycsb_Shutdown\<close>: the main thread and the status threads at the end of \<^verbatim>\<open>main\<close>, as the relation
    \<open>process_step\<close> over the flags and the store: the order of the end, and what the threads have written.
  \<^item> \<open>Shared_Counters\<close>, \<open>Ycsb_Races\<close>: the counters of the client and the counts of the histograms, which the
    client threads update without a lock, as loads and stores in any order: what is lost, and what can be.
  \<^item> \<open>Ycsb_Lifetime\<close>: what the constructors take and the destructors give back; the locale \<open>object_lifetime\<close>.

  \<^bold>\<open>Theories of the histogram\<close> (\<^verbatim>\<open>third-party/HdrHistogram_c\<close>). \<open>Prelude\<close> has the integer conventions, \<open>Slots\<close> and
  \<open>Walkers\<close> the contracts of the slot arithmetic and of loops over iterators. \<open>Hdr_Histogram\<close>, \<open>Hdr_Buckets\<close> and
  \<open>Hdr_Record\<close> have the structure, its arithmetic and recording, related by \<open>hdr_abs\<close> to the multiset of recorded
  values; \<open>Hdr_Iter\<close> the five iterators; \<open>Hdr_Values\<close> merging, percentiles, mean and deviation; \<open>Hdr_Print\<close> the
  percentile file, whose levels are given in closed form;
  \<open>Hdr_Encoding\<close> and \<open>Hdr_Log_Codec\<close> ZigZag, Base64 and the compressed format with their round trips.

  \<^bold>\<open>Conventions and bounds.\<close> Unsigned integers are words and wrap; signed ones are integers with an explicit
  conversion, or a stop where their overflow is undefined. Doubles are reals, and a quotient that is not a number is
  \<open>None\<close>. Random draws, the clock, memory, files, the key-value store, the hash table and the compression library are
  arguments; what the code relies on is stated as \<open>random_lib_ok\<close>, \<open>kv_ok\<close>, \<open>hashtable_lib_ok\<close> and \<open>zlib_ok\<close>. All
  functions are total: loops without a bound in their data either have a measure or run over an explicit sequence
  of answers, and the loop for a transaction key is shown to end. A thread makes at most \<open>INT32_MAX - 100000\<close>
  operations, since the counter of its progress report overflows beyond; the latency histograms have 23552 slots, for
  one microsecond to one hour, and the percentile file is shown to end while \<open>4 * ticks * count\<close> is an \<open>int64_t\<close>.
  As a method of the interface \<open>PrintStats\<close> writes to a file that accepts every line. The theories on
  phases make a transaction one step, as the locks of the database and of the generators allow; what the unlocked
  accounting of a transaction can lose is in \<open>Ycsb_Races\<close>.

  \<^bold>\<open>Not modelled.\<close> The layout of printed text; its numbers and texts are kept. The races of the client threads
  on the extremes of a histogram and on the record that is reset every second. Of the histogram library, the
  compare-and-exchange loops of the atomic variants, the text reader and writer of logs, the interval recorder and the
  phaser are left out; the benchmark does not use them. What is left of the files of the benchmark is declarations,
  includes and comments.
\<close>

section \<open>The program\<close>



end
